theory Spec2Isabelle
  imports Main "HOL-Library.Signed_Division"
begin

section \<open>Lariat: a linked list of fixed-size arrays\<close>

text \<open>
  The container of \<^verbatim>\<open>lariat.h\<close> / \<^verbatim>\<open>lariat.cpp\<close> is a doubly linked chain of
  nodes, each holding an array of \<^verbatim>\<open>Size\<close> slots and the number of live slots.
  The model keeps the pointers: nodes live in a store addressed by natural numbers,
  \<^verbatim>\<open>LNode*\<close> is an optional address (\<open>None\<close> is \<^verbatim>\<open>nullptr\<close>), and every
  member function takes the container together with its store and returns the new one.

  \<^item> \<^verbatim>\<open>int\<close> fields and indices are \<open>int\<close>. Division and remainder are the
    truncating ones of C++ (\<open>sdiv\<close>, \<open>smod\<close>). \<^verbatim>\<open>size_++\<close> on a 32-bit
    \<^verbatim>\<open>int\<close> that already holds \<open>INT_MAX\<close> is a signed overflow, which has no defined
    result: the model returns \<open>UB\<close> there. A node's count is incremented only after a
    write to the slot at the count has succeeded, so it stays within the array length.
    \<^verbatim>\<open>nodecount_\<close> is incremented once per new node; in a container whose nodes all
    hold an element it is at most \<^verbatim>\<open>size_\<close>, and it is left unbounded, as are the
    decrements, which stay above 0 in such a container.
  \<^item> A \<^verbatim>\<open>const T&\<close> parameter is a reference, not a copy: it is read at the statement
    that uses it, in the state the container has then.
  \<^item> A slot of the array is an \<open>'a option\<close>: \<open>None\<close> is an indeterminate value (a slot
    of a fresh node that was never written, or what a read past the end of the array yields).
  \<^item> Dereferencing a null or deleted pointer and writing outside an array have no defined
    result in C++: the model returns \<open>UB\<close> there.
  \<^item> \<^verbatim>\<open>new LNode\<close> either succeeds or throws \<^verbatim>\<open>std::bad_alloc\<close>; which one happens
    is the argument \<open>mem\<close> of every function that allocates.
  \<^item> A thrown \<^verbatim>\<open>LariatException\<close> carries the state the container is left in.
  \<^item> The members \<^verbatim>\<open>head_\<close>, \<^verbatim>\<open>tail_\<close>, \<^verbatim>\<open>nodecount_\<close>, \<^verbatim>\<open>asize_\<close> lose their
    trailing underscore, and \<^verbatim>\<open>size_\<close> is \<open>lsize\<close>.
\<close>

subsection \<open>Data\<close>

datatype LARIAT_EXCEPTION = E_NO_MEMORY | E_BAD_INDEX | E_DATA_ERROR

type_synonym addr = nat

record 'a LNode =
  "next" :: "addr option"
  prev :: "addr option"
  count :: int
  "values" :: "'a option list"

text \<open>The fields \<^verbatim>\<open>node\<close> and \<^verbatim>\<open>localIndex\<close> of \<^verbatim>\<open>ElementInfo\<close>.\<close>

record ElementInfo =
  info_node :: "addr option"
  info_localIndex :: int

record 'a Lariat =
  heap :: "addr \<Rightarrow> 'a LNode option"
  fresh :: addr
  head :: "addr option"
  tail :: "addr option"
  lsize :: int
  nodecount :: int
  asize :: int

datatype ('v, 's) res = Ret 'v 's | Throw LARIAT_EXCEPTION 's | UB

text \<open>
  What a \<^verbatim>\<open>const T&\<close> argument is bound to: an object outside the nodes with its
  content (a variable or temporary of the caller, the local \<^verbatim>\<open>overflow\<close>), or slot
  \<open>i\<close> of the array of the node at an address, which is what \<^verbatim>\<open>operator[]\<close>,
  \<^verbatim>\<open>first\<close> and \<^verbatim>\<open>last\<close> return.
\<close>

datatype 'a cref = Object "'a option" | Element addr int

abbreviation INT_MAX :: int where
  "INT_MAX \<equiv> 2147483647"

text \<open>The default constructor, for the template argument \<open>Size\<close>.\<close>

definition Lariat :: "int \<Rightarrow> 'a Lariat" where
  "Lariat Size = \<lparr>heap = (\<lambda>a. None), fresh = 0, head = None, tail = None,
     lsize = 0, nodecount = 0, asize = Size\<rparr>"

subsection \<open>Arrays and allocation\<close>

definition in_array :: "'b list \<Rightarrow> int \<Rightarrow> bool" where
  "in_array vs i = (0 \<le> i \<and> i < int (length vs))"

text \<open>Reading a slot: outside the array the value is indeterminate.\<close>

definition rd :: "'a option list \<Rightarrow> int \<Rightarrow> 'a option" where
  "rd vs i = (if in_array vs i then vs ! nat i else None)"

text \<open>Writing a slot: outside the array there is no result.\<close>

definition wr :: "'a option list \<Rightarrow> int \<Rightarrow> 'a option \<Rightarrow> 'a option list option" where
  "wr vs i v = (if in_array vs i then Some (vs[nat i := v]) else None)"

text \<open>
  Reading through a \<^verbatim>\<open>const T&\<close>: the content of the object, or of the slot in the
  current state; there is no result if the node is gone or the slot is outside its array.
\<close>

definition read_cref :: "'a Lariat \<Rightarrow> 'a cref \<Rightarrow> 'a option option" where
  "read_cref s value =
     (case value of
        Object x \<Rightarrow> Some x
      | Element a i \<Rightarrow>
          (case heap s a of
             None \<Rightarrow> None
           | Some n \<Rightarrow> if in_array (values n) i then Some (rd (values n) i) else None))"

text \<open>
  \<^verbatim>\<open>new LNode\<close> inside its \<^verbatim>\<open>try\<close> block: a node with null links, count 0 and
  \<open>Size\<close> indeterminate slots at an address never used before, or \<^verbatim>\<open>E_NO_MEMORY\<close>.
\<close>

definition new_LNode :: "bool \<Rightarrow> 'a Lariat \<Rightarrow> (addr, 'a Lariat) res" where
  "new_LNode mem s =
     (if mem then
        Ret (fresh s)
          (s\<lparr>heap := (heap s)(fresh s \<mapsto>
                \<lparr>next = None, prev = None, count = 0,
                 values = replicate (nat (asize s)) None\<rparr>),
             fresh := Suc (fresh s)\<rparr>)
      else Throw E_NO_MEMORY s)"

subsection \<open>Shifting inside a node\<close>

text \<open>
  \<^verbatim>\<open>shiftUp\<close>: for \<open>i\<close> from \<open>localIndex + 1\<close> while \<open>i < node->count\<close>, swap the
  slots \<open>localIndex\<close> and \<open>i\<close>.
\<close>

function shiftUp_loop :: "'a LNode \<Rightarrow> int \<Rightarrow> int \<Rightarrow> 'a LNode option" where
  "shiftUp_loop n localIndex i =
     (if i < count n then
        (let temp = rd (values n) localIndex in
         case wr (values n) localIndex (rd (values n) i) of
           None \<Rightarrow> None
         | Some vs1 \<Rightarrow>
             (case wr vs1 i temp of
                None \<Rightarrow> None
              | Some vs2 \<Rightarrow> shiftUp_loop (n\<lparr>values := vs2\<rparr>) localIndex (i + 1)))
      else Some n)"
  by pat_completeness auto
termination
  by (relation "measure (\<lambda>(n, localIndex, i). nat (count n - i))") auto

declare shiftUp_loop.simps [simp del]

definition shiftUp :: "addr option \<Rightarrow> int \<Rightarrow> 'a Lariat \<Rightarrow> (unit, 'a Lariat) res" where
  "shiftUp node localIndex s =
     (case node of
        None \<Rightarrow> UB
      | Some a \<Rightarrow>
          (case heap s a of
             None \<Rightarrow> UB
           | Some n \<Rightarrow>
               (case shiftUp_loop n localIndex (localIndex + 1) of
                  None \<Rightarrow> UB
                | Some n' \<Rightarrow> Ret () (s\<lparr>heap := (heap s)(a \<mapsto> n')\<rparr>))))"

text \<open>
  \<^verbatim>\<open>shiftDown\<close>: for \<open>i\<close> from \<open>localIndex\<close> while \<open>i < node->count\<close>, copy slot
  \<open>i + 1\<close> into slot \<open>i\<close>. The loop also records the slots it touches, in order.
\<close>

datatype access = Read int | Write int

function shiftDown_loop :: "'a LNode \<Rightarrow> int \<Rightarrow> ('a LNode \<times> access list) option" where
  "shiftDown_loop n i =
     (if i < count n then
        (case wr (values n) i (rd (values n) (i + 1)) of
           None \<Rightarrow> None
         | Some vs \<Rightarrow>
             (case shiftDown_loop (n\<lparr>values := vs\<rparr>) (i + 1) of
                None \<Rightarrow> None
              | Some (n', tr) \<Rightarrow> Some (n', Read (i + 1) # Write i # tr)))
      else Some (n, []))"
  by pat_completeness auto
termination
  by (relation "measure (\<lambda>(n, i). nat (count n - i))") auto

declare shiftDown_loop.simps [simp del]

definition shiftDown :: "addr option \<Rightarrow> int \<Rightarrow> 'a Lariat \<Rightarrow> (unit, 'a Lariat) res" where
  "shiftDown node localIndex s =
     (case node of
        None \<Rightarrow> UB
      | Some a \<Rightarrow>
          (case heap s a of
             None \<Rightarrow> UB
           | Some n \<Rightarrow>
               (case shiftDown_loop n localIndex of
                  None \<Rightarrow> UB
                | Some (n', tr) \<Rightarrow> Ret () (s\<lparr>heap := (heap s)(a \<mapsto> n')\<rparr>))))"

text \<open>The slots \<^verbatim>\<open>shiftDown(node, localIndex)\<close> reads and writes.\<close>

definition shiftDown_accesses :: "addr option \<Rightarrow> int \<Rightarrow> 'a Lariat \<Rightarrow> access list option" where
  "shiftDown_accesses node localIndex s =
     (case node of
        None \<Rightarrow> None
      | Some a \<Rightarrow>
          (case heap s a of
             None \<Rightarrow> None
           | Some n \<Rightarrow> map_option snd (shiftDown_loop n localIndex)))"

subsection \<open>Splitting and deleting nodes\<close>

text \<open>The copy loop of \<^verbatim>\<open>split\<close>: \<open>splitNode->values[j] = node->values[i]\<close>.\<close>

function split_loop :: "'a LNode \<Rightarrow> 'a LNode \<Rightarrow> int \<Rightarrow> int \<Rightarrow> 'a LNode option" where
  "split_loop n splitNode i j =
     (if i < count n then
        (case wr (values splitNode) j (rd (values n) i) of
           None \<Rightarrow> None
         | Some vs \<Rightarrow> split_loop n (splitNode\<lparr>values := vs\<rparr>) (i + 1) (j + 1))
      else Some splitNode)"
  by pat_completeness auto
termination
  by (relation "measure (\<lambda>(n, splitNode, i, j). nat (count n - i))") auto

declare split_loop.simps [simp del]

definition split :: "addr option \<Rightarrow> bool \<Rightarrow> 'a Lariat \<Rightarrow> (addr option, 'a Lariat) res" where
  "split node mem s =
     (case node of
        None \<Rightarrow> UB
      | Some a \<Rightarrow>
          (case heap s a of
             None \<Rightarrow> UB
           | Some n0 \<Rightarrow>
               (let isTail = (node = tail s);
                    half = count n0 sdiv 2;
                    numSplit = (if count n0 smod 2 = 0 then half - 1 else half)
                in case new_LNode mem s of
                     UB \<Rightarrow> UB
                   | Throw e s' \<Rightarrow> Throw e s'
                   | Ret b s1 \<Rightarrow>
                       (case (heap s1 a, heap s1 b) of
                          (Some n, Some sn) \<Rightarrow>
                            (case split_loop n sn (count n - numSplit) 0 of
                               None \<Rightarrow> UB
                             | Some sn1 \<Rightarrow>
                                 (let sn2 = sn1\<lparr>count := count sn1 + numSplit,
                                                next := next n, prev := Some a\<rparr>;
                                      n2 = n\<lparr>count := count n - numSplit, next := Some b\<rparr>;
                                      h2 = (heap s1)(a \<mapsto> n2, b \<mapsto> sn2);
                                      s2 = s1\<lparr>nodecount := nodecount s1 + 1,
                                              tail := (if isTail then Some b else tail s1)\<rparr>
                                  in case next sn2 of
                                       None \<Rightarrow> Ret (Some b) (s2\<lparr>heap := h2\<rparr>)
                                     | Some c \<Rightarrow>
                                         (case h2 c of
                                            None \<Rightarrow> UB
                                          | Some cn \<Rightarrow>
                                              Ret (Some b)
                                                (s2\<lparr>heap := h2(c \<mapsto> cn\<lparr>prev := Some b\<rparr>)\<rparr>))))
                        | _ \<Rightarrow> UB))))"

definition deleteNode :: "addr option \<Rightarrow> 'a Lariat \<Rightarrow> (unit, 'a Lariat) res" where
  "deleteNode node s =
     (if node = head s then
        (case head s of
           None \<Rightarrow> Ret () s
         | Some h \<Rightarrow>
             (case heap s h of
                None \<Rightarrow> UB
              | Some hn \<Rightarrow>
                  (case next hn of
                     None \<Rightarrow>
                       Ret () (s\<lparr>heap := (heap s)(h := None), head := None, tail := None,
                                 nodecount := nodecount s - 1\<rparr>)
                   | Some temp \<Rightarrow>
                       Ret () (s\<lparr>heap := (heap s)(h := None), head := Some temp,
                                 nodecount := nodecount s - 1\<rparr>))))
      else if node = tail s then
        (case tail s of
           None \<Rightarrow> UB
         | Some t \<Rightarrow>
             (case heap s t of
                None \<Rightarrow> UB
              | Some tn \<Rightarrow>
                  (case prev tn of
                     None \<Rightarrow> UB
                   | Some temp \<Rightarrow>
                       (case heap s temp of
                          None \<Rightarrow> UB
                        | Some pn \<Rightarrow>
                            Ret () (s\<lparr>heap := (heap s)(temp \<mapsto> pn\<lparr>next := None\<rparr>, t := None),
                                      tail := Some temp,
                                      nodecount := nodecount s - 1\<rparr>)))))
      else
        (case node of
           None \<Rightarrow> UB
         | Some a \<Rightarrow>
             (case heap s a of
                None \<Rightarrow> UB
              | Some n \<Rightarrow>
                  (case (prev n, next n) of
                     (Some p, Some c) \<Rightarrow>
                       (case heap s p of
                          None \<Rightarrow> UB
                        | Some pn \<Rightarrow>
                            (let h1 = (heap s)(p \<mapsto> pn\<lparr>next := Some c\<rparr>)
                             in case h1 c of
                                  None \<Rightarrow> UB
                                | Some cn \<Rightarrow>
                                    Ret () (s\<lparr>heap := h1(c \<mapsto> cn\<lparr>prev := Some p\<rparr>, a := None),
                                              nodecount := nodecount s - 1\<rparr>)))
                   | _ \<Rightarrow> UB))))"

subsection \<open>Sequencing\<close>

text \<open>Running a second step on the result of a first: an exception or a fault ends the call.\<close>

definition bind_res :: "('v, 's) res \<Rightarrow> ('v \<Rightarrow> 's \<Rightarrow> ('w, 's) res) \<Rightarrow> ('w, 's) res" where
  "bind_res m f = (case m of Ret v s \<Rightarrow> f v s | Throw e s \<Rightarrow> Throw e s | UB \<Rightarrow> UB)"

text \<open>The same for a step that contains a pointer-chasing loop (\<open>None\<close>: the loop runs forever).\<close>

definition bind_loop ::
  "('v, 's) res option \<Rightarrow> ('v \<Rightarrow> 's \<Rightarrow> ('w, 's) res option) \<Rightarrow> ('w, 's) res option" where
  "bind_loop m f =
     (case m of
        None \<Rightarrow> None
      | Some (Ret v s) \<Rightarrow> f v s
      | Some (Throw e s) \<Rightarrow> Some (Throw e s)
      | Some UB \<Rightarrow> Some UB)"

text \<open>\<open>p->\<close>: the address and the node behind a pointer, if it points to a live node.\<close>

definition deref :: "'a Lariat \<Rightarrow> addr option \<Rightarrow> (addr \<times> 'a LNode) option" where
  "deref s p =
     (case p of
        None \<Rightarrow> None
      | Some a \<Rightarrow> (case heap s a of None \<Rightarrow> None | Some n \<Rightarrow> Some (a, n)))"

subsection \<open>Private helpers\<close>

text \<open>
  Each helper reads \<^verbatim>\<open>value\<close> where its assignment stands in the source:
  \<^verbatim>\<open>push_first_value\<close> after the allocation, \<^verbatim>\<open>push_back_in_node\<close> after its
  split, \<^verbatim>\<open>insert_in_full_node\<close> after \<^verbatim>\<open>shiftUp\<close> has rotated the node.
\<close>

definition push_first_value :: "'a cref \<Rightarrow> bool \<Rightarrow> 'a Lariat \<Rightarrow> (unit, 'a Lariat) res" where
  "push_first_value value mem s =
     bind_res (new_LNode mem s) (\<lambda>b s1.
       case heap s1 b of
         None \<Rightarrow> UB
       | Some nn \<Rightarrow>
           (let nn1 = nn\<lparr>prev := None, next := None\<rparr>;
                s2 = s1\<lparr>heap := (heap s1)(b \<mapsto> nn1), head := Some b, tail := Some b\<rparr>
            in case read_cref s2 value of
                 None \<Rightarrow> UB
               | Some x \<Rightarrow>
                   (case wr (values nn1) (count nn1) x of
                      None \<Rightarrow> UB
                    | Some vs \<Rightarrow>
                        if lsize s2 < INT_MAX then
                          Ret () (s2\<lparr>heap := (heap s2)(b \<mapsto> nn1\<lparr>values := vs, count := count nn1 + 1\<rparr>),
                                    lsize := lsize s2 + 1,
                                    nodecount := nodecount s2 + 1\<rparr>)
                        else UB)))"

definition push_back_in_node ::
  "addr option \<Rightarrow> 'a cref \<Rightarrow> bool \<Rightarrow> 'a Lariat \<Rightarrow> (unit, 'a Lariat) res" where
  "push_back_in_node node value mem s =
     (case deref s node of
        None \<Rightarrow> UB
      | Some (a, n) \<Rightarrow>
          bind_res (if count n \<ge> asize s then split node mem s else Ret node s) (\<lambda>node1 s1.
            case deref s1 node1 of
              None \<Rightarrow> UB
            | Some (a1, n1) \<Rightarrow>
                (case read_cref s1 value of
                   None \<Rightarrow> UB
                 | Some x \<Rightarrow>
                     (case wr (values n1) (count n1) x of
                        None \<Rightarrow> UB
                      | Some vs \<Rightarrow>
                          if lsize s1 < INT_MAX then
                            Ret () (s1\<lparr>heap := (heap s1)(a1 \<mapsto> n1\<lparr>values := vs, count := count n1 + 1\<rparr>),
                                      lsize := lsize s1 + 1\<rparr>)
                          else UB))))"

definition insert_in_full_node ::
  "addr option \<Rightarrow> int \<Rightarrow> 'a cref \<Rightarrow> bool \<Rightarrow> 'a Lariat \<Rightarrow> (unit, 'a Lariat) res" where
  "insert_in_full_node node localIndex value mem s =
     bind_res (shiftUp node localIndex s) (\<lambda>_ s1.
       case deref s1 node of
         None \<Rightarrow> UB
       | Some (a, n) \<Rightarrow>
           (let overflow = rd (values n) localIndex
            in case read_cref s1 value of
                 None \<Rightarrow> UB
               | Some x \<Rightarrow>
                   (case wr (values n) localIndex x of
                      None \<Rightarrow> UB
                    | Some vs \<Rightarrow>
                        bind_res (split node mem (s1\<lparr>heap := (heap s1)(a \<mapsto> n\<lparr>values := vs\<rparr>)\<rparr>))
                          (\<lambda>splitNode s3. push_back_in_node splitNode (Object overflow) mem s3))))"

text \<open>
  \<^verbatim>\<open>find_element\<close>: the walk follows \<open>next\<close> pointers for as long as the counts
  passed do not exceed the index; nothing in the loop checks for the end of the chain.
\<close>

partial_function (option) find_element_loop ::
  "'a Lariat \<Rightarrow> int \<Rightarrow> int \<Rightarrow> addr option \<Rightarrow> (ElementInfo, 'a Lariat) res option" where
  "find_element_loop s index indexSum walker =
     (case deref s walker of
        None \<Rightarrow> Some UB
      | Some (a, n) \<Rightarrow>
          if indexSum + count n \<le> index
          then find_element_loop s index (indexSum + count n) (next n)
          else Some (Ret \<lparr>info_node = walker, info_localIndex = index - indexSum\<rparr> s))"

declare find_element_loop.simps [code]

definition find_element :: "int \<Rightarrow> 'a Lariat \<Rightarrow> (ElementInfo, 'a Lariat) res option" where
  "find_element index s = find_element_loop s index 0 (head s)"

subsection \<open>Insertion\<close>

definition push_back :: "'a cref \<Rightarrow> bool \<Rightarrow> 'a Lariat \<Rightarrow> (unit, 'a Lariat) res" where
  "push_back value mem s =
     (if head s = None \<and> tail s = None then push_first_value value mem s
      else
        (case deref s (tail s) of
           None \<Rightarrow> UB
         | Some (t, tn) \<Rightarrow>
             bind_res (if count tn = asize s
                       then bind_res (split (tail s) mem s) (\<lambda>_ s1. Ret () s1)
                       else Ret () s)
               (\<lambda>_ s1. push_back_in_node (tail s1) value mem s1)))"

definition push_front :: "'a cref \<Rightarrow> bool \<Rightarrow> 'a Lariat \<Rightarrow> (unit, 'a Lariat) res" where
  "push_front value mem s =
     (if head s = None then push_first_value value mem s
      else
        (case deref s (head s) of
           None \<Rightarrow> UB
         | Some (h, hn) \<Rightarrow>
             if count hn = asize s then
               bind_res (shiftUp (head s) 0 s) (\<lambda>_ s1.
                 case deref s1 (head s1) of
                   None \<Rightarrow> UB
                 | Some (h1, hn1) \<Rightarrow>
                     (let overflow = rd (values hn1) 0
                      in case read_cref s1 value of
                           None \<Rightarrow> UB
                         | Some x \<Rightarrow>
                             (case wr (values hn1) 0 x of
                                None \<Rightarrow> UB
                              | Some vs \<Rightarrow>
                                  bind_res
                                    (split (head s1) mem
                                       (s1\<lparr>heap := (heap s1)(h1 \<mapsto> hn1\<lparr>values := vs\<rparr>)\<rparr>))
                                    (\<lambda>splitNode s3.
                                       push_back_in_node splitNode (Object overflow) mem s3))))
             else
               (case read_cref s value of
                  None \<Rightarrow> UB
                | Some x \<Rightarrow>
                    (case wr (values hn) (count hn) x of
                       None \<Rightarrow> UB
                     | Some vs \<Rightarrow>
                         if lsize s < INT_MAX then
                           shiftUp (head s) 0
                             (s\<lparr>heap := (heap s)(h \<mapsto> hn\<lparr>values := vs, count := count hn + 1\<rparr>),
                                lsize := lsize s + 1\<rparr>)
                         else UB))))"

definition insert_at :: "int \<Rightarrow> 'a cref \<Rightarrow> bool \<Rightarrow> 'a Lariat \<Rightarrow> (unit, 'a Lariat) res option" where
  "insert_at index value mem s =
     (if index < 0 \<or> index > lsize s then Some (Throw E_BAD_INDEX s)
      else if index = lsize s then Some (push_back value mem s)
      else if index = 0 then Some (push_front value mem s)
      else
        bind_loop (find_element index s) (\<lambda>insertInfo s1.
          case deref s1 (info_node insertInfo) of
            None \<Rightarrow> Some UB
          | Some (a, n) \<Rightarrow>
              if count n < asize s1 then
                (case read_cref s1 value of
                   None \<Rightarrow> Some UB
                 | Some x \<Rightarrow>
                     (case wr (values n) (count n) x of
                        None \<Rightarrow> Some UB
                      | Some vs \<Rightarrow>
                          if lsize s1 < INT_MAX then
                            Some (shiftUp (info_node insertInfo) (info_localIndex insertInfo)
                              (s1\<lparr>heap := (heap s1)(a \<mapsto> n\<lparr>values := vs, count := count n + 1\<rparr>),
                                  lsize := lsize s1 + 1\<rparr>))
                          else Some UB))
              else
                Some (insert_in_full_node (info_node insertInfo) (info_localIndex insertInfo)
                        value mem s1)))"

subsection \<open>Removal\<close>

definition pop_back :: "'a Lariat \<Rightarrow> (unit, 'a Lariat) res" where
  "pop_back s =
     (case deref s (tail s) of
        None \<Rightarrow> UB
      | Some (t, tn) \<Rightarrow>
          (let s1 = s\<lparr>heap := (heap s)(t \<mapsto> tn\<lparr>count := count tn - 1\<rparr>),
                      lsize := lsize s - 1\<rparr>
           in if count tn - 1 = 0 then deleteNode (tail s1) s1 else Ret () s1))"

definition pop_front :: "'a Lariat \<Rightarrow> (unit, 'a Lariat) res" where
  "pop_front s =
     (if head s = None then Ret () s
      else
        bind_res (shiftDown (head s) 0 s) (\<lambda>_ s1.
          case deref s1 (head s1) of
            None \<Rightarrow> UB
          | Some (h, hn) \<Rightarrow>
              (let s2 = s1\<lparr>heap := (heap s1)(h \<mapsto> hn\<lparr>count := count hn - 1\<rparr>),
                           lsize := lsize s1 - 1\<rparr>
               in if count hn - 1 = 0 then deleteNode (head s2) s2 else Ret () s2)))"

definition erase :: "int \<Rightarrow> 'a Lariat \<Rightarrow> (unit, 'a Lariat) res option" where
  "erase index s =
     (if index = 0 then Some (pop_front s)
      else if index = lsize s then Some (pop_back s)
      else
        bind_loop (find_element index s) (\<lambda>elementInfo s1.
          Some (bind_res (shiftDown (info_node elementInfo) (info_localIndex elementInfo) s1)
            (\<lambda>_ s2.
              case deref s2 (info_node elementInfo) of
                None \<Rightarrow> UB
              | Some (a, n) \<Rightarrow>
                  (let s3 = s2\<lparr>heap := (heap s2)(a \<mapsto> n\<lparr>count := count n - 1\<rparr>),
                               lsize := lsize s2 - 1\<rparr>
                   in if count n - 1 = 0 then deleteNode (info_node elementInfo) s3
                      else Ret () s3)))))"

subsection \<open>Size, clear, compact\<close>

definition size_lariat :: "'a Lariat \<Rightarrow> int" where
  "size_lariat s = lsize s"

partial_function (option) clear_loop ::
  "addr option \<Rightarrow> 'a Lariat \<Rightarrow> (unit, 'a Lariat) res option" where
  "clear_loop walker s =
     (case deref s walker of
        None \<Rightarrow> (if walker = None then Some (Ret () s) else Some UB)
      | Some (a, n) \<Rightarrow> clear_loop (next n) (s\<lparr>heap := (heap s)(a := None)\<rparr>))"

declare clear_loop.simps [code]

definition clear :: "'a Lariat \<Rightarrow> (unit, 'a Lariat) res option" where
  "clear s =
     bind_loop (clear_loop (head s) s) (\<lambda>_ s1.
       Some (Ret () (s1\<lparr>lsize := 0, nodecount := 0, head := None, tail := None\<rparr>)))"

text \<open>The first loop of \<^verbatim>\<open>compact\<close>: both feet step over the leading full nodes.\<close>

partial_function (option) compact_skip ::
  "'a Lariat \<Rightarrow> addr option \<Rightarrow> addr option
     \<Rightarrow> (addr option \<times> addr option, 'a Lariat) res option" where
  "compact_skip s leftFoot rightFoot =
     (case deref s leftFoot of
        None \<Rightarrow> Some UB
      | Some (l, ln) \<Rightarrow>
          if count ln = asize s \<and> rightFoot \<noteq> None then
            (case deref s rightFoot of
               None \<Rightarrow> Some UB
             | Some (r, rn) \<Rightarrow> compact_skip s (next ln) (next rn))
          else Some (Ret (leftFoot, rightFoot) s))"

declare compact_skip.simps [code]

text \<open>
  The \<^verbatim>\<open>for\<close> loop of the second loop: the values of the right foot go to the left
  foot one by one, and the left foot steps on when it is full. Both feet are pointers into the
  same store, and they may be the same node.
\<close>

function compact_move ::
  "'a Lariat \<Rightarrow> addr option \<Rightarrow> addr option \<Rightarrow> int \<Rightarrow> int \<Rightarrow> (addr option, 'a Lariat) res" where
  "compact_move s leftFoot rightFoot rightFootCount i =
     (if i < rightFootCount then
        (case (deref s leftFoot, deref s rightFoot) of
           (Some (l, ln), Some (r, rn)) \<Rightarrow>
             (case wr (values ln) (count ln) (rd (values rn) i) of
                None \<Rightarrow> UB
              | Some vs \<Rightarrow>
                  (let ln1 = ln\<lparr>values := vs, count := count ln + 1\<rparr>;
                       s1 = s\<lparr>heap := (heap s)(l \<mapsto> ln1)\<rparr>
                   in compact_move s1 (if count ln1 = asize s1 then next ln1 else leftFoot)
                        rightFoot rightFootCount (i + 1)))
         | _ \<Rightarrow> UB)
      else Ret leftFoot s)"
  by pat_completeness auto
termination
  by (relation "measure (\<lambda>(s, leftFoot, rightFoot, rightFootCount, i). nat (rightFootCount - i))")
    auto

declare compact_move.simps [simp del]

partial_function (option) compact_loop ::
  "'a Lariat \<Rightarrow> addr option \<Rightarrow> addr option \<Rightarrow> (unit, 'a Lariat) res option" where
  "compact_loop s leftFoot rightFoot =
     (case rightFoot of
        None \<Rightarrow> Some (Ret () s)
      | Some r \<Rightarrow>
          (case heap s r of
             None \<Rightarrow> Some UB
           | Some rn \<Rightarrow>
               (let rightFootCount = count rn;
                    s1 = s\<lparr>heap := (heap s)(r \<mapsto> rn\<lparr>count := 0\<rparr>)\<rparr>
                in case deref s1 leftFoot of
                     None \<Rightarrow> Some UB
                   | Some (l, ln) \<Rightarrow>
                       (case compact_move s1 (if count ln = asize s1 then next ln else leftFoot)
                               rightFoot rightFootCount 0 of
                          UB \<Rightarrow> Some UB
                        | Throw e s' \<Rightarrow> Some (Throw e s')
                        | Ret leftFoot2 s2 \<Rightarrow>
                            (case heap s2 r of
                               None \<Rightarrow> Some UB
                             | Some rn2 \<Rightarrow> compact_loop s2 leftFoot2 (next rn2))))))"

declare compact_loop.simps [code]

text \<open>The last loop: empty nodes are deleted from the tail.\<close>

partial_function (option) compact_trim :: "'a Lariat \<Rightarrow> (unit, 'a Lariat) res option" where
  "compact_trim s =
     (case deref s (tail s) of
        None \<Rightarrow> Some UB
      | Some (t, tn) \<Rightarrow>
          if count tn = 0 then
            (case deleteNode (tail s) s of
               UB \<Rightarrow> Some UB
             | Throw e s' \<Rightarrow> Some (Throw e s')
             | Ret u s1 \<Rightarrow> compact_trim s1)
          else Some (Ret () s))"

declare compact_trim.simps [code]

definition compact :: "'a Lariat \<Rightarrow> (unit, 'a Lariat) res option" where
  "compact s =
     (case deref s (head s) of
        None \<Rightarrow> (if head s = None then Some (Ret () s) else Some UB)
      | Some (h, hn) \<Rightarrow>
          bind_loop (compact_skip s (head s) (next hn)) (\<lambda>(leftFoot, rightFoot) s1.
            bind_loop (compact_loop s1 leftFoot rightFoot) (\<lambda>_ s2. compact_trim s2)))"

subsection \<open>Walking the chain\<close>

text \<open>
  What a traversal from a pointer along \<open>next\<close> sees, as \<^verbatim>\<open>operator<<\<close> and
  \<^verbatim>\<open>find\<close> do it: the nodes in order, and of each node the slots below its count.
\<close>

partial_function (option) nodes_from ::
  "(addr \<Rightarrow> 'a LNode option) \<Rightarrow> addr option \<Rightarrow> 'a LNode list option" where
  "nodes_from h p =
     (case p of
        None \<Rightarrow> Some []
      | Some a \<Rightarrow>
          (case h a of
             None \<Rightarrow> None
           | Some n \<Rightarrow> Option.bind (nodes_from h (next n)) (\<lambda>r. Some (n # r))))"

declare nodes_from.simps [code]

definition live :: "'a LNode \<Rightarrow> 'a option list" where
  "live n = map (\<lambda>i. rd (values n) (int i)) [0 ..< nat (count n)]"

definition nodes :: "'a Lariat \<Rightarrow> 'a LNode list option" where
  "nodes s = nodes_from (heap s) (head s)"

definition elements :: "'a Lariat \<Rightarrow> 'a option list option" where
  "elements s = map_option (\<lambda>ns. concat (map live ns)) (nodes s)"

subsection \<open>Sequences of calls\<close>

datatype 'a op =
  Insert int "'a cref" | Push_back "'a cref" | Push_front "'a cref" | Erase int | Pop_back
  | Pop_front | Compact | Clear

fun apply_op :: "bool \<Rightarrow> 'a op \<Rightarrow> 'a Lariat \<Rightarrow> (unit, 'a Lariat) res option" where
  "apply_op mem (Insert index value) s = insert_at index value mem s"
| "apply_op mem (Push_back value) s = Some (push_back value mem s)"
| "apply_op mem (Push_front value) s = Some (push_front value mem s)"
| "apply_op mem (Erase index) s = erase index s"
| "apply_op mem Pop_back s = Some (pop_back s)"
| "apply_op mem Pop_front s = Some (pop_front s)"
| "apply_op mem Compact s = compact s"
| "apply_op mem Clear s = clear s"

text \<open>
  A caller that goes on after a caught \<^verbatim>\<open>LariatException\<close> continues with the state
  the exception left; a fault or a loop that never returns ends the run.
\<close>

fun run :: "(bool \<times> 'a op) list \<Rightarrow> 'a Lariat \<Rightarrow> 'a Lariat option" where
  "run [] s = Some s"
| "run ((mem, c) # cs) s =
     (case apply_op mem c s of
        Some (Ret u s') \<Rightarrow> run cs s'
      | Some (Throw e s') \<Rightarrow> run cs s'
      | _ \<Rightarrow> None)"

section \<open>Well-formed containers\<close>

text \<open>
  The chain of a container is described by the list of the addresses of its nodes, from the
  head to the tail: \<open>path h p as q\<close> says that following \<open>next\<close> from \<open>p\<close>
  visits exactly the nodes \<open>as\<close> and ends in \<open>q\<close>; \<open>prevs h a bs\<close> says that the
  nodes \<open>bs\<close> that follow \<open>a\<close> point back correctly. The \<open>prev\<close> of the head node is
  not constrained: \<^verbatim>\<open>deleteNode\<close> does not reset it when it moves the head.
\<close>

fun path :: "(addr \<Rightarrow> 'a LNode option) \<Rightarrow> addr option \<Rightarrow> addr list \<Rightarrow> addr option \<Rightarrow> bool" where
  "path h p [] q = (p = q)"
| "path h p (a # as) q =
     (p = Some a \<and> (case h a of None \<Rightarrow> False | Some n \<Rightarrow> path h (next n) as q))"

fun prevs :: "(addr \<Rightarrow> 'a LNode option) \<Rightarrow> addr \<Rightarrow> addr list \<Rightarrow> bool" where
  "prevs h a [] = True"
| "prevs h a (b # bs) =
     ((case h b of None \<Rightarrow> False | Some n \<Rightarrow> prev n = Some a) \<and> prevs h b bs)"

text \<open>The pointer to the first node of a list of nodes.\<close>

fun ptr_of :: "addr list \<Rightarrow> addr option" where
  "ptr_of [] = None"
| "ptr_of (a # as) = Some a"

definition backlinks :: "(addr \<Rightarrow> 'a LNode option) \<Rightarrow> addr list \<Rightarrow> bool" where
  "backlinks h ps = (case ps of [] \<Rightarrow> True | a # as \<Rightarrow> prevs h a as)"

text \<open>A node of the chain: its array has \<open>Size\<close> slots and its count is within them.\<close>

definition fits :: "int \<Rightarrow> 'a LNode \<Rightarrow> bool" where
  "fits C n = (0 \<le> count n \<and> count n \<le> C \<and> int (length (values n)) = C)"

definition node_ok :: "'a Lariat \<Rightarrow> addr \<Rightarrow> bool" where
  "node_ok s a = (heap s a \<noteq> None \<and> fits (asize s) (the (heap s a)))"

text \<open>
  The shape of the chain: links, tail pointer and node count fit the list \<open>ps\<close>, the
  capacity is at least 1 (an array type of C++ has at least one element), and the allocator
  has not handed out any address from \<open>fresh\<close> on.
\<close>

definition shape :: "'a Lariat \<Rightarrow> addr list \<Rightarrow> bool" where
  "shape s ps \<longleftrightarrow>
     path (heap s) (head s) ps None \<and> distinct ps \<and>
     backlinks (heap s) ps \<and>
     tail s = (if ps = [] then None else Some (last ps)) \<and>
     nodecount s = int (length ps) \<and>
     1 \<le> asize s \<and>
     (\<forall>a\<in>set ps. node_ok s a) \<and>
     (\<forall>a. fresh s \<le> a \<longrightarrow> heap s a = None)"

text \<open>The count and the array of the node at an address.\<close>

definition cont :: "'a Lariat \<Rightarrow> addr \<Rightarrow> (int \<times> 'a option list) option" where
  "cont s a = map_option (\<lambda>n. (count n, values n)) (heap s a)"

definition cnt :: "'a Lariat \<Rightarrow> addr \<Rightarrow> int" where
  "cnt s a = (case heap s a of None \<Rightarrow> 0 | Some n \<Rightarrow> count n)"

text \<open>The live elements of the node at an address.\<close>

definition seg :: "'a Lariat \<Rightarrow> addr \<Rightarrow> 'a option list" where
  "seg s a = (case heap s a of None \<Rightarrow> [] | Some n \<Rightarrow> live n)"

text \<open>
  A well-formed container: the shape is right, \<^verbatim>\<open>size_\<close> is the sum of the counts and
  no node of the chain is empty.
\<close>

definition wf :: "'a Lariat \<Rightarrow> addr list \<Rightarrow> bool" where
  "wf s ps \<longleftrightarrow>
     shape s ps \<and> lsize s = sum_list (map (cnt s) ps) \<and> (\<forall>a\<in>set ps. 1 \<le> cnt s a)"

subsection \<open>Concrete containers\<close>

text \<open>Capacity 4 after \<^verbatim>\<open>push_back\<close> of 1, 2, 3, 4: one full node.\<close>

definition full4 :: "int Lariat" where
  "full4 = \<lparr>heap = (\<lambda>a. None)(0 \<mapsto> \<lparr>next = None, prev = None, count = 4,
                 values = [Some 1, Some 2, Some 3, Some 4]\<rparr>),
            fresh = 1, head = Some 0, tail = Some 0, lsize = 4, nodecount = 1, asize = 4\<rparr>"

text \<open>
  The same container after \<^verbatim>\<open>insert(1, 9)\<close> has rotated the node, overwritten slot 1
  and then failed to allocate: the element 4 is gone.
\<close>

definition full4_overwritten :: "int Lariat" where
  "full4_overwritten = \<lparr>heap = (\<lambda>a. None)(0 \<mapsto> \<lparr>next = None, prev = None, count = 4,
                 values = [Some 1, Some 9, Some 2, Some 3]\<rparr>),
            fresh = 1, head = Some 0, tail = Some 0, lsize = 4, nodecount = 1, asize = 4\<rparr>"

text \<open>
  The container \<open>full4\<close> after \<^verbatim>\<open>l.insert(1, l[2])\<close>: the argument refers to slot 2
  of the node, which holds 3 when the call is made.
\<close>

definition full4_insert_aliased :: "int Lariat" where
  "full4_insert_aliased =
     \<lparr>heap = (\<lambda>a. None)(0 \<mapsto> \<lparr>next = Some 1, prev = None, count = 3,
                 values = [Some 1, Some 2, Some 2, Some 3]\<rparr>,
               1 \<mapsto> \<lparr>next = None, prev = Some 0, count = 2,
                 values = [Some 3, Some 4, None, None]\<rparr>),
      fresh = 2, head = Some 0, tail = Some 1, lsize = 5, nodecount = 2, asize = 4\<rparr>"

text \<open>
  Capacity 4 with the elements 1, 2, 3 in one node that has room, and that container after
  \<^verbatim>\<open>l.insert(1, l[2])\<close>.
\<close>

definition three4 :: "int Lariat" where
  "three4 = \<lparr>heap = (\<lambda>a. None)(0 \<mapsto> \<lparr>next = None, prev = None, count = 3,
                 values = [Some 1, Some 2, Some 3, None]\<rparr>),
            fresh = 1, head = Some 0, tail = Some 0, lsize = 3, nodecount = 1, asize = 4\<rparr>"

definition three4_insert_aliased :: "int Lariat" where
  "three4_insert_aliased = \<lparr>heap = (\<lambda>a. None)(0 \<mapsto> \<lparr>next = None, prev = None, count = 4,
                 values = [Some 1, Some 3, Some 2, Some 3]\<rparr>),
            fresh = 1, head = Some 0, tail = Some 0, lsize = 4, nodecount = 1, asize = 4\<rparr>"

text \<open>Capacity 4 after \<^verbatim>\<open>push_back\<close> of 1 to 7: the fifth call has split the full node.\<close>

definition seven4 :: "int Lariat" where
  "seven4 =
     \<lparr>heap = (\<lambda>a. None)(0 \<mapsto> \<lparr>next = Some 1, prev = None, count = 3,
                 values = [Some 1, Some 2, Some 3, Some 4]\<rparr>,
               1 \<mapsto> \<lparr>next = None, prev = Some 0, count = 4,
                 values = [Some 4, Some 5, Some 6, Some 7]\<rparr>),
      fresh = 2, head = Some 0, tail = Some 1, lsize = 7, nodecount = 2, asize = 4\<rparr>"

section \<open>Lemmas\<close>

subsection \<open>Arrays and the loops inside a node\<close>

lemma sdiv_nonneg: "0 \<le> (k::int) \<Longrightarrow> k sdiv 2 = k div 2"
  by (simp add: signed_divide_int_def sgn_if)

lemma smod_nonneg: "0 \<le> (k::int) \<Longrightarrow> k smod 2 = k mod 2"
  by (simp add: signed_modulo_int_def sgn_if)

lemma rd_append_len: "rd (A @ x # B) (int (length A)) = x"
  by (simp add: rd_def in_array_def)

lemma wr_append_len: "wr (A @ x # B) (int (length A)) y = Some (A @ y # B)"
  by (simp add: wr_def in_array_def)

lemma rd_append_len1: "rd (A @ x # E) (int (length A) + 1) = rd E 0"
  by (cases E) (simp_all add: rd_def in_array_def nth_append nat_add_distrib)

lemma shiftUp_loop_stop: "\<not> i < count n \<Longrightarrow> shiftUp_loop n localIndex i = Some n"
  by (simp add: shiftUp_loop.simps)

lemma shiftUp_loop_step:
  "i < count n \<Longrightarrow> wr (values n) localIndex (rd (values n) i) = Some vs1 \<Longrightarrow>
   wr vs1 i (rd (values n) localIndex) = Some vs2 \<Longrightarrow>
   shiftUp_loop n localIndex i = shiftUp_loop (n\<lparr>values := vs2\<rparr>) localIndex (i + 1)"
  by (subst shiftUp_loop.simps) simp

lemma shiftUp_loop_rot:
  "values n = A @ x # B @ C @ E \<Longrightarrow> localIndex = int (length A) \<Longrightarrow>
   i = int (length A) + 1 + int (length B) \<Longrightarrow> count n = i + int (length C) \<Longrightarrow>
   shiftUp_loop n localIndex i = Some (n\<lparr>values := A @ last (x # C) # B @ butlast (x # C) @ E\<rparr>)"
proof (induction C arbitrary: n x B i)
  case Nil
  then show ?case by (simp add: shiftUp_loop_stop)
next
  case (Cons y C)
  have i: "i = int (length (A @ x # B))" using Cons.prems by simp
  have r: "rd (values n) i = y"
    using Cons.prems rd_append_len[of "A @ x # B" y "C @ E"] by (simp add: ac_simps)
  have rl: "rd (values n) localIndex = x"
    using Cons.prems rd_append_len[of A x "B @ y # C @ E"] by simp
  have w1: "wr (values n) localIndex (rd (values n) i) = Some (A @ y # B @ y # C @ E)"
    using Cons.prems wr_append_len[of A x "B @ y # C @ E" y] r by simp
  have w2: "wr (A @ y # B @ y # C @ E) i (rd (values n) localIndex) = Some (A @ y # B @ x # C @ E)"
    using wr_append_len[of "A @ y # B" y "C @ E" x] i rl by simp
  have lt: "i < count n" using Cons.prems by simp
  have "shiftUp_loop n localIndex i =
      shiftUp_loop (n\<lparr>values := A @ y # B @ x # C @ E\<rparr>) localIndex (i + 1)"
    by (rule shiftUp_loop_step[OF lt w1 w2])
  also have "\<dots> = Some (n\<lparr>values := A @ last (y # C) # (B @ [x]) @ butlast (y # C) @ E\<rparr>)"
    using Cons.IH[of "n\<lparr>values := A @ y # B @ x # C @ E\<rparr>" y "B @ [x]" "i + 1"] Cons.prems
    by simp
  finally show ?case by simp
qed

lemma shiftDown_loop_stop: "\<not> i < count n \<Longrightarrow> shiftDown_loop n i = Some (n, [])"
  by (simp add: shiftDown_loop.simps)

lemma shiftDown_loop_step:
  "i < count n \<Longrightarrow> wr (values n) i (rd (values n) (i + 1)) = Some vs \<Longrightarrow>
   shiftDown_loop (n\<lparr>values := vs\<rparr>) (i + 1) = Some (n', tr) \<Longrightarrow>
   shiftDown_loop n i = Some (n', Read (i + 1) # Write i # tr)"
  by (subst shiftDown_loop.simps) simp

lemma shiftDown_loop_shift:
  "values n = A @ x # C @ E \<Longrightarrow> i = int (length A) \<Longrightarrow> count n = i + 1 + int (length C) \<Longrightarrow>
   shiftDown_loop n i =
     Some (n\<lparr>values := A @ C @ rd E 0 # E\<rparr>,
           concat (map (\<lambda>k. [Read (k + 1), Write k]) [i .. count n - 1]))"
proof (induction C arbitrary: n x A i)
  case Nil
  have w: "wr (values n) i (rd (values n) (i + 1)) = Some (A @ rd E 0 # E)"
    using Nil wr_append_len[of A x E] rd_append_len1[of A x E] by simp
  have lt: "i < count n" using Nil by simp
  have st: "shiftDown_loop (n\<lparr>values := A @ rd E 0 # E\<rparr>) (i + 1) =
      Some (n\<lparr>values := A @ rd E 0 # E\<rparr>, [])"
    using Nil by (simp add: shiftDown_loop_stop)
  have u: "[i .. count n - 1] = [i]" using Nil by (simp add: upto.simps)
  show ?case unfolding u using shiftDown_loop_step[OF lt w st] by simp
next
  case (Cons y C)
  have r: "rd (values n) (i + 1) = y"
    using Cons.prems rd_append_len[of "A @ [x]" y "C @ E"] by (simp add: ac_simps)
  have w: "wr (values n) i (rd (values n) (i + 1)) = Some (A @ y # y # C @ E)"
    using Cons.prems wr_append_len[of A x "y # C @ E" y] r by simp
  have IH: "shiftDown_loop (n\<lparr>values := A @ y # y # C @ E\<rparr>) (i + 1) =
     Some (n\<lparr>values := A @ y # C @ rd E 0 # E\<rparr>,
           concat (map (\<lambda>k. [Read (k + 1), Write k]) [i + 1 .. count n - 1]))"
    using Cons.IH[of "n\<lparr>values := (A @ [y]) @ y # C @ E\<rparr>" "A @ [y]" y "i + 1"] Cons.prems
    by simp
  have lt: "i < count n" using Cons.prems by simp
  have u: "[i .. count n - 1] = i # [i + 1 .. count n - 1]"
    using Cons.prems by (simp add: upto_rec1)
  show ?case unfolding u using shiftDown_loop_step[OF lt w IH] by simp
qed

lemma split_loop_stop: "\<not> i < count n \<Longrightarrow> split_loop n sn i j = Some sn"
  by (simp add: split_loop.simps)

lemma split_loop_step:
  "i < count n \<Longrightarrow> wr (values sn) j (rd (values n) i) = Some vs \<Longrightarrow>
   split_loop n sn i j = split_loop n (sn\<lparr>values := vs\<rparr>) (i + 1) (j + 1)"
  by (subst split_loop.simps) simp

lemma split_loop_copy:
  "values sn = P @ Q \<Longrightarrow> j = int (length P) \<Longrightarrow> values n = A @ M @ E \<Longrightarrow>
   i = int (length A) \<Longrightarrow> count n = i + int (length M) \<Longrightarrow> length M \<le> length Q \<Longrightarrow>
   split_loop n sn i j = Some (sn\<lparr>values := P @ M @ drop (length M) Q\<rparr>)"
proof (induction M arbitrary: sn P Q A i j)
  case Nil
  then show ?case by (simp add: split_loop_stop)
next
  case (Cons y M)
  obtain q Q' where Q: "Q = q # Q'" using Cons.prems by (cases Q) auto
  have r: "rd (values n) i = y"
    using Cons.prems rd_append_len[of A y "M @ E"] by simp
  have w: "wr (values sn) j (rd (values n) i) = Some (P @ y # Q')"
    using Cons.prems Q wr_append_len[of P q Q' y] r by simp
  have lt: "i < count n" using Cons.prems by simp
  have "split_loop n sn i j = split_loop n (sn\<lparr>values := P @ y # Q'\<rparr>) (i + 1) (j + 1)"
    by (rule split_loop_step[OF lt w])
  also have "\<dots> = Some (sn\<lparr>values := (P @ [y]) @ M @ drop (length M) Q'\<rparr>)"
    using Cons.IH[of "sn\<lparr>values := P @ y # Q'\<rparr>" "P @ [y]" Q' "j + 1" "A @ [y]" "i + 1"]
      Cons.prems Q by simp
  finally show ?case using Q by simp
qed

subsection \<open>Chains\<close>

lemma path_cong:
  "(\<And>x. x \<in> set as \<Longrightarrow> map_option next (h' x) = map_option next (h x)) \<Longrightarrow>
   path h' p as q = path h p as q"
proof (induction as arbitrary: p)
  case Nil
  then show ?case by simp
next
  case (Cons a as)
  have "map_option next (h' a) = map_option next (h a)" using Cons.prems by simp
  moreover have "\<And>r. path h' r as q = path h r as q" using Cons by simp
  ultimately show ?case by (cases "h a"; cases "h' a") auto
qed

lemma prevs_cong:
  "(\<And>x. x \<in> set bs \<Longrightarrow> map_option prev (h' x) = map_option prev (h x)) \<Longrightarrow>
   prevs h' a bs = prevs h a bs"
proof (induction bs arbitrary: a)
  case Nil
  then show ?case by simp
next
  case (Cons b bs)
  have "map_option prev (h' b) = map_option prev (h b)" using Cons.prems by simp
  moreover have "\<And>r. prevs h' r bs = prevs h r bs" using Cons by simp
  ultimately show ?case by (cases "h b"; cases "h' b") auto
qed

lemma path_append:
  "path h p (xs @ ys) q = (\<exists>r. path h p xs r \<and> path h r ys q)"
  by (induction xs arbitrary: p) (auto split: option.splits)

lemma path_append_Cons:
  "path h p (xs @ a # ys) q = (path h p xs (Some a) \<and> path h (Some a) (a # ys) q)"
  by (induction xs arbitrary: p) (auto split: option.splits)

lemma prevs_append_Cons:
  "prevs h a (xs @ b # ys) = (prevs h a xs \<and> prevs h (last (a # xs)) [b] \<and> prevs h b ys)"
  by (induction xs arbitrary: a) (auto split: option.splits)

lemma path_in_dom: "path h p as q \<Longrightarrow> a \<in> set as \<Longrightarrow> h a \<noteq> None"
  by (induction as arbitrary: p) (auto split: option.splits)

lemma nodes_from_path:
  "path h p as None \<Longrightarrow> nodes_from h p = Some (map (\<lambda>a. the (h a)) as)"
proof (induction as arbitrary: p)
  case Nil
  then show ?case by (simp add: nodes_from.simps)
next
  case (Cons a as)
  then obtain n where n: "p = Some a" "h a = Some n" "path h (next n) as None"
    by (auto split: option.splits)
  from Cons.IH[OF n(3)] show ?case
    by (subst nodes_from.simps) (simp add: n)
qed

subsection \<open>Splitting\<close>

lemma numSplit_eq:
  "1 \<le> (c::int) \<Longrightarrow> (if c smod 2 = 0 then c sdiv 2 - 1 else c sdiv 2) = (c - 1) div 2"
  by (simp add: sdiv_nonneg smod_nonneg) presburger

lemma shapeD_path: "shape s ps \<Longrightarrow> path (heap s) (head s) ps None"
  by (simp add: shape_def)

lemma shapeD_node: "shape s ps \<Longrightarrow> a \<in> set ps \<Longrightarrow> node_ok s a"
  by (simp add: shape_def)

lemma shapeD_fresh: "shape s ps \<Longrightarrow> fresh s \<le> a \<Longrightarrow> heap s a = None"
  by (simp add: shape_def)

lemma shape_fresh_notin: "shape s ps \<Longrightarrow> fresh s \<notin> set ps"
  using shapeD_fresh[of s ps "fresh s"] shapeD_node[of s ps "fresh s"]
  by (auto simp: node_ok_def)

lemma split_loop_new:
  assumes "0 \<le> k" "k \<le> count n" "count n \<le> int (length (values n))" "k \<le> int m"
  shows "split_loop n \<lparr>next = None, prev = None, count = 0, values = replicate m None\<rparr>
           (count n - k) 0 =
         Some \<lparr>next = None, prev = None, count = 0,
               values = take (nat k) (drop (nat (count n - k)) (values n)) @
                        replicate (m - nat k) None\<rparr>"
proof -
  let ?A = "take (nat (count n - k)) (values n)"
  let ?M = "take (nat k) (drop (nat (count n - k)) (values n))"
  let ?E = "drop (nat (count n)) (values n)"
  have v: "values n = ?A @ ?M @ ?E"
  proof -
    have "nat (count n - k) + nat k = nat (count n)" using assms by simp
    then have "?M @ ?E = drop (nat (count n - k)) (values n)"
      by (metis add.commute append_take_drop_id drop_drop)
    then show ?thesis by simp
  qed
  have lA: "length ?A = nat (count n - k)" using assms by simp
  have lM: "length ?M = nat k" using assms by simp
  show ?thesis
    using split_loop_copy[of "\<lparr>next = None, prev = None, count = 0, values = replicate m None\<rparr>"
        "[]" "replicate m None" 0 n ?A ?M ?E "count n - k"] v lA lM assms
    by simp
qed

lemma path_Cons_D:
  "path h (Some a) (a # ys) None \<Longrightarrow> h a = Some n \<Longrightarrow>
   (ys = [] \<and> next n = None) \<or> (\<exists>c ys' cn. ys = c # ys' \<and> next n = Some c \<and> h c = Some cn)"
  by (cases ys) (auto split: option.splits)

lemma split_Ret:
  assumes n: "heap s a = Some n" and c1: "1 \<le> count n"
    and le: "count n \<le> int (length (values n))" "count n \<le> asize s"
    and fr: "heap s (fresh s) = None"
    and nx: "next n = None \<or> (\<exists>c cn. next n = Some c \<and> c \<noteq> a \<and> heap s c = Some cn)"
  shows "split (Some a) True s =
     Ret (Some (fresh s))
       (s\<lparr>heap :=
            (let k = (count n - 1) div 2;
                 h2 = (heap s)(fresh s \<mapsto>
                        \<lparr>next = next n, prev = Some a, count = k,
                         values = take (nat k) (drop (nat (count n - k)) (values n)) @
                                  replicate (nat (asize s) - nat k) None\<rparr>,
                      a \<mapsto> n\<lparr>count := count n - k, next := Some (fresh s)\<rparr>)
             in case next n of None \<Rightarrow> h2
                | Some c \<Rightarrow> h2(c \<mapsto> (the (heap s c))\<lparr>prev := Some (fresh s)\<rparr>)),
          fresh := Suc (fresh s),
          nodecount := nodecount s + 1,
          tail := (if tail s = Some a then Some (fresh s) else tail s)\<rparr>)"
proof -
  let ?k = "(count n - 1) div 2"
  have ab: "a \<noteq> fresh s" using n fr by auto
  have k: "0 \<le> ?k" "?k \<le> count n" "?k \<le> int (nat (asize s))" using c1 le by auto
  have sl: "split_loop n \<lparr>next = None, prev = None, count = 0, values = replicate (nat (asize s)) None\<rparr>
           (count n - ?k) 0 =
         Some \<lparr>next = None, prev = None, count = 0,
               values = take (nat ?k) (drop (nat (count n - ?k)) (values n)) @
                        replicate (nat (asize s) - nat ?k) None\<rparr>"
    by (rule split_loop_new[OF k(1) k(2) le(1) k(3)])
  from nx show ?thesis
  proof
    assume "next n = None"
    then show ?thesis
      using n c1 ab sl
      by (simp add: split_def new_LNode_def numSplit_eq Let_def fun_upd_twist)
  next
    assume "\<exists>c cn. next n = Some c \<and> c \<noteq> a \<and> heap s c = Some cn"
    then obtain c cn where c: "next n = Some c" "c \<noteq> a" "heap s c = Some cn" by blast
    have cb: "c \<noteq> fresh s" using c fr by auto
    show ?thesis
      using n c1 ab sl c cb
      by (simp add: split_def new_LNode_def numSplit_eq Let_def fun_upd_twist)
  qed
qed

lemma backlinks_cong:
  "(\<And>x. x \<in> set (tl ps) \<Longrightarrow> map_option prev (h' x) = map_option prev (h x)) \<Longrightarrow>
   backlinks h' ps = backlinks h ps"
  by (cases ps) (auto simp: backlinks_def intro!: prevs_cong)

lemma backlinks_append_Cons:
  "backlinks h (xs @ a # ys) = (backlinks h (xs @ [a]) \<and> prevs h a ys)"
  by (cases xs) (auto simp: backlinks_def prevs_append_Cons)

lemma backlinks_snoc2:
  "backlinks h (xs @ [a, b]) =
     (backlinks h (xs @ [a]) \<and> (case h b of None \<Rightarrow> False | Some n \<Rightarrow> prev n = Some a))"
  using backlinks_append_Cons[of h xs a "[b]"] by simp

lemma shape_split_node:
  assumes sh: "shape s (xs @ a # ys)"
  obtains n where "heap s a = Some n" "0 \<le> count n" "count n \<le> asize s"
    "int (length (values n)) = asize s" "path (heap s) (next n) ys None"
    "path (heap s) (head s) xs (Some a)"
proof -
  have "node_ok s a" using sh by (simp add: shape_def)
  then obtain n where n: "heap s a = Some n" "0 \<le> count n" "count n \<le> asize s"
    "int (length (values n)) = asize s"
    by (auto simp: node_ok_def fits_def)
  have "path (heap s) (head s) (xs @ a # ys) None" using sh by (simp add: shape_def)
  then have "path (heap s) (head s) xs (Some a)" "path (heap s) (next n) ys None"
    using n by (auto simp: path_append_Cons)
  then show ?thesis using n that by blast
qed

lemma split_shape:
  assumes sh: "shape s (xs @ a # ys)" and c1: "1 \<le> cnt s a"
  shows "\<exists>s' n. heap s a = Some n \<and> split (Some a) True s = Ret (Some (fresh s)) s' \<and>
      shape s' (xs @ a # fresh s # ys) \<and>
      cont s' a = Some (count n - (count n - 1) div 2, values n) \<and>
      cont s' (fresh s) = Some ((count n - 1) div 2,
         take (nat ((count n - 1) div 2)) (drop (nat (count n - (count n - 1) div 2)) (values n)) @
         replicate (nat (asize s) - nat ((count n - 1) div 2)) None) \<and>
      (\<forall>x. x \<noteq> a \<longrightarrow> x \<noteq> fresh s \<longrightarrow> cont s' x = cont s x) \<and>
      lsize s' = lsize s \<and> asize s' = asize s \<and> head s' = head s \<and>
      fresh s' = Suc (fresh s) \<and> nodecount s' = nodecount s + 1 \<and>
      tail s' = (if tail s = Some a then Some (fresh s) else tail s) \<and>
      map_option next (heap s' a) = Some (Some (fresh s)) \<and>
      map_option prev (heap s' (fresh s)) = Some (Some a) \<and>
      map_option next (heap s' (fresh s)) = Some (next n)"
proof -
  obtain n where n: "heap s a = Some n" "0 \<le> count n" "count n \<le> asize s"
    "int (length (values n)) = asize s" "path (heap s) (next n) ys None"
    "path (heap s) (head s) xs (Some a)"
    using shape_split_node[OF sh] by blast
  let ?b = "fresh s"
  let ?k = "(count n - 1) div 2"
  have c1': "1 \<le> count n" using c1 n by (simp add: cnt_def)
  have fr: "heap s ?b = None" using sh by (simp add: shape_def)
  have bn: "?b \<notin> set (xs @ a # ys)" by (rule shape_fresh_notin[OF sh])
  have dist: "distinct (xs @ a # ys)" using sh by (simp add: shape_def)
  have nx: "(ys = [] \<and> next n = None) \<or> (\<exists>c ys' cn. ys = c # ys' \<and> next n = Some c \<and> heap s c = Some cn)"
    using n(5) by (cases ys) (auto split: option.splits)
  then have nx': "next n = None \<or> (\<exists>c cn. next n = Some c \<and> c \<noteq> a \<and> heap s c = Some cn)"
    using dist by auto
  define H where "H = (let k = (count n - 1) div 2;
                 h2 = (heap s)(fresh s \<mapsto>
                        \<lparr>next = next n, prev = Some a, count = k,
                         values = take (nat k) (drop (nat (count n - k)) (values n)) @
                                  replicate (nat (asize s) - nat k) None\<rparr>,
                      a \<mapsto> n\<lparr>count := count n - k, next := Some (fresh s)\<rparr>)
             in case next n of None \<Rightarrow> h2
                | Some c \<Rightarrow> h2(c \<mapsto> (the (heap s c))\<lparr>prev := Some (fresh s)\<rparr>))"
  define s' where "s' = s\<lparr>heap := H, fresh := Suc (fresh s), nodecount := nodecount s + 1,
          tail := (if tail s = Some a then Some (fresh s) else tail s)\<rparr>"
  have sp: "split (Some a) True s = Ret (Some ?b) s'"
    unfolding s'_def H_def
    using split_Ret[OF n(1) c1' _ n(3) fr nx'] n(4) n(3) by simp
  have Ha: "H a = Some (n\<lparr>count := count n - ?k, next := Some ?b\<rparr>)"
    using nx n(1) fr dist bn by (auto simp: H_def Let_def)
  have Hb: "H ?b = Some \<lparr>next = next n, prev = Some a, count = ?k,
                         values = take (nat ?k) (drop (nat (count n - ?k)) (values n)) @
                                  replicate (nat (asize s) - nat ?k) None\<rparr>"
    using nx n(1) fr dist bn by (auto simp: H_def Let_def)
  have Hnext: "\<And>x. x \<noteq> a \<Longrightarrow> x \<noteq> ?b \<Longrightarrow> map_option next (H x) = map_option next (heap s x)"
    using nx by (auto simp: H_def Let_def)
  have Hcont: "\<And>x. x \<noteq> a \<Longrightarrow> x \<noteq> ?b \<Longrightarrow>
      map_option (\<lambda>n. (count n, values n)) (H x) = map_option (\<lambda>n. (count n, values n)) (heap s x)"
    using nx by (auto simp: H_def Let_def)
  have Hnext': "\<And>x. x \<in> set xs \<or> x \<in> set ys \<Longrightarrow> map_option next (H x) = map_option next (heap s x)"
  proof -
    fix x assume "x \<in> set xs \<or> x \<in> set ys"
    then have "x \<noteq> a" "x \<noteq> ?b" using dist bn by auto
    then show "map_option next (H x) = map_option next (heap s x)" by (rule Hnext)
  qed
  have Hprev: "\<And>x. x \<noteq> ?b \<Longrightarrow> x \<notin> set (take 1 ys) \<Longrightarrow> map_option prev (H x) = map_option prev (heap s x)"
    using nx n(1) by (auto simp: H_def Let_def)
  have Hnone: "\<And>x. Suc (fresh s) \<le> x \<Longrightarrow> H x = None"
  proof -
    fix x assume x: "Suc (fresh s) \<le> x"
    then have "heap s x = None" using sh by (simp add: shape_def)
    moreover have "x \<noteq> a" using n(1) calculation by auto
    moreover have "x \<noteq> ?b" using x by simp
    moreover have "\<And>c cn. heap s c = Some cn \<Longrightarrow> x \<noteq> c" using calculation by auto
    ultimately show "H x = None" using nx by (auto simp: H_def Let_def)
  qed
  have "path H (head s) xs (Some a) = path (heap s) (head s) xs (Some a)"
    by (rule path_cong) (simp add: Hnext')
  then have p1: "path H (head s) xs (Some a)" using n(6) by simp
  have "path H (next n) ys None = path (heap s) (next n) ys None"
    by (rule path_cong) (simp add: Hnext')
  then have p2: "path H (next n) ys None" using n(5) by simp
  have pth: "path H (head s) (xs @ a # ?b # ys) None"
    using p1 p2 Ha Hb by (simp add: path_append_Cons)
  have bl0: "backlinks (heap s) (xs @ [a])" "prevs (heap s) a ys"
    using sh backlinks_append_Cons[of "heap s" xs a ys] by (auto simp: shape_def)
  have bl1: "backlinks H (xs @ [a])"
  proof -
    have "backlinks H (xs @ [a]) = backlinks (heap s) (xs @ [a])"
    proof (rule backlinks_cong)
      fix x assume "x \<in> set (tl (xs @ [a]))"
      then have "x \<in> set (xs @ [a])" by (metis list.set_sel(2) tl_Nil)
      then have "x \<noteq> ?b" "x \<notin> set (take 1 ys)"
        using bn dist by (auto dest: in_set_takeD)
      then show "map_option prev (H x) = map_option prev (heap s x)" by (rule Hprev)
    qed
    then show ?thesis using bl0 by simp
  qed
  have bl2: "prevs H ?b ys"
  proof (cases ys)
    case Nil
    then show ?thesis by simp
  next
    case (Cons c ys')
    then obtain cn where c: "next n = Some c" "heap s c = Some cn" using nx by auto
    have "c \<noteq> a" "c \<noteq> ?b" using dist bn Cons by auto
    then have Hc: "H c = Some (cn\<lparr>prev := Some ?b\<rparr>)" using c by (simp add: H_def Let_def)
    have "prevs (heap s) c ys'" using bl0 Cons by simp
    moreover have "prevs H c ys' = prevs (heap s) c ys'"
    proof (rule prevs_cong)
      fix x assume "x \<in> set ys'"
      then have "x \<noteq> ?b" "x \<notin> set (take 1 ys)" using bn dist Cons by auto
      then show "map_option prev (H x) = map_option prev (heap s x)" by (rule Hprev)
    qed
    ultimately show ?thesis using Cons Hc by simp
  qed
  have bl: "backlinks H (xs @ a # ?b # ys)"
    using bl1 bl2 Hb backlinks_append_Cons[of H xs a "?b # ys"] by simp
  have tl: "tail s' = (if xs @ a # ?b # ys = [] then None else Some (last (xs @ a # ?b # ys)))"
    using sh dist bn by (auto simp: s'_def shape_def)
  have k: "0 \<le> ?k" "?k \<le> count n" "?k \<le> asize s" using c1' n by auto
  have ok: "\<forall>x\<in>set (xs @ a # ?b # ys). node_ok s' x"
  proof
    fix x assume x: "x \<in> set (xs @ a # ?b # ys)"
    show "node_ok s' x"
    proof (cases "x = a \<or> x = ?b")
      case True
      then show ?thesis using Ha Hb k n c1' by (auto simp: node_ok_def fits_def s'_def)
    next
      case False
      then have "x \<in> set (xs @ a # ys)" using x by auto
      then have "node_ok s x" by (rule shapeD_node[OF sh])
      then show ?thesis using Hcont[of x] False
        by (auto simp: node_ok_def fits_def s'_def)
    qed
  qed
  have shp: "shape s' (xs @ a # ?b # ys)"
    unfolding shape_def
    using pth bl tl ok dist bn sh Hnone
    by (auto simp: s'_def shape_def)
  show ?thesis
    using sp shp n(1) Ha Hb Hcont
    by (auto simp: cont_def s'_def)
qed

subsection \<open>Updating and deleting nodes\<close>

lemma fits_links [simp]:
  "fits C (n\<lparr>next := x\<rparr>) = fits C n" "fits C (n\<lparr>prev := y\<rparr>) = fits C n"
  by (simp_all add: fits_def)

lemma shape_lsize [simp]: "shape (s\<lparr>lsize := x\<rparr>) ps = shape s ps"
  by (simp add: shape_def node_ok_def)

lemma cont_lsize [simp]: "cont (s\<lparr>lsize := x\<rparr>) a = cont s a"
  by (simp add: cont_def)

lemma cnt_lsize [simp]: "cnt (s\<lparr>lsize := x\<rparr>) a = cnt s a"
  by (simp add: cnt_def)

lemma cnt_cont: "cnt s a = (case cont s a of None \<Rightarrow> 0 | Some (c, vs) \<Rightarrow> c)"
  by (simp add: cnt_def cont_def split: option.splits)

lemma cont_upd:
  "cont (s\<lparr>heap := (heap s)(a \<mapsto> n)\<rparr>) x = (if x = a then Some (count n, values n) else cont s x)"
  by (simp add: cont_def)

lemma shape_update:
  assumes sh: "shape s ps" and n: "heap s a = Some n"
    and n': "next n' = next n" "prev n' = prev n" "0 \<le> count n'" "count n' \<le> asize s"
      "int (length (values n')) = asize s"
  shows "shape (s\<lparr>heap := (heap s)(a \<mapsto> n')\<rparr>) ps"
proof -
  let ?H = "(heap s)(a \<mapsto> n')"
  have nx: "\<And>x. map_option next (?H x) = map_option next (heap s x)"
    using n n' by simp
  have pv: "\<And>x. map_option prev (?H x) = map_option prev (heap s x)"
    using n n' by simp
  have "path ?H (head s) ps None = path (heap s) (head s) ps None"
    by (rule path_cong) (rule nx)
  moreover have "backlinks ?H ps = backlinks (heap s) ps"
    by (rule backlinks_cong) (rule pv)
  moreover have "\<And>x. node_ok s x \<Longrightarrow> node_ok (s\<lparr>heap := ?H\<rparr>) x"
    using n' by (auto simp: node_ok_def fits_def)
  moreover have "\<And>x. fresh s \<le> x \<Longrightarrow> ?H x = None"
    using sh n by (auto simp: shape_def)
  ultimately show ?thesis using sh by (auto simp: shape_def)
qed

lemma shape_node:
  assumes "shape s ps" "a \<in> set ps"
  obtains n where "heap s a = Some n" "0 \<le> count n" "count n \<le> asize s"
    "int (length (values n)) = asize s"
  using shapeD_node[OF assms] by (auto simp: node_ok_def fits_def)

lemma path_snoc:
  "path h p (xs @ [a]) q = (path h p xs (Some a) \<and> (case h a of None \<Rightarrow> False | Some n \<Rightarrow> next n = q))"
  by (simp add: path_append_Cons split: option.splits)

lemma deleteNode_shape:
  assumes sh: "shape s (xs @ a # ys)"
  shows "\<exists>s'. deleteNode (Some a) s = Ret () s' \<and> shape s' (xs @ ys) \<and>
      (\<forall>x. x \<noteq> a \<longrightarrow> cont s' x = cont s x) \<and>
      lsize s' = lsize s \<and> asize s' = asize s"
proof -
  obtain n where n: "heap s a = Some n" "path (heap s) (next n) ys None"
    "path (heap s) (head s) xs (Some a)"
    using shape_split_node[OF sh] by blast
  have dist: "distinct (xs @ a # ys)" using sh by (simp add: shape_def)
  have bl: "backlinks (heap s) (xs @ [a])" "prevs (heap s) a ys"
    using sh backlinks_append_Cons[of "heap s" xs a ys] by (auto simp: shape_def)
  have tl: "tail s = Some (last (a # ys))" using sh by (simp add: shape_def)
  have nc: "nodecount s = int (length (xs @ a # ys))" using sh by (simp add: shape_def)
  have as: "1 \<le> asize s" using sh by (simp add: shape_def)
  have fr: "\<And>x. fresh s \<le> x \<Longrightarrow> heap s x = None" using sh by (simp add: shape_def)
  have ok: "\<And>x. x \<in> set xs \<or> x \<in> set ys \<Longrightarrow> node_ok s x" using sh by (auto simp: shape_def)
  show ?thesis
  proof (cases xs rule: rev_cases)
    case Nil
    then have hd: "head s = Some a" using n by simp
    define s' where "s' = s\<lparr>heap := (heap s)(a := None), head := next n,
        tail := (if ys = [] then None else tail s), nodecount := nodecount s - 1\<rparr>"
    have nxt: "ys = [] \<longleftrightarrow> next n = None" using n(2) by (cases ys) auto
    have d: "deleteNode (Some a) s = Ret () s'"
      using hd n(1) nxt by (cases "next n") (auto simp: deleteNode_def s'_def)
    have "path ((heap s)(a := None)) (next n) ys None = path (heap s) (next n) ys None"
      by (rule path_cong) (use dist in auto)
    then have p: "path ((heap s)(a := None)) (next n) ys None" using n by simp
    have "backlinks ((heap s)(a := None)) ys"
    proof (cases ys)
      case Nil
      then show ?thesis by (simp add: backlinks_def)
    next
      case (Cons c ys')
      have "prevs ((heap s)(a := None)) c ys' = prevs (heap s) c ys'"
        by (rule prevs_cong) (use dist Cons in auto)
      then show ?thesis using bl Cons by (simp add: backlinks_def)
    qed
    moreover have "\<And>x. x \<in> set ys \<Longrightarrow> node_ok s' x"
      using ok dist by (auto simp: node_ok_def s'_def)
    ultimately have "shape s' (xs @ ys)"
      using p dist tl nc as fr Nil by (auto simp: shape_def s'_def)
    then show ?thesis using d by (auto simp: s'_def cont_def)
  next
    case (snoc xs' p)
    have ahd: "Some a \<noteq> head s"
    proof -
      have "path (heap s) (head s) (xs' @ p # a # ys) None" using sh snoc by (simp add: shape_def)
      then have "head s = Some (hd (xs' @ [p]))" by (cases xs') auto
      moreover have "hd (xs' @ [p]) \<noteq> a" using dist snoc by (cases xs') auto
      ultimately show ?thesis by simp
    qed
    obtain pn where pn: "heap s p = Some pn" "next pn = Some a" "path (heap s) (head s) xs' (Some p)"
      using n(3) snoc by (auto simp: path_snoc split: option.splits)
    have pv: "prev n = Some p"
      using bl(1) snoc n(1) backlinks_snoc2[of "heap s" xs' p a] by simp
    have blp: "backlinks (heap s) (xs' @ [p])"
      using bl(1) snoc backlinks_snoc2[of "heap s" xs' p a] by simp
    have pa: "p \<noteq> a" using dist snoc by auto
    show ?thesis
    proof (cases ys)
      case Nil
      then have tla: "tail s = Some a" using tl by simp
      have nn: "next n = None" using n(2) Nil by simp
      define H where "H = (heap s)(p \<mapsto> pn\<lparr>next := None\<rparr>, a := None)"
      define s' where "s' = s\<lparr>heap := H, tail := Some p, nodecount := nodecount s - 1\<rparr>"
      have d: "deleteNode (Some a) s = Ret () s'"
        using ahd tla n(1) pv pn by (simp add: deleteNode_def s'_def H_def)
      have "path H (head s) xs' (Some p) = path (heap s) (head s) xs' (Some p)"
        by (rule path_cong) (use dist snoc in \<open>auto simp: H_def\<close>)
      then have p: "path H (head s) (xs' @ [p]) None"
        using pn pa by (simp add: path_snoc H_def)
      have "backlinks H (xs' @ [p]) = backlinks (heap s) (xs' @ [p])"
      proof (rule backlinks_cong)
        fix x assume "x \<in> set (tl (xs' @ [p]))"
        then have "x \<in> set (xs' @ [p])" by (metis list.set_sel(2) tl_Nil)
        then have "x \<noteq> a" using dist snoc by auto
        then show "map_option prev (H x) = map_option prev (heap s x)"
          using pn by (simp add: H_def)
      qed
      then have b: "backlinks H (xs' @ [p])" using blp by simp
      have o: "\<And>x. x \<in> set xs' \<or> x = p \<Longrightarrow> node_ok s' x"
      proof -
        fix x assume x: "x \<in> set xs' \<or> x = p"
        then have "node_ok s x" "x \<noteq> a" using ok snoc dist by auto
        then show "node_ok s' x" using pn by (auto simp: node_ok_def s'_def H_def)
      qed
      have f: "\<And>x. fresh s \<le> x \<Longrightarrow> H x = None"
        using fr pn by (auto simp: H_def)
      have "shape s' (xs @ ys)"
        using p b o f dist nc as snoc Nil by (auto simp: shape_def s'_def)
      moreover have "\<And>x. x \<noteq> a \<Longrightarrow> cont s' x = cont s x"
        using pn by (auto simp: cont_def s'_def H_def)
      ultimately show ?thesis using d by (auto simp: s'_def)
    next
      case (Cons c ys')
      obtain cn where cn: "heap s c = Some cn" "next n = Some c" "path (heap s) (next cn) ys' None"
        using n(2) Cons by (auto split: option.splits)
      have tla: "tail s \<noteq> Some a" using tl dist Cons by auto
      have cp: "c \<noteq> p" "c \<noteq> a" using dist snoc Cons by auto
      define H where "H = (heap s)(p \<mapsto> pn\<lparr>next := Some c\<rparr>, c \<mapsto> cn\<lparr>prev := Some p\<rparr>, a := None)"
      define s' where "s' = s\<lparr>heap := H, nodecount := nodecount s - 1\<rparr>"
      have d: "deleteNode (Some a) s = Ret () s'"
        using ahd tla n(1) pv pn cn cp by (simp add: deleteNode_def s'_def H_def)
      have "path H (head s) xs' (Some p) = path (heap s) (head s) xs' (Some p)"
        by (rule path_cong) (use dist snoc Cons in \<open>auto simp: H_def\<close>)
      moreover have "path H (next cn) ys' None = path (heap s) (next cn) ys' None"
        by (rule path_cong) (use dist snoc Cons in \<open>auto simp: H_def\<close>)
      ultimately have p: "path H (head s) (xs' @ p # c # ys') None"
        using pn pa cn cp by (simp add: path_append_Cons H_def)
      have "backlinks H (xs' @ [p]) = backlinks (heap s) (xs' @ [p])"
      proof (rule backlinks_cong)
        fix x assume "x \<in> set (tl (xs' @ [p]))"
        then have "x \<in> set (xs' @ [p])" by (metis list.set_sel(2) tl_Nil)
        then have "x \<noteq> a" "x \<noteq> c" using dist snoc Cons by auto
        then show "map_option prev (H x) = map_option prev (heap s x)"
          using pn by (simp add: H_def)
      qed
      moreover have "prevs H c ys' = prevs (heap s) c ys'"
        by (rule prevs_cong) (use dist snoc Cons in \<open>auto simp: H_def\<close>)
      moreover have "H c = Some (cn\<lparr>prev := Some p\<rparr>)" using cp by (simp add: H_def)
      ultimately have b: "backlinks H (xs' @ p # c # ys')"
        using blp bl(2) Cons backlinks_append_Cons[of H xs' p "c # ys'"] by simp
      have o: "\<And>x. x \<in> set xs \<or> x \<in> set ys \<Longrightarrow> node_ok s' x"
      proof -
        fix x assume x: "x \<in> set xs \<or> x \<in> set ys"
        then have "node_ok s x" "x \<noteq> a" using ok dist by auto
        then show "node_ok s' x" using pn cn by (auto simp: node_ok_def s'_def H_def)
      qed
      have f: "\<And>x. fresh s \<le> x \<Longrightarrow> H x = None"
        using fr pn cn by (auto simp: H_def)
      have "shape s' (xs @ ys)"
        using p b o f dist nc as snoc Cons tl by (auto simp: shape_def s'_def)
      moreover have "\<And>x. x \<noteq> a \<Longrightarrow> cont s' x = cont s x"
        using pn cn by (auto simp: cont_def s'_def H_def)
      ultimately show ?thesis using d by (auto simp: s'_def)
    qed
  qed
qed

subsection \<open>Traversal and index lookup\<close>

lemma find_element_loop_null:
  "deref s walker = None \<Longrightarrow> find_element_loop s index indexSum walker = Some UB"
  by (subst find_element_loop.simps) simp

lemma find_element_loop_next:
  "deref s walker = Some (a, n) \<Longrightarrow> indexSum + count n \<le> index \<Longrightarrow>
   find_element_loop s index indexSum walker = find_element_loop s index (indexSum + count n) (next n)"
  by (subst find_element_loop.simps) simp

lemma find_element_loop_found:
  "deref s walker = Some (a, n) \<Longrightarrow> \<not> indexSum + count n \<le> index \<Longrightarrow>
   find_element_loop s index indexSum walker =
     Some (Ret \<lparr>info_node = walker, info_localIndex = index - indexSum\<rparr> s)"
  by (subst find_element_loop.simps) simp

lemma live_take:
  "0 \<le> count n \<Longrightarrow> count n \<le> int (length (values n)) \<Longrightarrow> live n = take (nat (count n)) (values n)"
  by (auto simp: live_def rd_def in_array_def intro!: nth_equalityI)

lemma seg_cont:
  "seg s a = (case cont s a of None \<Rightarrow> [] | Some (c, vs) \<Rightarrow> map (\<lambda>i. rd vs (int i)) [0 ..< nat c])"
  by (simp add: seg_def cont_def live_def split: option.splits)

lemma seg_take:
  "cont s a = Some (c, vs) \<Longrightarrow> 0 \<le> c \<Longrightarrow> c \<le> int (length vs) \<Longrightarrow> seg s a = take (nat c) vs"
  using live_take[of "the (heap s a)"] by (auto simp: seg_def cont_def)

lemma seg_cong: "cont s' a = cont s a \<Longrightarrow> seg s' a = seg s a"
  by (simp add: seg_cont)

lemma cnt_cong: "cont s' a = cont s a \<Longrightarrow> cnt s' a = cnt s a"
  by (simp add: cnt_cont)

lemma shape_cont:
  assumes "shape s ps" "a \<in> set ps"
  obtains c vs where "cont s a = Some (c, vs)" "0 \<le> c" "c \<le> asize s" "int (length vs) = asize s"
proof -
  obtain n where "heap s a = Some n" "0 \<le> count n" "count n \<le> asize s"
    "int (length (values n)) = asize s"
    using shape_node[OF assms] by blast
  then show ?thesis using that[of "count n" "values n"] by (simp add: cont_def)
qed

lemma length_seg: "shape s ps \<Longrightarrow> a \<in> set ps \<Longrightarrow> int (length (seg s a)) = cnt s a"
proof -
  assume a: "shape s ps" "a \<in> set ps"
  obtain c vs where "cont s a = Some (c, vs)" "0 \<le> c" "c \<le> asize s" "int (length vs) = asize s"
    using shape_cont[OF a] by blast
  then show ?thesis by (simp add: seg_take cnt_cont)
qed

lemma elements_shape:
  assumes "shape s ps"
  shows "elements s = Some (concat (map (seg s) ps))"
proof -
  have "path (heap s) (head s) ps None" using assms by (simp add: shape_def)
  then have "nodes s = Some (map (\<lambda>a. the (heap s a)) ps)"
    unfolding nodes_def by (rule nodes_from_path)
  moreover have "map live (map (\<lambda>a. the (heap s a)) ps) = map (seg s) ps"
  proof -
    have "live (the (heap s a)) = seg s a" if a: "a \<in> set ps" for a
    proof -
      obtain n where "heap s a = Some n" using shape_node[OF assms a] by blast
      then show ?thesis by (simp add: seg_def)
    qed
    then show ?thesis by (simp add: map_eq_conv)
  qed
  ultimately show ?thesis by (simp add: elements_def del: map_map)
qed

lemma length_concat_segs:
  "shape s ps \<Longrightarrow> set xs \<subseteq> set ps \<Longrightarrow> int (length (concat (map (seg s) xs))) = sum_list (map (cnt s) xs)"
  by (induction xs) (auto simp: length_seg)

lemma find_element_loop_ok:
  "path (heap s) w ys None \<Longrightarrow> (\<forall>a\<in>set ys. 0 \<le> cnt s a) \<Longrightarrow> k \<le> index \<Longrightarrow>
   index < k + sum_list (map (cnt s) ys) \<Longrightarrow>
   \<exists>ys1 a ys2. ys = ys1 @ a # ys2 \<and>
     find_element_loop s index k w =
       Some (Ret \<lparr>info_node = Some a,
                  info_localIndex = index - (k + sum_list (map (cnt s) ys1))\<rparr> s) \<and>
     k + sum_list (map (cnt s) ys1) \<le> index \<and>
     index < k + sum_list (map (cnt s) ys1) + cnt s a"
proof (induction ys arbitrary: w k)
  case Nil
  then show ?case by simp
next
  case (Cons b ys)
  then obtain n where n: "w = Some b" "heap s b = Some n" "path (heap s) (next n) ys None"
    by (auto split: option.splits)
  have d: "deref s w = Some (b, n)" using n by (simp add: deref_def)
  have cb: "cnt s b = count n" using n by (simp add: cnt_def)
  show ?case
  proof (cases "k + count n \<le> index")
    case True
    have "index < (k + count n) + sum_list (map (cnt s) ys)" using Cons.prems cb by simp
    from Cons.IH[OF n(3) _ True this] Cons.prems(2)
    obtain ys1 a ys2 where r: "ys = ys1 @ a # ys2"
      "find_element_loop s index (k + count n) (next n) =
        Some (Ret \<lparr>info_node = Some a,
               info_localIndex = index - (k + count n + sum_list (map (cnt s) ys1))\<rparr> s)"
      "k + count n + sum_list (map (cnt s) ys1) \<le> index"
      "index < k + count n + sum_list (map (cnt s) ys1) + cnt s a"
      by auto
    have "find_element_loop s index k w = find_element_loop s index (k + count n) (next n)"
      by (rule find_element_loop_next[OF d True])
    then show ?thesis
      using r cb by (intro exI[of _ "b # ys1"] exI[of _ a] exI[of _ ys2]) (simp add: ac_simps)
  next
    case False
    have "find_element_loop s index k w =
        Some (Ret \<lparr>info_node = w, info_localIndex = index - k\<rparr> s)"
      by (rule find_element_loop_found[OF d False])
    then show ?thesis
      using False Cons.prems cb n by (intro exI[of _ "[]"] exI[of _ b] exI[of _ ys]) simp
  qed
qed

lemma find_element_ok:
  assumes "shape s ps" "0 \<le> index" "index < sum_list (map (cnt s) ps)"
  shows "\<exists>xs a ys. ps = xs @ a # ys \<and>
     find_element index s =
       Some (Ret \<lparr>info_node = Some a, info_localIndex = index - sum_list (map (cnt s) xs)\<rparr> s) \<and>
     sum_list (map (cnt s) xs) \<le> index \<and> index < sum_list (map (cnt s) xs) + cnt s a"
proof -
  have p: "path (heap s) (head s) ps None" using assms by (simp add: shape_def)
  have c: "\<forall>a\<in>set ps. 0 \<le> cnt s a"
  proof
    fix a assume "a \<in> set ps"
    then obtain c vs where "cont s a = Some (c, vs)" "0 \<le> c"
      using shape_cont[OF assms(1)] by blast
    then show "0 \<le> cnt s a" by (simp add: cnt_cont)
  qed
  show ?thesis
    using find_element_loop_ok[OF p c, of 0 index] assms unfolding find_element_def by simp
qed

subsection \<open>Insertion\<close>

lemma shiftUp_loop_rot':
  assumes "values n = A @ W @ E" "W \<noteq> []" "localIndex = int (length A)"
    "count n = localIndex + int (length W)"
  shows "shiftUp_loop n localIndex (localIndex + 1) = Some (n\<lparr>values := A @ last W # butlast W @ E\<rparr>)"
proof -
  obtain x C where W: "W = x # C" using assms(2) by (cases W) auto
  show ?thesis
    using shiftUp_loop_rot[of n A x "[]" C E localIndex "localIndex + 1"] assms W
    by simp
qed

lemma shiftUp_Ret:
  assumes "heap s a = Some n" "values n = A @ W @ E" "W \<noteq> []" "localIndex = int (length A)"
    "count n = localIndex + int (length W)"
  shows "shiftUp (Some a) localIndex s =
     Ret () (s\<lparr>heap := (heap s)(a \<mapsto> n\<lparr>values := A @ last W # butlast W @ E\<rparr>)\<rparr>)"
  using shiftUp_loop_rot'[OF assms(2-5)] assms(1) by (simp add: shiftUp_def)

lemma shape_asize_pos: "shape s ps \<Longrightarrow> 1 \<le> asize s"
  by (simp add: shape_def)

lemma room_insert:
  assumes sh: "shape s ps" and a: "a \<in> set ps" and n: "heap s a = Some n"
    and room: "count n < asize s" and L: "0 \<le> L" "L \<le> count n"
  shows "\<exists>vs s'. wr (values n) (count n) v = Some vs \<and>
     shiftUp (Some a) L (s\<lparr>heap := (heap s)(a \<mapsto> n\<lparr>values := vs, count := count n + 1\<rparr>),
                         lsize := lsize s + 1\<rparr>) = Ret () s' \<and>
     shape s' ps \<and>
     seg s' a = take (nat L) (seg s a) @ v # drop (nat L) (seg s a) \<and>
     cnt s' a = cnt s a + 1 \<and>
     (\<forall>x. x \<noteq> a \<longrightarrow> cont s' x = cont s x) \<and>
     lsize s' = lsize s + 1 \<and> asize s' = asize s"
proof -
  obtain n0 where n0: "heap s a = Some n0" "0 \<le> count n0" "count n0 \<le> asize s"
    "int (length (values n0)) = asize s"
    using shape_node[OF sh a] by blast
  have f: "0 \<le> count n" "int (length (values n)) = asize s" using n0 n by auto
  let ?c = "nat (count n)"
  let ?A = "take (nat L) (values n)"
  let ?W = "drop (nat L) (take ?c (values n))"
  let ?E = "drop (Suc ?c) (values n)"
  let ?vs = "(values n)[?c := v]"
  have clt: "?c < length (values n)" using room f by linarith
  have w: "wr (values n) (count n) v = Some ?vs"
    using clt f by (simp add: wr_def in_array_def)
  have tk: "take ?c (values n) = ?A @ ?W"
  proof -
    have "take (nat L) (take ?c (values n)) = ?A" using L by (simp add: min_def)
    then show ?thesis by (metis append_take_drop_id)
  qed
  have vs: "?vs = ?A @ (?W @ [v]) @ ?E"
    using clt tk by (simp add: upd_conv_take_nth_drop)
  let ?n1 = "n\<lparr>values := ?vs, count := count n + 1\<rparr>"
  let ?s1 = "s\<lparr>heap := (heap s)(a \<mapsto> ?n1), lsize := lsize s + 1\<rparr>"
  have lA: "L = int (length ?A)" using L clt by simp
  have lW: "count ?n1 = L + int (length (?W @ [v]))" using L clt f by simp
  define s' where "s' = ?s1\<lparr>heap := (heap ?s1)(a \<mapsto> ?n1\<lparr>values := ?A @ v # ?W @ ?E\<rparr>)\<rparr>"
  have su: "shiftUp (Some a) L ?s1 = Ret () s'"
    unfolding s'_def
    using shiftUp_Ret[of ?s1 a ?n1 ?A "?W @ [v]" ?E L] vs lA lW by simp
  have s'eq: "s' = (s\<lparr>heap := (heap s)(a \<mapsto> n\<lparr>values := ?A @ v # ?W @ ?E, count := count n + 1\<rparr>)\<rparr>)
          \<lparr>lsize := lsize s + 1\<rparr>"
    unfolding s'_def by (cases s; cases n) simp
  have len: "length (?A @ v # ?W @ ?E) = length (values n)"
    using L clt by simp
  have shp: "shape s' ps"
    unfolding s'eq shape_lsize
    by (rule shape_update[OF sh n]) (use f room len in auto)
  have ct: "cont s' a = Some (count n + 1, ?A @ v # ?W @ ?E)"
    by (simp add: s'eq cont_def)
  have sg0: "seg s a = take ?c (values n)"
    using n f room by (intro seg_take[of s a "count n" "values n"]) (auto simp: cont_def)
  have "seg s' a = take (nat (count n + 1)) (?A @ v # ?W @ ?E)"
    using f room len by (intro seg_take[OF ct]) auto
  also have "\<dots> = ?A @ v # ?W"
  proof -
    have "length (?A @ v # ?W) = nat (count n + 1)" using L clt f by simp
    then have "take (nat (count n + 1)) ((?A @ v # ?W) @ ?E) = ?A @ v # ?W"
      by (metis append_eq_conv_conj)
    then show ?thesis by simp
  qed
  also have "\<dots> = take (nat L) (seg s a) @ v # drop (nat L) (seg s a)"
    using sg0 L by (simp add: min_def)
  finally have sg: "seg s' a = take (nat L) (seg s a) @ v # drop (nat L) (seg s a)" .
  have "cnt s' a = cnt s a + 1" using n by (simp add: s'eq cnt_def)
  moreover have "\<forall>x. x \<noteq> a \<longrightarrow> cont s' x = cont s x" by (simp add: s'eq cont_def)
  ultimately show ?thesis using w su shp sg by (auto simp: s'eq)
qed

lemma split_no_memory: "heap s a = Some n \<Longrightarrow> split (Some a) False s = Throw E_NO_MEMORY s"
  by (simp add: split_def new_LNode_def Let_def)

lemma read_cref_Object [simp]: "read_cref s (Object x) = Some x"
  by (simp add: read_cref_def)

lemma push_back_in_node_room:
  assumes sh: "shape s ps" and a: "a \<in> set ps" and n: "heap s a = Some n"
    and room: "count n < asize s" and small: "lsize s < INT_MAX"
  shows "\<exists>s'. push_back_in_node (Some a) (Object v) mem s = Ret () s' \<and> shape s' ps \<and>
     seg s' a = seg s a @ [v] \<and> cnt s' a = cnt s a + 1 \<and>
     (\<forall>x. x \<noteq> a \<longrightarrow> cont s' x = cont s x) \<and>
     lsize s' = lsize s + 1 \<and> asize s' = asize s \<and> fresh s' = fresh s"
proof -
  obtain n0 where n0: "heap s a = Some n0" "0 \<le> count n0" "count n0 \<le> asize s"
    "int (length (values n0)) = asize s"
    using shape_node[OF sh a] by blast
  have f: "0 \<le> count n" "int (length (values n)) = asize s" using n0 n by auto
  let ?c = "nat (count n)"
  let ?vs = "(values n)[?c := v]"
  have clt: "?c < length (values n)" using room f by linarith
  have w: "wr (values n) (count n) v = Some ?vs"
    using clt f by (simp add: wr_def in_array_def)
  define s' where "s' = (s\<lparr>heap := (heap s)(a \<mapsto> n\<lparr>values := ?vs, count := count n + 1\<rparr>)\<rparr>)
        \<lparr>lsize := lsize s + 1\<rparr>"
  have p: "push_back_in_node (Some a) (Object v) mem s = Ret () s'"
    using n room w small by (simp add: push_back_in_node_def deref_def bind_res_def s'_def)
  have shp: "shape s' ps"
    unfolding s'_def shape_lsize
    by (rule shape_update[OF sh n]) (use f room in auto)
  have ct: "cont s' a = Some (count n + 1, ?vs)" by (simp add: s'_def cont_def)
  have sg0: "seg s a = take ?c (values n)"
    using n f room by (intro seg_take[of s a "count n" "values n"]) (auto simp: cont_def)
  have "seg s' a = take (nat (count n + 1)) ?vs"
    using f room by (intro seg_take[OF ct]) auto
  also have "\<dots> = take ?c (values n) @ [v]"
    using clt f by (simp add: nat_add_distrib take_Suc_conv_app_nth)
  finally have sg: "seg s' a = seg s a @ [v]" using sg0 by simp
  have "cnt s' a = cnt s a + 1" using n by (simp add: s'_def cnt_def)
  moreover have "\<forall>x. x \<noteq> a \<longrightarrow> cont s' x = cont s x" by (simp add: s'_def cont_def)
  ultimately show ?thesis using p shp sg by (auto simp: s'_def)
qed

text \<open>The node after the rotation and the overwrite at the start of \<^verbatim>\<open>insert_in_full_node\<close>.\<close>

lemma full_node_rotate:
  assumes sh: "shape s ps" and a: "a \<in> set ps" and n: "heap s a = Some n"
    and full: "count n = asize s" and L: "0 \<le> L" "L < count n"
  shows "\<exists>s1 n1. shiftUp (Some a) L s = Ret () s1 \<and> heap s1 a = Some n1 \<and>
      rd (values n1) L = last (values n) \<and>
      wr (values n1) L v = Some (take (nat L) (values n) @ v # butlast (drop (nat L) (values n))) \<and>
      s1\<lparr>heap := (heap s1)(a \<mapsto> n1\<lparr>values :=
          take (nat L) (values n) @ v # butlast (drop (nat L) (values n))\<rparr>)\<rparr> =
      s\<lparr>heap := (heap s)(a \<mapsto> n\<lparr>values :=
          take (nat L) (values n) @ v # butlast (drop (nat L) (values n))\<rparr>)\<rparr>"
proof -
  obtain n0 where n0: "heap s a = Some n0" "0 \<le> count n0" "count n0 \<le> asize s"
    "int (length (values n0)) = asize s"
    using shape_node[OF sh a] by blast
  have f: "int (length (values n)) = count n" using n0 n full by auto
  let ?A = "take (nat L) (values n)"
  let ?W = "drop (nat L) (values n)"
  have Wne: "?W \<noteq> []" using L f by auto
  have v: "values n = ?A @ ?W @ []" by simp
  have lA: "L = int (length ?A)" using L f by auto
  have lW: "count n = L + int (length ?W)" using L f by auto
  define n1 where "n1 = n\<lparr>values := ?A @ last ?W # butlast ?W @ []\<rparr>"
  define s1 where "s1 = s\<lparr>heap := (heap s)(a \<mapsto> n1)\<rparr>"
  have su: "shiftUp (Some a) L s = Ret () s1"
    unfolding s1_def n1_def by (rule shiftUp_Ret[OF n v Wne lA lW])
  have h1: "heap s1 a = Some n1" by (simp add: s1_def)
  have lw: "last ?W = last (values n)" using Wne by simp
  have r: "rd (values n1) L = last (values n)"
    using rd_append_len[of ?A "last ?W" "butlast ?W"] lA lw by (simp add: n1_def)
  have w: "wr (values n1) L v = Some (?A @ v # butlast ?W)"
    using wr_append_len[of ?A "last ?W" "butlast ?W" v] lA by (simp add: n1_def)
  have e: "s1\<lparr>heap := (heap s1)(a \<mapsto> n1\<lparr>values := ?A @ v # butlast ?W\<rparr>)\<rparr> =
      s\<lparr>heap := (heap s)(a \<mapsto> n\<lparr>values := ?A @ v # butlast ?W\<rparr>)\<rparr>"
    by (simp add: s1_def n1_def)
  show ?thesis using su h1 r w e by blast
qed

lemma insert_in_full_node_unfold:
  assumes sh: "shape s ps" and a: "a \<in> set ps" and n: "heap s a = Some n"
    and full: "count n = asize s" and L: "0 \<le> L" "L < count n"
  shows "insert_in_full_node (Some a) L (Object v) mem s =
     bind_res (split (Some a) mem
        (s\<lparr>heap := (heap s)(a \<mapsto> n\<lparr>values :=
            take (nat L) (values n) @ v # butlast (drop (nat L) (values n))\<rparr>)\<rparr>))
       (\<lambda>splitNode s3. push_back_in_node splitNode (Object (last (values n))) mem s3)"
proof -
  obtain s1 n1 where r: "shiftUp (Some a) L s = Ret () s1" "heap s1 a = Some n1"
      "rd (values n1) L = last (values n)"
      "wr (values n1) L v = Some (take (nat L) (values n) @ v # butlast (drop (nat L) (values n)))"
      "s1\<lparr>heap := (heap s1)(a \<mapsto> n1\<lparr>values :=
          take (nat L) (values n) @ v # butlast (drop (nat L) (values n))\<rparr>)\<rparr> =
      s\<lparr>heap := (heap s)(a \<mapsto> n\<lparr>values :=
          take (nat L) (values n) @ v # butlast (drop (nat L) (values n))\<rparr>)\<rparr>"
    using full_node_rotate[OF sh a n full L, of v] by blast
  show ?thesis
    unfolding insert_in_full_node_def
    by (simp add: r(1,2,3,4) bind_res_def deref_def) (simp add: r(5))
qed

lemma insert_in_full_node_no_memory:
  assumes sh: "shape s ps" and a: "a \<in> set ps" and n: "heap s a = Some n"
    and full: "count n = asize s" and L: "0 \<le> L" "L < count n"
  shows "insert_in_full_node (Some a) L (Object v) False s =
     Throw E_NO_MEMORY
        (s\<lparr>heap := (heap s)(a \<mapsto> n\<lparr>values :=
            take (nat L) (values n) @ v # butlast (drop (nat L) (values n))\<rparr>)\<rparr>)"
  unfolding insert_in_full_node_unfold[OF assms]
  by (simp add: split_no_memory bind_res_def)

lemma insert_in_full_node_ok:
  assumes sh: "shape s (xs @ a # ys)" and n: "heap s a = Some n"
    and full: "count n = asize s" and L: "0 \<le> L" "L < count n"
    and small: "lsize s < INT_MAX"
  shows "\<exists>s'. insert_in_full_node (Some a) L (Object v) True s = Ret () s' \<and>
     shape s' (xs @ a # fresh s # ys) \<and>
     seg s' a @ seg s' (fresh s) = take (nat L) (seg s a) @ v # drop (nat L) (seg s a) \<and>
     1 \<le> cnt s' a \<and> 1 \<le> cnt s' (fresh s) \<and>
     cnt s' (fresh s) = (asize s - 1) div 2 + 1 \<and>
     cnt s' a + cnt s' (fresh s) = cnt s a + 1 \<and>
     (\<forall>x. x \<noteq> a \<longrightarrow> x \<noteq> fresh s \<longrightarrow> cont s' x = cont s x) \<and>
     lsize s' = lsize s + 1 \<and> asize s' = asize s"
proof -
  let ?ps = "xs @ a # ys"
  have a: "a \<in> set ?ps" by simp
  obtain n0 where n0: "heap s a = Some n0" "0 \<le> count n0" "count n0 \<le> asize s"
    "int (length (values n0)) = asize s"
    using shape_node[OF sh a] by blast
  have f: "int (length (values n)) = count n" using n0 n full by auto
  let ?c = "count n"
  let ?b = "fresh s"
  define k where "k = (?c - 1) div 2"
  define v2 where "v2 = take (nat L) (values n) @ v # butlast (drop (nat L) (values n))"
  define s2 where "s2 = s\<lparr>heap := (heap s)(a \<mapsto> n\<lparr>values := v2\<rparr>)\<rparr>"
  have Wne: "drop (nat L) (values n) \<noteq> []" using L f by auto
  have len2: "int (length v2) = ?c" using L f by (auto simp: v2_def)
  have c1: "1 \<le> ?c" using L by simp
  have k: "0 \<le> k" "k < ?c" using c1 by (auto simp: k_def)
  have sh2: "shape s2 ?ps"
    unfolding s2_def by (rule shape_update[OF sh n]) (use len2 full c1 in auto)
  have un: "insert_in_full_node (Some a) L (Object v) True s =
     bind_res (split (Some a) True s2)
       (\<lambda>splitNode s3. push_back_in_node splitNode (Object (last (values n))) True s3)"
    unfolding s2_def v2_def by (rule insert_in_full_node_unfold[OF sh a n full L])
  have c2: "1 \<le> cnt s2 a" using c1 by (simp add: s2_def cnt_def)
  have h2: "heap s2 a = Some (n\<lparr>values := v2\<rparr>)" by (simp add: s2_def)
  have fb: "fresh s2 = ?b" by (simp add: s2_def)
  have as2: "asize s2 = asize s" by (simp add: s2_def)
  obtain s3 where s3: "split (Some a) True s2 = Ret (Some ?b) s3"
      "shape s3 (xs @ a # ?b # ys)"
      "cont s3 a = Some (?c - k, v2)"
      "cont s3 ?b = Some (k, take (nat k) (drop (nat (?c - k)) v2) @
         replicate (nat (asize s) - nat k) None)"
      "\<forall>x. x \<noteq> a \<longrightarrow> x \<noteq> ?b \<longrightarrow> cont s3 x = cont s2 x"
      "lsize s3 = lsize s2" "asize s3 = asize s2"
    using split_shape[OF sh2 c2] unfolding h2 fb as2 k_def by auto
  have ab: "a \<noteq> ?b" using shape_fresh_notin[OF sh] by auto
  obtain nb where nb: "heap s3 ?b = Some nb" "count nb = k"
    using s3(4) by (auto simp: cont_def)
  have room: "count nb < asize s3" using nb k full s3(7) as2 by simp
  have bin: "?b \<in> set (xs @ a # ?b # ys)" by simp
  have sm3: "lsize s3 < INT_MAX" using s3(6) small by (simp add: s2_def)
  obtain s4 where s4: "push_back_in_node (Some ?b) (Object (last (values n))) True s3 = Ret () s4"
      "shape s4 (xs @ a # ?b # ys)" "seg s4 ?b = seg s3 ?b @ [last (values n)]"
      "cnt s4 ?b = cnt s3 ?b + 1" "\<forall>x. x \<noteq> ?b \<longrightarrow> cont s4 x = cont s3 x"
      "lsize s4 = lsize s3 + 1" "asize s4 = asize s3"
    using push_back_in_node_room[OF s3(2) bin nb(1) room sm3] by blast
  have r: "insert_in_full_node (Some a) L (Object v) True s = Ret () s4"
    using un s3(1) s4(1) by (simp add: bind_res_def)
  have ca: "cont s4 a = Some (?c - k, v2)" using s4(5) ab s3(3) by simp
  have sa: "seg s4 a = take (nat (?c - k)) v2"
    using k len2 by (intro seg_take[OF ca]) auto
  have lk: "length (drop (nat (?c - k)) v2) = nat k" using len2 k by auto
  have "seg s3 ?b = take (nat k) (take (nat k) (drop (nat (?c - k)) v2) @
         replicate (nat (asize s) - nat k) None)"
    using k full lk by (intro seg_take[OF s3(4)]) auto
  also have "\<dots> = drop (nat (?c - k)) v2" using lk by simp
  finally have sb3: "seg s3 ?b = drop (nat (?c - k)) v2" .
  have sg0: "seg s a = values n"
    using seg_take[of s a ?c "values n"] n f c1 by (simp add: cont_def)
  have "seg s4 a @ seg s4 ?b = v2 @ [last (values n)]"
    using sa sb3 s4(3) by simp
  also have "\<dots> = take (nat L) (values n) @ v # drop (nat L) (values n)"
  proof -
    have "last (drop (nat L) (values n)) = last (values n)" using Wne by simp
    then have "butlast (drop (nat L) (values n)) @ [last (values n)] = drop (nat L) (values n)"
      using Wne by (metis append_butlast_last_id)
    then show ?thesis by (simp add: v2_def)
  qed
  finally have sg: "seg s4 a @ seg s4 ?b = take (nat L) (seg s a) @ v # drop (nat L) (seg s a)"
    using sg0 by simp
  have cb: "cnt s4 ?b = k + 1" using s4(4) nb by (simp add: cnt_def)
  have cna: "cnt s4 a = ?c - k" using ca by (simp add: cnt_cont)
  have c0: "cnt s a = ?c" using n by (simp add: cnt_def)
  have oth: "\<forall>x. x \<noteq> a \<longrightarrow> x \<noteq> ?b \<longrightarrow> cont s4 x = cont s x"
    using s4(5) s3(5) by (simp add: s2_def cont_def)
  have "lsize s4 = lsize s + 1" using s4(6) s3(6) by (simp add: s2_def)
  moreover have "asize s4 = asize s" using s4(7) s3(7) as2 by simp
  ultimately show ?thesis
    using r s4(2) sg cb cna c0 oth k full by (auto simp: k_def)
qed

lemma map_cnt_cong:
  assumes "\<forall>x\<in>set xs. cont s' x = cont s x"
  shows "map (cnt s') xs = map (cnt s) xs"
proof (rule map_cong[OF refl])
  fix x assume "x \<in> set xs"
  then have "cont s' x = cont s x" using assms by blast
  then show "cnt s' x = cnt s x" by (rule cnt_cong)
qed

lemma map_seg_cong:
  assumes "\<forall>x\<in>set xs. cont s' x = cont s x"
  shows "map (seg s') xs = map (seg s) xs"
proof (rule map_cong[OF refl])
  fix x assume "x \<in> set xs"
  then have "cont s' x = cont s x" using assms by blast
  then show "seg s' x = seg s x" by (rule seg_cong)
qed

lemma sum_cnt_cong:
  "(\<forall>x\<in>set xs. cont s' x = cont s x) \<Longrightarrow> sum_list (map (cnt s') xs) = sum_list (map (cnt s) xs)"
  by (rule arg_cong[OF map_cnt_cong])

lemma concat_seg_cong:
  "(\<forall>x\<in>set xs. cont s' x = cont s x) \<Longrightarrow> concat (map (seg s') xs) = concat (map (seg s) xs)"
  by (rule arg_cong[OF map_seg_cong])

lemma wfD_shape: "wf s ps \<Longrightarrow> shape s ps"
  by (simp add: wf_def)

lemma wf_lsize: "wf s ps \<Longrightarrow> lsize s = int (length (concat (map (seg s) ps)))"
  using length_concat_segs[of s ps ps] by (simp add: wf_def)

lemma idx_split:
  assumes "int (length X) = sx" "sx \<le> index" "L = index - sx"
  shows "nat index = length X + nat L"
  using assms by linarith

lemma insert_list:
  "L \<le> length S \<Longrightarrow>
   take (length X + L) (X @ S @ Y) @ v # drop (length X + L) (X @ S @ Y) =
   X @ (take L S @ v # drop L S) @ Y"
  by simp

lemma insert_list2:
  assumes "ps = xs @ a # ys" "nat index = length (concat (map f xs)) + L" "L \<le> length (f a)"
  shows "take (nat index) (concat (map f ps)) @ v # drop (nat index) (concat (map f ps)) =
     concat (map f xs) @ (take L (f a) @ v # drop L (f a)) @ concat (map f ys)"
proof -
  have "concat (map f ps) = concat (map f xs) @ f a @ concat (map f ys)"
    using assms(1) by simp
  then show ?thesis
    unfolding assms(2) using insert_list[OF assms(3), of "concat (map f xs)" "concat (map f ys)" v]
    by (simp only:)
qed

lemma insert_at_middle:
  assumes wf: "wf s ps" and idx: "0 < index" "index < lsize s" and small: "lsize s < INT_MAX"
  shows "\<exists>s' ps' xs a ys L. insert_at index (Object v) True s = Some (Ret () s') \<and> wf s' ps' \<and>
     concat (map (seg s') ps') =
       take (nat index) (concat (map (seg s) ps)) @ v # drop (nat index) (concat (map (seg s) ps)) \<and>
     lsize s' = lsize s + 1 \<and> asize s' = asize s \<and>
     ps = xs @ a # ys \<and>
     find_element index s = Some (Ret \<lparr>info_node = Some a, info_localIndex = L\<rparr> s) \<and>
     (if cnt s a < asize s
      then ps' = ps \<and> seg s' a = take (nat L) (seg s a) @ v # drop (nat L) (seg s a)
      else ps' = xs @ a # fresh s # ys \<and>
           seg s' a @ seg s' (fresh s) =
             take (nat L) (seg s a) @ v # drop (nat L) (seg s a)) \<and>
     (\<forall>x\<in>set xs \<union> set ys. seg s' x = seg s x)"
proof -
  have sh: "shape s ps" using wf by (simp add: wf_def)
  have sz: "lsize s = sum_list (map (cnt s) ps)" using wf by (simp add: wf_def)
  have pos: "\<forall>a\<in>set ps. 1 \<le> cnt s a" using wf by (simp add: wf_def)
  obtain xs a ys where fe: "ps = xs @ a # ys"
     "find_element index s =
       Some (Ret \<lparr>info_node = Some a, info_localIndex = index - sum_list (map (cnt s) xs)\<rparr> s)"
     "sum_list (map (cnt s) xs) \<le> index" "index < sum_list (map (cnt s) xs) + cnt s a"
    using find_element_ok[OF sh, of index] idx sz by auto
  define L where "L = index - sum_list (map (cnt s) xs)"
  have L: "0 \<le> L" "L < cnt s a" using fe by (auto simp: L_def)
  have ain: "a \<in> set ps" using fe by simp
  obtain n where n: "heap s a = Some n" "0 \<le> count n" "count n \<le> asize s"
    "int (length (values n)) = asize s"
    using shape_node[OF sh ain] by blast
  have ca: "cnt s a = count n" using n by (simp add: cnt_def)
  have lX: "int (length (concat (map (seg s) xs))) = sum_list (map (cnt s) xs)"
    using length_concat_segs[OF sh, of xs] fe by auto
  have lS: "int (length (seg s a)) = cnt s a" by (rule length_seg[OF sh ain])
  have idx': "nat index = length (concat (map (seg s) xs)) + nat L"
    by (rule idx_split[OF lX fe(3) L_def])
  have Lle: "nat L \<le> length (seg s a)" using L lS by linarith
  have old: "take (nat index) (concat (map (seg s) ps)) @ v # drop (nat index) (concat (map (seg s) ps)) =
     concat (map (seg s) xs) @ (take (nat L) (seg s a) @ v # drop (nat L) (seg s a)) @
     concat (map (seg s) ys)"
    by (rule insert_list2[OF fe(1) idx' Lle])
  have dist: "distinct (xs @ a # ys)" using sh fe by (simp add: shape_def)
  have ins: "insert_at index (Object v) True s =
      (if count n < asize s then
         (case wr (values n) (count n) v of
            None \<Rightarrow> Some UB
          | Some vs \<Rightarrow>
              Some (shiftUp (Some a) L
                (s\<lparr>heap := (heap s)(a \<mapsto> n\<lparr>values := vs, count := count n + 1\<rparr>),
                    lsize := lsize s + 1\<rparr>)))
       else Some (insert_in_full_node (Some a) L (Object v) True s))"
    using idx fe(2) n(1) small
    by (simp add: insert_at_def bind_loop_def deref_def L_def split: option.split)
  show ?thesis
  proof (cases "count n < asize s")
    case True
    obtain vs s' where r: "wr (values n) (count n) v = Some vs"
       "shiftUp (Some a) L (s\<lparr>heap := (heap s)(a \<mapsto> n\<lparr>values := vs, count := count n + 1\<rparr>),
                         lsize := lsize s + 1\<rparr>) = Ret () s'"
       "shape s' ps"
       "seg s' a = take (nat L) (seg s a) @ v # drop (nat L) (seg s a)"
       "cnt s' a = cnt s a + 1"
       "\<forall>x. x \<noteq> a \<longrightarrow> cont s' x = cont s x"
       "lsize s' = lsize s + 1" "asize s' = asize s"
    proof -
      have "L \<le> count n" using L(2) ca by simp
      from room_insert[OF sh ain n(1) True L(1) this, of v] that show ?thesis by blast
    qed
    have i: "insert_at index (Object v) True s = Some (Ret () s')" using ins True r by simp
    have cx: "\<forall>x\<in>set xs. cont s' x = cont s x" "\<forall>x\<in>set ys. cont s' x = cont s x"
      using r(6) dist by auto
    have sm: "sum_list (map (cnt s') ps) = sum_list (map (cnt s) ps) + 1"
      using sum_cnt_cong[OF cx(1)] sum_cnt_cong[OF cx(2)] r(5) fe(1) by simp
    have ps1: "\<forall>x\<in>set ps. 1 \<le> cnt s' x"
    proof
      fix x assume x: "x \<in> set ps"
      show "1 \<le> cnt s' x"
      proof (cases "x = a")
        case True
        then show ?thesis using r(5) pos ain by auto
      next
        case False
        then have "cont s' x = cont s x" using r(6) by blast
        then have "cnt s' x = cnt s x" by (rule cnt_cong)
        then show ?thesis using pos x by simp
      qed
    qed
    have w: "wf s' ps" using r(3,7) sm sz ps1 by (simp add: wf_def)
    have "concat (map (seg s') ps) =
       concat (map (seg s) xs) @ (take (nat L) (seg s a) @ v # drop (nat L) (seg s a)) @
       concat (map (seg s) ys)"
      using concat_seg_cong[OF cx(1)] concat_seg_cong[OF cx(2)] r(4) fe(1) by simp
    moreover have "\<forall>x\<in>set xs \<union> set ys. seg s' x = seg s x"
      using cx by (auto intro: seg_cong)
    ultimately show ?thesis using i w old r(4,7,8) fe(1,2) True ca
      by (intro exI[of _ s'] exI[of _ ps] exI[of _ xs] exI[of _ a] exI[of _ ys] exI[of _ L])
        (simp add: L_def)
  next
    case False
    then have full: "count n = asize s" using n by simp
    have L2: "L < count n" using L ca by simp
    let ?b = "fresh s"
    obtain s' where r: "insert_in_full_node (Some a) L (Object v) True s = Ret () s'"
       "shape s' (xs @ a # ?b # ys)"
       "seg s' a @ seg s' ?b = take (nat L) (seg s a) @ v # drop (nat L) (seg s a)"
       "1 \<le> cnt s' a" "1 \<le> cnt s' ?b"
       "cnt s' a + cnt s' ?b = cnt s a + 1"
       "\<forall>x. x \<noteq> a \<longrightarrow> x \<noteq> ?b \<longrightarrow> cont s' x = cont s x"
       "lsize s' = lsize s + 1" "asize s' = asize s"
      using insert_in_full_node_ok[OF sh[unfolded fe(1)] n(1) full L(1) L2 small, of v] by blast
    have i: "insert_at index (Object v) True s = Some (Ret () s')" using ins False r by simp
    have bn: "?b \<notin> set (xs @ a # ys)" using shape_fresh_notin[OF sh] fe by simp
    have cx: "\<forall>x\<in>set xs. cont s' x = cont s x" "\<forall>x\<in>set ys. cont s' x = cont s x"
      using r(7) dist bn by auto
    have sm: "sum_list (map (cnt s') (xs @ a # ?b # ys)) = sum_list (map (cnt s) ps) + 1"
      using sum_cnt_cong[OF cx(1)] sum_cnt_cong[OF cx(2)] r(6) fe(1) by simp
    have ps1: "\<forall>x\<in>set (xs @ a # ?b # ys). 1 \<le> cnt s' x"
    proof
      fix x assume x: "x \<in> set (xs @ a # ?b # ys)"
      show "1 \<le> cnt s' x"
      proof (cases "x = a \<or> x = ?b")
        case True
        then show ?thesis using r(4,5) by auto
      next
        case False
        then have "cont s' x = cont s x" using r(7) by blast
        then have "cnt s' x = cnt s x" by (rule cnt_cong)
        moreover have "x \<in> set ps" using x False fe by auto
        ultimately show ?thesis using pos by simp
      qed
    qed
    have w: "wf s' (xs @ a # ?b # ys)" using r(2,8) sm sz ps1 by (simp add: wf_def)
    have "concat (map (seg s') (xs @ a # ?b # ys)) =
       concat (map (seg s) xs) @ (take (nat L) (seg s a) @ v # drop (nat L) (seg s a)) @
       concat (map (seg s) ys)"
      using concat_seg_cong[OF cx(1)] concat_seg_cong[OF cx(2)] r(3) by simp
    moreover have "\<forall>x\<in>set xs \<union> set ys. seg s' x = seg s x"
      using cx by (auto intro: seg_cong)
    ultimately show ?thesis using i w old r(3,8,9) fe(1,2) False ca
      by (intro exI[of _ s'] exI[of _ "xs @ a # ?b # ys"] exI[of _ xs] exI[of _ a] exI[of _ ys]
          exI[of _ L]) (simp add: L_def)
  qed
qed

lemma take_drop_swap: "take k (drop m vs) = drop m (take (m + k) vs)"
  by (simp add: drop_take)

lemma split_seg:
  assumes sh: "shape s (xs @ a # ys)" and c1: "1 \<le> cnt s a"
  shows "\<exists>s'. split (Some a) True s = Ret (Some (fresh s)) s' \<and>
      shape s' (xs @ a # fresh s # ys) \<and>
      cnt s' a = cnt s a - (cnt s a - 1) div 2 \<and> cnt s' (fresh s) = (cnt s a - 1) div 2 \<and>
      seg s' a = take (nat (cnt s a - (cnt s a - 1) div 2)) (seg s a) \<and>
      seg s' (fresh s) = drop (nat (cnt s a - (cnt s a - 1) div 2)) (seg s a) \<and>
      (\<forall>x. x \<noteq> a \<longrightarrow> x \<noteq> fresh s \<longrightarrow> cont s' x = cont s x) \<and>
      lsize s' = lsize s \<and> asize s' = asize s \<and> head s' = head s \<and>
      fresh s' = Suc (fresh s) \<and> nodecount s' = nodecount s + 1 \<and>
      tail s' = (if tail s = Some a then Some (fresh s) else tail s) \<and>
      map_option next (heap s' a) = Some (Some (fresh s)) \<and>
      map_option prev (heap s' (fresh s)) = Some (Some a) \<and>
      map_option next (heap s' (fresh s)) = map_option next (heap s a)"
proof -
  let ?b = "fresh s"
  obtain s' n where r: "heap s a = Some n" "split (Some a) True s = Ret (Some ?b) s'"
      "shape s' (xs @ a # ?b # ys)"
      "cont s' a = Some (count n - (count n - 1) div 2, values n)"
      "cont s' ?b = Some ((count n - 1) div 2,
         take (nat ((count n - 1) div 2)) (drop (nat (count n - (count n - 1) div 2)) (values n)) @
         replicate (nat (asize s) - nat ((count n - 1) div 2)) None)"
      "\<forall>x. x \<noteq> a \<longrightarrow> x \<noteq> ?b \<longrightarrow> cont s' x = cont s x"
      "lsize s' = lsize s" "asize s' = asize s" "head s' = head s"
      "fresh s' = Suc ?b" "nodecount s' = nodecount s + 1"
      "tail s' = (if tail s = Some a then Some ?b else tail s)"
      "map_option next (heap s' a) = Some (Some ?b)"
      "map_option prev (heap s' ?b) = Some (Some a)"
      "map_option next (heap s' ?b) = Some (next n)"
    using split_shape[OF sh c1] by blast
  have ain: "a \<in> set (xs @ a # ys)" by simp
  obtain n0 where n0: "heap s a = Some n0" "0 \<le> count n0" "count n0 \<le> asize s"
    "int (length (values n0)) = asize s"
    using shape_node[OF sh ain] by blast
  have f: "count n \<le> asize s" "int (length (values n)) = asize s" using n0 r(1) by auto
  define c where "c = count n"
  define k where "k = (c - 1) div 2"
  have cc: "cnt s a = c" using r(1) by (simp add: cnt_def c_def)
  have c1': "1 \<le> c" using c1 cc by simp
  have k: "0 \<le> k" "k < c" using c1' by (auto simp: k_def)
  have s0: "seg s a = take (nat c) (values n)"
    using seg_take[of s a c "values n"] r(1) c1' f by (simp add: cont_def c_def)
  have sa: "seg s' a = take (nat (c - k)) (values n)"
    using seg_take[OF r(4)] k f by (simp add: c_def k_def)
  have lk: "length (take (nat k) (drop (nat (c - k)) (values n))) = nat k"
    using k f by (simp add: c_def)
  have "seg s' ?b = take (nat k) (take (nat k) (drop (nat (c - k)) (values n)) @
         replicate (nat (asize s) - nat k) None)"
    using k f lk by (intro seg_take[OF r(5)[folded c_def, folded k_def]]) (auto simp: c_def)
  also have "\<dots> = take (nat k) (drop (nat (c - k)) (values n))" using lk by simp
  also have "\<dots> = drop (nat (c - k)) (take (nat c) (values n))"
  proof -
    have "nat (c - k) + nat k = nat c" using k by simp
    then show ?thesis using take_drop_swap[of "nat k" "nat (c - k)" "values n"] by simp
  qed
  finally have sb: "seg s' ?b = drop (nat (c - k)) (seg s a)" using s0 by simp
  have sa': "seg s' a = take (nat (c - k)) (seg s a)"
    using sa s0 k by (simp add: min_def)
  have ca: "cnt s' a = c - k" using r(4) by (simp add: cnt_cont c_def k_def)
  have cb: "cnt s' ?b = k" using r(5) by (simp add: cnt_cont c_def k_def)
  show ?thesis
    using r(2,3,6-15) sa' sb ca cb r(1) unfolding cc k_def by (intro exI[of _ s']) simp
qed

lemma push_first_value_ok:
  assumes sh: "shape s []" and small: "lsize s < INT_MAX"
  shows "\<exists>s'. push_first_value (Object v) True s = Ret () s' \<and> shape s' [fresh s] \<and>
     seg s' (fresh s) = [v] \<and> cnt s' (fresh s) = 1 \<and> lsize s' = lsize s + 1 \<and>
     asize s' = asize s"
proof -
  let ?b = "fresh s"
  have as: "1 \<le> asize s" using sh by (simp add: shape_def)
  have nc: "nodecount s = 0" using sh by (simp add: shape_def)
  have fr: "\<And>x. fresh s \<le> x \<Longrightarrow> heap s x = None" using sh by (simp add: shape_def)
  define vs where "vs = (replicate (nat (asize s)) None)[0 := v]"
  have w: "wr (replicate (nat (asize s)) None) 0 v = Some vs"
    using as by (simp add: wr_def in_array_def vs_def)
  define s' where "s' = s\<lparr>heap := (heap s)(?b \<mapsto> \<lparr>next = None, prev = None, count = 1, values = vs\<rparr>),
      fresh := Suc ?b, head := Some ?b, tail := Some ?b, lsize := lsize s + 1,
      nodecount := nodecount s + 1\<rparr>"
  have p: "push_first_value (Object v) True s = Ret () s'"
    using w small by (simp add: push_first_value_def new_LNode_def bind_res_def Let_def s'_def)
  have len: "int (length vs) = asize s" using as by (simp add: vs_def)
  have shp: "shape s' [?b]"
    using as nc fr len by (auto simp: shape_def s'_def backlinks_def node_ok_def fits_def)
  have ct: "cont s' ?b = Some (1, vs)" by (simp add: s'_def cont_def)
  have "seg s' ?b = take (nat 1) vs" using len as by (intro seg_take[OF ct]) auto
  also have "\<dots> = [v]"
  proof -
    obtain m where "nat (asize s) = Suc m" using as by (cases "nat (asize s)") auto
    then show ?thesis by (simp add: vs_def)
  qed
  finally have sg: "seg s' ?b = [v]" .
  show ?thesis using p shp sg ct by (auto simp: s'_def cnt_cont)
qed

lemma shape_distinct: "shape s ps \<Longrightarrow> distinct ps"
  by (simp add: shape_def)

lemma wf_same_nodes:
  assumes wf: "wf s (xs @ a # ys)" and sh: "shape s' (xs @ a # ys)"
    and oth: "\<forall>x. x \<noteq> a \<longrightarrow> cont s' x = cont s x"
    and c: "cnt s' a = cnt s a + d" "1 \<le> cnt s' a" and sz: "lsize s' = lsize s + d"
  shows "wf s' (xs @ a # ys) \<and>
     concat (map (seg s') (xs @ a # ys)) =
       concat (map (seg s) xs) @ seg s' a @ concat (map (seg s) ys)"
proof -
  have dist: "distinct (xs @ a # ys)" by (rule shape_distinct[OF sh])
  have cx: "\<forall>x\<in>set xs. cont s' x = cont s x" "\<forall>x\<in>set ys. cont s' x = cont s x"
    using oth dist by auto
  have sm: "sum_list (map (cnt s') (xs @ a # ys)) = sum_list (map (cnt s) (xs @ a # ys)) + d"
    using sum_cnt_cong[OF cx(1)] sum_cnt_cong[OF cx(2)] c(1) by simp
  have pos: "\<forall>x\<in>set (xs @ a # ys). 1 \<le> cnt s x" using wf by (simp add: wf_def)
  have ps1: "\<forall>x\<in>set (xs @ a # ys). 1 \<le> cnt s' x"
  proof
    fix x assume x: "x \<in> set (xs @ a # ys)"
    show "1 \<le> cnt s' x"
    proof (cases "x = a")
      case True
      then show ?thesis using c(2) by simp
    next
      case False
      then have "cont s' x = cont s x" using oth by blast
      then have "cnt s' x = cnt s x" by (rule cnt_cong)
      moreover have "1 \<le> cnt s x" using pos x by blast
      ultimately show ?thesis by simp
    qed
  qed
  have "lsize s = sum_list (map (cnt s) (xs @ a # ys))" using wf by (simp add: wf_def)
  then have w: "wf s' (xs @ a # ys)" using sh sm sz ps1 by (simp add: wf_def)
  have "concat (map (seg s') (xs @ a # ys)) =
       concat (map (seg s) xs) @ seg s' a @ concat (map (seg s) ys)"
    using concat_seg_cong[OF cx(1)] concat_seg_cong[OF cx(2)] by simp
  then show ?thesis using w by simp
qed

lemma wf_split_nodes:
  assumes wf: "wf s (xs @ a # ys)" and sh: "shape s' (xs @ a # b # ys)"
    and oth: "\<forall>x. x \<noteq> a \<longrightarrow> x \<noteq> b \<longrightarrow> cont s' x = cont s x"
    and c: "cnt s' a + cnt s' b = cnt s a + d" "1 \<le> cnt s' a" "1 \<le> cnt s' b"
    and sz: "lsize s' = lsize s + d"
  shows "wf s' (xs @ a # b # ys) \<and>
     concat (map (seg s') (xs @ a # b # ys)) =
       concat (map (seg s) xs) @ seg s' a @ seg s' b @ concat (map (seg s) ys)"
proof -
  have dist: "distinct (xs @ a # b # ys)" by (rule shape_distinct[OF sh])
  have cx: "\<forall>x\<in>set xs. cont s' x = cont s x" "\<forall>x\<in>set ys. cont s' x = cont s x"
    using oth dist by auto
  have sm: "sum_list (map (cnt s') (xs @ a # b # ys)) = sum_list (map (cnt s) (xs @ a # ys)) + d"
    using sum_cnt_cong[OF cx(1)] sum_cnt_cong[OF cx(2)] c(1) by simp
  have pos: "\<forall>x\<in>set (xs @ a # ys). 1 \<le> cnt s x" using wf by (simp add: wf_def)
  have ps1: "\<forall>x\<in>set (xs @ a # b # ys). 1 \<le> cnt s' x"
  proof
    fix x assume x: "x \<in> set (xs @ a # b # ys)"
    show "1 \<le> cnt s' x"
    proof (cases "x = a \<or> x = b")
      case True
      then show ?thesis using c(2,3) by auto
    next
      case False
      then have "cont s' x = cont s x" using oth by blast
      then have "cnt s' x = cnt s x" by (rule cnt_cong)
      moreover have "x \<in> set (xs @ a # ys)" using x False by auto
      then have "1 \<le> cnt s x" using pos by blast
      ultimately show ?thesis by simp
    qed
  qed
  have "lsize s = sum_list (map (cnt s) (xs @ a # ys))" using wf by (simp add: wf_def)
  then have w: "wf s' (xs @ a # b # ys)" using sh sm sz ps1 by (simp add: wf_def)
  have "concat (map (seg s') (xs @ a # b # ys)) =
       concat (map (seg s) xs) @ seg s' a @ seg s' b @ concat (map (seg s) ys)"
    using concat_seg_cong[OF cx(1)] concat_seg_cong[OF cx(2)] by simp
  then show ?thesis using w by simp
qed

lemma shape_Nil: "shape s [] \<Longrightarrow> head s = None \<and> tail s = None"
  by (simp add: shape_def)

lemma shape_head: "shape s (a # ys) \<Longrightarrow> head s = Some a"
  by (simp add: shape_def)

lemma shape_tail: "shape s (xs @ [a]) \<Longrightarrow> tail s = Some a"
  by (simp add: shape_def)

lemma shape_snoc_head: "shape s (xs @ [a]) \<Longrightarrow> head s \<noteq> None"
  by (cases xs) (auto simp: shape_def)

lemma push_back_empty:
  assumes wf: "wf s []"
  shows "push_back (Object v) mem s = push_first_value (Object v) mem s"
  using shape_Nil[OF wfD_shape[OF wf]] by (simp add: push_back_def)

lemma push_first_value_no_memory: "push_first_value (Object v) False s = Throw E_NO_MEMORY s"
  by (simp add: push_first_value_def new_LNode_def bind_res_def)

lemma push_back_full_unfold:
  assumes sh: "shape s (xs @ [a])" and n: "heap s a = Some n" and full: "count n = asize s"
  shows "push_back (Object v) mem s =
     bind_res (split (Some a) mem s) (\<lambda>_ s1. push_back_in_node (tail s1) (Object v) mem s1)"
  using shape_tail[OF sh] shape_snoc_head[OF sh] n full
  by (cases "split (Some a) mem s") (auto simp: push_back_def deref_def bind_res_def)

lemma push_back_room_unfold:
  assumes sh: "shape s (xs @ [a])" and n: "heap s a = Some n" and room: "count n \<noteq> asize s"
  shows "push_back (Object v) mem s = push_back_in_node (Some a) (Object v) mem s"
  using shape_tail[OF sh] shape_snoc_head[OF sh] n room
  by (auto simp: push_back_def deref_def bind_res_def)

lemma push_back_ok:
  assumes wf: "wf s ps" and small: "lsize s < INT_MAX"
  shows "\<exists>s' ps'. push_back (Object v) True s = Ret () s' \<and> wf s' ps' \<and>
     concat (map (seg s') ps') = concat (map (seg s) ps) @ [v] \<and>
     lsize s' = lsize s + 1 \<and> asize s' = asize s"
proof (cases ps rule: rev_cases)
  case Nil
  have sh: "shape s []" using wf Nil by (simp add: wf_def)
  have z: "lsize s = 0" using wf Nil by (simp add: wf_def)
  obtain s' where r: "push_first_value (Object v) True s = Ret () s'" "shape s' [fresh s]"
     "seg s' (fresh s) = [v]" "cnt s' (fresh s) = 1" "lsize s' = lsize s + 1"
     "asize s' = asize s"
    using push_first_value_ok[OF sh small] by blast
  have "wf s' [fresh s]" using r z by (simp add: wf_def)
  then show ?thesis
    using r push_back_empty[OF wf[unfolded Nil]] Nil
    by (intro exI[of _ s'] exI[of _ "[fresh s]"]) simp
next
  case (snoc xs a)
  have sh: "shape s (xs @ [a])" using wf snoc by (simp add: wf_def)
  have wf': "wf s (xs @ a # [])" using wf snoc by simp
  have ain: "a \<in> set (xs @ [a])" by simp
  obtain n where n: "heap s a = Some n" "0 \<le> count n" "count n \<le> asize s"
    "int (length (values n)) = asize s"
    using shape_node[OF sh ain] by blast
  have ca: "cnt s a = count n" using n by (simp add: cnt_def)
  have c1: "1 \<le> cnt s a" using wf snoc by (simp add: wf_def)
  show ?thesis
  proof (cases "count n = asize s")
    case True
    let ?b = "fresh s"
    define k where "k = (cnt s a - 1) div 2"
    have k: "0 \<le> k" "k < cnt s a" using c1 by (auto simp: k_def)
    obtain s1 where s1: "split (Some a) True s = Ret (Some ?b) s1"
      "shape s1 (xs @ a # ?b # [])"
      "cnt s1 a = cnt s a - k" "cnt s1 ?b = k"
      "seg s1 a = take (nat (cnt s a - k)) (seg s a)"
      "seg s1 ?b = drop (nat (cnt s a - k)) (seg s a)"
      "\<forall>x. x \<noteq> a \<longrightarrow> x \<noteq> ?b \<longrightarrow> cont s1 x = cont s x"
      "lsize s1 = lsize s" "asize s1 = asize s"
      "tail s1 = (if tail s = Some a then Some ?b else tail s)"
      using split_seg[of s xs a "[]"] sh c1 unfolding k_def by auto
    have t1: "tail s1 = Some ?b" using s1(10) shape_tail[OF sh] by simp
    have bin: "?b \<in> set (xs @ a # ?b # [])" by simp
    obtain nb where nb: "heap s1 ?b = Some nb" using shape_node[OF s1(2) bin] by blast
    have "count nb = k" using nb s1(4) by (simp add: cnt_def)
    then have room: "count nb < asize s1" using k ca n s1(9) by simp
    have sm1: "lsize s1 < INT_MAX" using s1(8) small by simp
    obtain s2 where s2: "push_back_in_node (Some ?b) (Object v) True s1 = Ret () s2"
      "shape s2 (xs @ a # ?b # [])" "seg s2 ?b = seg s1 ?b @ [v]"
      "cnt s2 ?b = cnt s1 ?b + 1" "\<forall>x. x \<noteq> ?b \<longrightarrow> cont s2 x = cont s1 x"
      "lsize s2 = lsize s1 + 1" "asize s2 = asize s1"
      using push_back_in_node_room[OF s1(2) bin nb room sm1] by blast
    have pb: "push_back (Object v) True s = Ret () s2"
      using push_back_full_unfold[OF sh n(1) True] s1(1) t1 s2(1) by (simp add: bind_res_def)
    have ab: "a \<noteq> ?b" using shape_fresh_notin[OF sh] by auto
    have ca2: "cont s2 a = cont s1 a" using s2(5) ab by blast
    have oth: "\<forall>x. x \<noteq> a \<longrightarrow> x \<noteq> ?b \<longrightarrow> cont s2 x = cont s x"
      using s2(5) s1(7) by simp
    have cs: "cnt s2 a + cnt s2 ?b = cnt s a + 1"
      using cnt_cong[OF ca2] s1(3,4) s2(4) by simp
    have p1: "1 \<le> cnt s2 a" "1 \<le> cnt s2 ?b"
      using cnt_cong[OF ca2] s1(3,4) s2(4) k by auto
    have sz: "lsize s2 = lsize s + 1" using s2(6) s1(8) by simp
    have w: "wf s2 (xs @ a # ?b # [])"
      "concat (map (seg s2) (xs @ a # ?b # [])) =
        concat (map (seg s) xs) @ seg s2 a @ seg s2 ?b @ concat (map (seg s) [])"
      using wf_split_nodes[OF wf' s2(2) oth cs p1 sz] by auto
    have "seg s2 a @ seg s2 ?b = seg s a @ [v]"
      using seg_cong[OF ca2] s1(5,6) s2(3) by simp
    then have "concat (map (seg s2) (xs @ a # ?b # [])) = concat (map (seg s) ps) @ [v]"
      using w(2) snoc by simp
    then show ?thesis
      using pb w(1) sz s2(7) s1(9) by (intro exI[of _ s2] exI[of _ "xs @ a # ?b # []"]) simp
  next
    case False
    then have room: "count n < asize s" using n by simp
    obtain s' where r: "push_back_in_node (Some a) (Object v) True s = Ret () s'"
      "shape s' (xs @ [a])" "seg s' a = seg s a @ [v]"
      "cnt s' a = cnt s a + 1" "\<forall>x. x \<noteq> a \<longrightarrow> cont s' x = cont s x"
      "lsize s' = lsize s + 1" "asize s' = asize s"
      using push_back_in_node_room[OF sh ain n(1) room small] by blast
    have pb: "push_back (Object v) True s = Ret () s'"
      using push_back_room_unfold[OF sh n(1) False] r(1) by simp
    have p1: "1 \<le> cnt s' a" using r(4) c1 by simp
    have w: "wf s' (xs @ a # [])"
      "concat (map (seg s') (xs @ a # [])) =
        concat (map (seg s) xs) @ seg s' a @ concat (map (seg s) [])"
      using wf_same_nodes[OF wf' _ r(5,4) p1 r(6)] r(2) by auto
    have "concat (map (seg s') (xs @ [a])) = concat (map (seg s) ps) @ [v]"
      using w(2) r(3) snoc by simp
    then show ?thesis
      using pb w(1) r(6,7) snoc by (intro exI[of _ s'] exI[of _ "xs @ [a]"]) simp
  qed
qed

lemma shiftUp_head: "shiftUp p L s = Ret u s1 \<Longrightarrow> head s1 = head s"
  by (auto simp: shiftUp_def split: option.splits)

lemma push_front_full_unfold:
  assumes h: "head s = Some a" and n: "heap s a = Some n" and full: "count n = asize s"
  shows "push_front (Object v) mem s = insert_in_full_node (Some a) 0 (Object v) mem s"
proof (cases "shiftUp (Some a) 0 s")
  case (Ret u s1)
  then show ?thesis
    using h n full shiftUp_head[OF Ret]
    by (simp add: push_front_def insert_in_full_node_def deref_def bind_res_def
        split: option.split)
next
  case (Throw e s1)
  then show ?thesis
    using h n full by (simp add: push_front_def insert_in_full_node_def deref_def bind_res_def)
next
  case UB
  then show ?thesis
    using h n full by (simp add: push_front_def insert_in_full_node_def deref_def bind_res_def)
qed

lemma push_front_room_unfold:
  assumes h: "head s = Some a" and n: "heap s a = Some n" and room: "count n \<noteq> asize s"
    and small: "lsize s < INT_MAX"
  shows "push_front (Object v) mem s =
     (case wr (values n) (count n) v of
        None \<Rightarrow> UB
      | Some vs \<Rightarrow>
          shiftUp (Some a) 0
            (s\<lparr>heap := (heap s)(a \<mapsto> n\<lparr>values := vs, count := count n + 1\<rparr>),
               lsize := lsize s + 1\<rparr>))"
  using h n room small by (simp add: push_front_def deref_def split: option.split)

lemma push_front_empty:
  assumes wf: "wf s []"
  shows "push_front (Object v) mem s = push_first_value (Object v) mem s"
  using shape_Nil[OF wfD_shape[OF wf]] by (simp add: push_front_def)

lemma push_front_ok:
  assumes wf: "wf s ps" and small: "lsize s < INT_MAX"
  shows "\<exists>s' ps'. push_front (Object v) True s = Ret () s' \<and> wf s' ps' \<and>
     concat (map (seg s') ps') = v # concat (map (seg s) ps) \<and>
     lsize s' = lsize s + 1 \<and> asize s' = asize s"
proof (cases ps)
  case Nil
  have sh: "shape s []" using wf Nil by (simp add: wf_def)
  have z: "lsize s = 0" using wf Nil by (simp add: wf_def)
  obtain s' where r: "push_first_value (Object v) True s = Ret () s'" "shape s' [fresh s]"
     "seg s' (fresh s) = [v]" "cnt s' (fresh s) = 1" "lsize s' = lsize s + 1"
     "asize s' = asize s"
    using push_first_value_ok[OF sh small] by blast
  have "wf s' [fresh s]" using r z by (simp add: wf_def)
  then show ?thesis
    using r push_front_empty[OF wf[unfolded Nil]] Nil
    by (intro exI[of _ s'] exI[of _ "[fresh s]"]) simp
next
  case (Cons a ys)
  have sh: "shape s ([] @ a # ys)" using wf Cons by (simp add: wf_def)
  have wf': "wf s ([] @ a # ys)" using wf Cons by simp
  have ain: "a \<in> set ([] @ a # ys)" by simp
  have h: "head s = Some a" using sh by (simp add: shape_def)
  obtain n where n: "heap s a = Some n" "0 \<le> count n" "count n \<le> asize s"
    "int (length (values n)) = asize s"
    using shape_node[OF sh ain] by blast
  have ca: "cnt s a = count n" using n by (simp add: cnt_def)
  have c1: "1 \<le> cnt s a" using wf Cons by (simp add: wf_def)
  show ?thesis
  proof (cases "count n = asize s")
    case True
    let ?b = "fresh s"
    have L: "(0::int) \<le> 0" "0 < count n" using c1 ca by auto
    obtain s' where r: "insert_in_full_node (Some a) 0 (Object v) True s = Ret () s'"
       "shape s' ([] @ a # ?b # ys)"
       "seg s' a @ seg s' ?b = take (nat 0) (seg s a) @ v # drop (nat 0) (seg s a)"
       "1 \<le> cnt s' a" "1 \<le> cnt s' ?b"
       "cnt s' a + cnt s' ?b = cnt s a + 1"
       "\<forall>x. x \<noteq> a \<longrightarrow> x \<noteq> ?b \<longrightarrow> cont s' x = cont s x"
       "lsize s' = lsize s + 1" "asize s' = asize s"
      using insert_in_full_node_ok[OF sh n(1) True L small, of v] by blast
    have pf: "push_front (Object v) True s = Ret () s'"
      using push_front_full_unfold[OF h n(1) True] r(1) by simp
    have w: "wf s' ([] @ a # ?b # ys)"
      "concat (map (seg s') ([] @ a # ?b # ys)) =
        concat (map (seg s) []) @ seg s' a @ seg s' ?b @ concat (map (seg s) ys)"
      using wf_split_nodes[OF wf' r(2) r(7) r(6) r(4) r(5) r(8)] by auto
    have "concat (map (seg s') (a # ?b # ys)) = v # concat (map (seg s) ps)"
      using w(2) r(3) Cons by simp
    then show ?thesis
      using pf w(1) r(8,9) by (intro exI[of _ s'] exI[of _ "a # ?b # ys"]) simp
  next
    case False
    then have room: "count n < asize s" using n by simp
    obtain vs s' where r: "wr (values n) (count n) v = Some vs"
       "shiftUp (Some a) 0 (s\<lparr>heap := (heap s)(a \<mapsto> n\<lparr>values := vs, count := count n + 1\<rparr>),
                         lsize := lsize s + 1\<rparr>) = Ret () s'"
       "shape s' ([] @ a # ys)"
       "seg s' a = take (nat 0) (seg s a) @ v # drop (nat 0) (seg s a)"
       "cnt s' a = cnt s a + 1"
       "\<forall>x. x \<noteq> a \<longrightarrow> cont s' x = cont s x"
       "lsize s' = lsize s + 1" "asize s' = asize s"
      using room_insert[where L=0 and v=v, OF sh ain n(1) room] n(2) by auto
    have pf: "push_front (Object v) True s = Ret () s'"
      using push_front_room_unfold[OF h n(1) False small] r(1,2) by simp
    have p1: "1 \<le> cnt s' a" using r(5) c1 by simp
    have w: "wf s' ([] @ a # ys)"
      "concat (map (seg s') ([] @ a # ys)) =
        concat (map (seg s) []) @ seg s' a @ concat (map (seg s) ys)"
      using wf_same_nodes[OF wf' r(3) r(6) r(5) p1 r(7)] by auto
    have "concat (map (seg s') (a # ys)) = v # concat (map (seg s) ps)"
      using w(2) r(4) Cons by simp
    then show ?thesis
      using pf w(1) r(7,8) Cons by (intro exI[of _ s'] exI[of _ "a # ys"]) simp
  qed
qed

subsection \<open>Allocation failure\<close>

lemma push_back_no_memory_full:
  assumes sh: "shape s (xs @ [a])" and full: "cnt s a = asize s"
  shows "push_back (Object v) False s = Throw E_NO_MEMORY s"
proof -
  obtain n where n: "heap s a = Some n" using shape_node[OF sh, of a] by auto
  have "count n = asize s" using full n by (simp add: cnt_def)
  from push_back_full_unfold[OF sh n this] show ?thesis
    by (simp add: split_no_memory[OF n] bind_res_def)
qed

lemma overwritten_node:
  assumes sh: "shape s ps" and a: "a \<in> set ps" and n: "heap s a = Some n"
    and full: "count n = asize s" and L: "0 \<le> L" "L < count n"
    and s': "s' = s\<lparr>heap := (heap s)(a \<mapsto> n\<lparr>values :=
            take (nat L) (values n) @ v # butlast (drop (nat L) (values n))\<rparr>)\<rparr>"
  shows "shape s' ps \<and> (\<forall>x. cnt s' x = cnt s x) \<and> (\<forall>x. x \<noteq> a \<longrightarrow> cont s' x = cont s x) \<and>
     seg s' a = take (nat L) (seg s a) @ v # butlast (drop (nat L) (seg s a)) \<and>
     lsize s' = lsize s \<and> nodecount s' = nodecount s \<and> head s' = head s \<and>
     tail s' = tail s \<and> asize s' = asize s"
proof -
  obtain n0 where n0: "heap s a = Some n0" "0 \<le> count n0" "count n0 \<le> asize s"
    "int (length (values n0)) = asize s"
    using shape_node[OF sh a] by blast
  have f: "int (length (values n)) = count n" using n0 n full by auto
  define v2 where "v2 = take (nat L) (values n) @ v # butlast (drop (nat L) (values n))"
  have len2: "int (length v2) = count n" using L f by (auto simp: v2_def)
  have s': "s' = s\<lparr>heap := (heap s)(a \<mapsto> n\<lparr>values := v2\<rparr>)\<rparr>" by (simp add: s' v2_def)
  have shp: "shape s' ps"
    unfolding s' by (rule shape_update[OF sh n]) (use len2 full L in auto)
  have ct: "cont s' a = Some (count n, v2)" by (simp add: s' cont_def)
  have sg0: "seg s a = values n"
    using seg_take[of s a "count n" "values n"] n f L by (simp add: cont_def)
  have "seg s' a = take (nat (count n)) v2" using len2 L by (intro seg_take[OF ct]) auto
  then have sg: "seg s' a = v2" using len2 by simp
  have "\<forall>x. cnt s' x = cnt s x" using n by (simp add: s' cnt_def)
  moreover have "\<forall>x. x \<noteq> a \<longrightarrow> cont s' x = cont s x" by (simp add: s' cont_def)
  ultimately show ?thesis using shp sg sg0 by (simp add: s' v2_def)
qed

lemma wf_cnt_same:
  assumes "wf s ps" "shape s' ps" "\<forall>x. cnt s' x = cnt s x" "lsize s' = lsize s"
  shows "wf s' ps"
proof -
  have "cnt s' = cnt s" using assms(3) by (intro ext) simp
  then show ?thesis using assms(1,2,4) by (simp add: wf_def)
qed

lemma insert_at_full_no_memory:
  assumes wf: "wf s ps" and idx: "0 < index" "index < lsize s"
    and fe: "find_element index s = Some (Ret \<lparr>info_node = Some a, info_localIndex = L\<rparr> s)"
    and full: "cnt s a = asize s"
  shows "\<exists>n. heap s a = Some n \<and> a \<in> set ps \<and> count n = asize s \<and> 0 \<le> L \<and> L < count n \<and>
     insert_at index (Object v) False s =
       Some (Throw E_NO_MEMORY (s\<lparr>heap := (heap s)(a \<mapsto> n\<lparr>values :=
            take (nat L) (values n) @ v # butlast (drop (nat L) (values n))\<rparr>)\<rparr>))"
proof -
  have sh: "shape s ps" using wf by (simp add: wf_def)
  have sz: "lsize s = sum_list (map (cnt s) ps)" using wf by (simp add: wf_def)
  obtain xs a' ys where r: "ps = xs @ a' # ys"
     "find_element index s =
       Some (Ret \<lparr>info_node = Some a', info_localIndex = index - sum_list (map (cnt s) xs)\<rparr> s)"
     "sum_list (map (cnt s) xs) \<le> index" "index < sum_list (map (cnt s) xs) + cnt s a'"
    using find_element_ok[OF sh, of index] idx sz by auto
  have e: "a' = a" "L = index - sum_list (map (cnt s) xs)" using r(2) fe by auto
  have ain: "a \<in> set ps" using r(1) e by simp
  obtain n where n: "heap s a = Some n" using shape_node[OF sh ain] by blast
  have c: "count n = asize s" using full n by (simp add: cnt_def)
  have L: "0 \<le> L" "L < count n" using r(3,4) e n by (auto simp: cnt_def)
  have "insert_at index (Object v) False s = Some (insert_in_full_node (Some a) L (Object v) False s)"
    using idx fe n c by (simp add: insert_at_def bind_loop_def deref_def)
  then show ?thesis
    using insert_in_full_node_no_memory[OF sh ain n c L, of v] n ain c L by simp
qed

lemma push_front_full_no_memory:
  assumes sh: "shape s (a # ys)" and full: "cnt s a = asize s"
  shows "\<exists>n. heap s a = Some n \<and> count n = asize s \<and> 0 < count n \<and>
     push_front (Object v) False s =
       Throw E_NO_MEMORY (s\<lparr>heap := (heap s)(a \<mapsto> n\<lparr>values :=
            take (nat 0) (values n) @ v # butlast (drop (nat 0) (values n))\<rparr>)\<rparr>)"
proof -
  have ain: "a \<in> set (a # ys)" by simp
  obtain n where n: "heap s a = Some n" using shape_node[OF sh ain] by blast
  have c: "count n = asize s" using full n by (simp add: cnt_def)
  have p: "0 < count n" using c shape_asize_pos[OF sh] by simp
  have h: "head s = Some a" by (rule shape_head[OF sh])
  show ?thesis
    using push_front_full_unfold[OF h n c, of v False]
      insert_in_full_node_no_memory[where L=0 and v=v, OF sh ain n c _ p] n c p by simp
qed

subsection \<open>Removal\<close>

lemma shiftDown_Ret:
  assumes "heap s a = Some n" "values n = A @ x # C @ E" "localIndex = int (length A)"
    "count n = localIndex + 1 + int (length C)"
  shows "shiftDown (Some a) localIndex s =
     Ret () (s\<lparr>heap := (heap s)(a \<mapsto> n\<lparr>values := A @ C @ rd E 0 # E\<rparr>)\<rparr>)"
  using shiftDown_loop_shift[OF assms(2-4)] assms(1) by (simp add: shiftDown_def)

lemma shiftDown_head: "shiftDown p L s = Ret u s1 \<Longrightarrow> head s1 = head s"
  by (auto simp: shiftDown_def split: option.splits prod.splits)

lemma wf_delete_node:
  assumes wf: "wf s (xs @ a # ys)" and sh: "shape s' (xs @ ys)"
    and oth: "\<forall>x. x \<noteq> a \<longrightarrow> cont s' x = cont s x"
    and c: "cnt s a = 1" and sz: "lsize s' = lsize s - 1"
  shows "wf s' (xs @ ys) \<and>
     concat (map (seg s') (xs @ ys)) = concat (map (seg s) xs) @ concat (map (seg s) ys)"
proof -
  have dist: "distinct (xs @ a # ys)" by (rule shape_distinct[OF wfD_shape[OF wf]])
  have cx: "\<forall>x\<in>set xs. cont s' x = cont s x" "\<forall>x\<in>set ys. cont s' x = cont s x"
    using oth dist by auto
  have sm: "sum_list (map (cnt s') (xs @ ys)) = sum_list (map (cnt s) (xs @ a # ys)) - 1"
    using sum_cnt_cong[OF cx(1)] sum_cnt_cong[OF cx(2)] c by simp
  have pos: "\<forall>x\<in>set (xs @ a # ys). 1 \<le> cnt s x" using wf by (simp add: wf_def)
  have ps1: "\<forall>x\<in>set (xs @ ys). 1 \<le> cnt s' x"
  proof
    fix x assume x: "x \<in> set (xs @ ys)"
    then have "x \<noteq> a" using dist by auto
    then have "cont s' x = cont s x" using oth by blast
    then have "cnt s' x = cnt s x" by (rule cnt_cong)
    moreover have "x \<in> set (xs @ a # ys)" using x by auto
    then have "1 \<le> cnt s x" using pos by blast
    ultimately show "1 \<le> cnt s' x" by simp
  qed
  have "lsize s = sum_list (map (cnt s) (xs @ a # ys))" using wf by (simp add: wf_def)
  then have w: "wf s' (xs @ ys)" using sh sm sz ps1 by (simp add: wf_def)
  have "concat (map (seg s') (xs @ ys)) = concat (map (seg s) xs) @ concat (map (seg s) ys)"
    using concat_seg_cong[OF cx(1)] concat_seg_cong[OF cx(2)] by simp
  then show ?thesis using w by simp
qed

text \<open>
  What \<^verbatim>\<open>erase\<close> and \<^verbatim>\<open>pop_front\<close> do once they have the node: shift down, decrement
  the counts, delete the node if it is empty.
\<close>

lemma node_remove:
  assumes wf: "wf s (xs @ a # ys)" and n: "heap s a = Some n" and L: "0 \<le> L" "L < count n"
  shows "\<exists>s' ps'.
     bind_res (shiftDown (Some a) L s) (\<lambda>_ s2.
        case deref s2 (Some a) of
          None \<Rightarrow> UB
        | Some (a', n2) \<Rightarrow>
            (let s3 = s2\<lparr>heap := (heap s2)(a' \<mapsto> n2\<lparr>count := count n2 - 1\<rparr>),
                         lsize := lsize s2 - 1\<rparr>
             in if count n2 - 1 = 0 then deleteNode (Some a) s3 else Ret () s3)) = Ret () s' \<and>
     wf s' ps' \<and>
     ps' = (if count n = 1 then xs @ ys else xs @ a # ys) \<and>
     concat (map (seg s') ps') =
       concat (map (seg s) xs) @ (take (nat L) (seg s a) @ drop (Suc (nat L)) (seg s a)) @
       concat (map (seg s) ys) \<and>
     lsize s' = lsize s - 1 \<and> asize s' = asize s"
proof -
  let ?ps = "xs @ a # ys"
  have sh: "shape s ?ps" by (rule wfD_shape[OF wf])
  have ain: "a \<in> set ?ps" by simp
  obtain n0 where n0: "heap s a = Some n0" "0 \<le> count n0" "count n0 \<le> asize s"
    "int (length (values n0)) = asize s"
    using shape_node[OF sh ain] by blast
  have f: "count n \<le> asize s" "int (length (values n)) = asize s" using n0 n by auto
  define c where "c = nat (count n)"
  define l where "l = nat L"
  have cl: "l < c" "c \<le> length (values n)" "count n = int c" "L = int l"
    using L f by (auto simp: c_def l_def)
  let ?A = "take l (values n)"
  let ?C = "take (c - Suc l) (drop (Suc l) (values n))"
  let ?E = "drop c (values n)"
  have v: "values n = ?A @ (values n ! l) # ?C @ ?E"
  proof -
    have "drop (Suc l) (values n) = ?C @ drop (c - Suc l) (drop (Suc l) (values n))"
      by (simp only: append_take_drop_id)
    also have "drop (c - Suc l) (drop (Suc l) (values n)) = ?E" using cl by simp
    finally have "drop (Suc l) (values n) = ?C @ ?E" .
    then show ?thesis using cl by (metis id_take_nth_drop less_le_trans)
  qed
  define v2 where "v2 = ?A @ ?C @ rd ?E 0 # ?E"
  have lA: "L = int (length ?A)" using cl by simp
  have lC: "count n = L + 1 + int (length ?C)" using cl by simp
  define s2 where "s2 = s\<lparr>heap := (heap s)(a \<mapsto> n\<lparr>values := v2\<rparr>)\<rparr>"
  have sd: "shiftDown (Some a) L s = Ret () s2"
    unfolding s2_def v2_def by (rule shiftDown_Ret[OF n v lA lC])
  have len2: "length v2 = length (values n)" using cl by (simp add: v2_def)
  define n3 where "n3 = n\<lparr>values := v2, count := count n - 1\<rparr>"
  define s3 where "s3 = (s\<lparr>heap := (heap s)(a \<mapsto> n3)\<rparr>)\<lparr>lsize := lsize s - 1\<rparr>"
  have sel: "count (n\<lparr>values := v2\<rparr>) = count n" by simp
  have s3eq: "s2\<lparr>heap := (heap s2)(a \<mapsto> (n\<lparr>values := v2\<rparr>)\<lparr>count := count n - 1\<rparr>),
          lsize := lsize s2 - 1\<rparr> = s3"
    unfolding s2_def s3_def n3_def by (cases s; cases n) simp
  have d2: "deref s2 (Some a) = Some (a, n\<lparr>values := v2\<rparr>)" by (simp add: deref_def s2_def)
  have e0: "bind_res (shiftDown (Some a) L s) (\<lambda>_ s2.
        case deref s2 (Some a) of
          None \<Rightarrow> UB
        | Some (a', n2) \<Rightarrow>
            (let s3 = s2\<lparr>heap := (heap s2)(a' \<mapsto> n2\<lparr>count := count n2 - 1\<rparr>),
                         lsize := lsize s2 - 1\<rparr>
             in if count n2 - 1 = 0 then deleteNode (Some a) s3 else Ret () s3)) =
        (if count n - 1 = 0 then deleteNode (Some a) s3 else Ret () s3)"
    unfolding sd
    by (simp only: bind_res_def res.case d2 option.case prod.case Let_def sel s3eq)
  have e: "bind_res (shiftDown (Some a) L s) (\<lambda>_ s2.
        case deref s2 (Some a) of
          None \<Rightarrow> UB
        | Some (a', n2) \<Rightarrow>
            (let s3 = s2\<lparr>heap := (heap s2)(a' \<mapsto> n2\<lparr>count := count n2 - 1\<rparr>),
                         lsize := lsize s2 - 1\<rparr>
             in if count n2 - 1 = 0 then deleteNode (Some a) s3 else Ret () s3)) =
        (if count n = 1 then deleteNode (Some a) s3 else Ret () s3)"
    unfolding e0 by simp
  have sh3: "shape s3 ?ps"
    unfolding s3_def shape_lsize n3_def
    by (rule shape_update[OF sh n]) (use f len2 L in auto)
  have ct3: "cont s3 a = Some (count n - 1, v2)" by (simp add: s3_def n3_def cont_def)
  have oth3: "\<forall>x. x \<noteq> a \<longrightarrow> cont s3 x = cont s x" by (simp add: s3_def cont_def)
  have sg0: "seg s a = take c (values n)"
    using seg_take[of s a "count n" "values n"] n f L by (simp add: cont_def c_def)
  have "take (c - 1) v2 = ?A @ ?C"
  proof -
    have "length (?A @ ?C) = c - 1" using cl by simp
    then have "take (c - 1) ((?A @ ?C) @ rd ?E 0 # ?E) = ?A @ ?C"
      by (metis append_eq_conv_conj)
    then show ?thesis by (simp add: v2_def)
  qed
  moreover have "seg s3 a = take (nat (count n - 1)) v2"
    using f L len2 by (intro seg_take[OF ct3]) auto
  moreover have "nat (count n - 1) = c - 1" using cl by simp
  moreover have "?A @ ?C = take l (take c (values n)) @ drop (Suc l) (take c (values n))"
    using cl by (simp add: drop_take min_def)
  ultimately have sg3: "seg s3 a = take (nat L) (seg s a) @ drop (Suc (nat L)) (seg s a)"
    using sg0 by (simp add: l_def)
  have c3: "cnt s3 a = cnt s a - 1" using n by (simp add: s3_def n3_def cnt_def)
  have ca: "cnt s a = count n" using n by (simp add: cnt_def)
  have sz3: "lsize s3 = lsize s - 1" "asize s3 = asize s" by (simp_all add: s3_def)
  show ?thesis
  proof (cases "count n = 1")
    case True
    obtain s' where d: "deleteNode (Some a) s3 = Ret () s'" "shape s' (xs @ ys)"
      "\<forall>x. x \<noteq> a \<longrightarrow> cont s' x = cont s3 x" "lsize s' = lsize s3" "asize s' = asize s3"
      using deleteNode_shape[OF sh3] by blast
    have oth: "\<forall>x. x \<noteq> a \<longrightarrow> cont s' x = cont s x" using d(3) oth3 by simp
    have w: "wf s' (xs @ ys)"
      "concat (map (seg s') (xs @ ys)) = concat (map (seg s) xs) @ concat (map (seg s) ys)"
      using wf_delete_node[OF wf d(2) oth] ca True d(4) sz3 by auto
    have "length (seg s a) = 1" using length_seg[OF sh ain] ca True by simp
    then have "take (nat L) (seg s a) @ drop (Suc (nat L)) (seg s a) = []"
      using L True by (cases "seg s a") auto
    then show ?thesis
      using e True d(1) w d(4,5) sz3 by (intro exI[of _ s'] exI[of _ "xs @ ys"]) simp
  next
    case False
    then have p: "1 \<le> cnt s3 a" using c3 ca L by simp
    have c3': "cnt s3 a = cnt s a + (- 1)" using c3 by simp
    have sz3': "lsize s3 = lsize s + (- 1)" using sz3 by simp
    have w: "wf s3 ?ps"
      "concat (map (seg s3) ?ps) = concat (map (seg s) xs) @ seg s3 a @ concat (map (seg s) ys)"
      using wf_same_nodes[OF wf sh3 oth3 c3' p sz3'] by auto
    show ?thesis
      using e False w sg3 sz3 by (intro exI[of _ s3] exI[of _ ?ps]) simp
  qed
qed

lemma pop_front_unfold:
  assumes h: "head s = Some a"
  shows "pop_front s =
     bind_res (shiftDown (Some a) 0 s) (\<lambda>_ s2.
        case deref s2 (Some a) of
          None \<Rightarrow> UB
        | Some (a', n2) \<Rightarrow>
            (let s3 = s2\<lparr>heap := (heap s2)(a' \<mapsto> n2\<lparr>count := count n2 - 1\<rparr>),
                         lsize := lsize s2 - 1\<rparr>
             in if count n2 - 1 = 0 then deleteNode (Some a) s3 else Ret () s3))"
proof (cases "shiftDown (Some a) 0 s")
  case (Ret u s1)
  then show ?thesis
    using h shiftDown_head[OF Ret]
    by (simp add: pop_front_def bind_res_def Let_def split: option.split prod.split)
next
  case (Throw e s1)
  then show ?thesis using h by (simp add: pop_front_def bind_res_def)
next
  case UB
  then show ?thesis using h by (simp add: pop_front_def bind_res_def)
qed

lemma pop_front_ok:
  assumes wf: "wf s ps"
  shows "\<exists>s' ps'. pop_front s = Ret () s' \<and> wf s' ps' \<and>
     concat (map (seg s') ps') = drop 1 (concat (map (seg s) ps)) \<and>
     lsize s' = (if ps = [] then lsize s else lsize s - 1) \<and> asize s' = asize s"
proof (cases ps)
  case Nil
  then have "head s = None" using shape_Nil[OF wfD_shape[OF wf[unfolded Nil]]] by simp
  then have "pop_front s = Ret () s" by (simp add: pop_front_def)
  then show ?thesis using wf Nil by (intro exI[of _ s] exI[of _ ps]) simp
next
  case (Cons a ys)
  have wf': "wf s ([] @ a # ys)" using wf Cons by simp
  have sh: "shape s (a # ys)" using wfD_shape[OF wf] Cons by simp
  have h: "head s = Some a" by (rule shape_head[OF sh])
  have ain: "a \<in> set (a # ys)" by simp
  obtain n where n: "heap s a = Some n" using shape_node[OF sh ain] by blast
  have c1: "1 \<le> cnt s a" using wf Cons by (simp add: wf_def)
  then have L: "(0::int) \<le> 0" "0 < count n" using n by (auto simp: cnt_def)
  obtain s' ps' where r:
     "bind_res (shiftDown (Some a) 0 s) (\<lambda>_ s2.
        case deref s2 (Some a) of
          None \<Rightarrow> UB
        | Some (a', n2) \<Rightarrow>
            (let s3 = s2\<lparr>heap := (heap s2)(a' \<mapsto> n2\<lparr>count := count n2 - 1\<rparr>),
                         lsize := lsize s2 - 1\<rparr>
             in if count n2 - 1 = 0 then deleteNode (Some a) s3 else Ret () s3)) = Ret () s'"
     "wf s' ps'"
     "concat (map (seg s') ps') =
       concat (map (seg s) []) @ (take (nat 0) (seg s a) @ drop (Suc (nat 0)) (seg s a)) @
       concat (map (seg s) ys)"
     "lsize s' = lsize s - 1" "asize s' = asize s"
    using node_remove[OF wf' n L] by blast
  have "pop_front s = Ret () s'" using pop_front_unfold[OF h] r(1) by simp
  moreover have "concat (map (seg s') ps') = drop 1 (concat (map (seg s) ps))"
  proof -
    have "int (length (seg s a)) = cnt s a" by (rule length_seg[OF sh ain])
    then have "seg s a \<noteq> []" using c1 by auto
    then show ?thesis using r(3) Cons by (cases "seg s a") auto
  qed
  ultimately show ?thesis using r(2,4,5) Cons by (intro exI[of _ s'] exI[of _ ps']) simp
qed

lemma pop_back_empty: "wf s [] \<Longrightarrow> pop_back s = UB"
  using shape_Nil[OF wfD_shape, of s] by (simp add: pop_back_def deref_def)

lemma pop_back_ok:
  assumes wf: "wf s ps" and ne: "ps \<noteq> []"
  shows "\<exists>s' ps'. pop_back s = Ret () s' \<and> wf s' ps' \<and>
     concat (map (seg s') ps') = butlast (concat (map (seg s) ps)) \<and>
     lsize s' = lsize s - 1 \<and> asize s' = asize s"
proof -
  obtain xs a where ps: "ps = xs @ [a]" using ne by (cases ps rule: rev_cases) auto
  have wf': "wf s (xs @ a # [])" using wf ps by simp
  have sh: "shape s (xs @ a # [])" using wfD_shape[OF wf'] .
  have t: "tail s = Some a" using shape_tail[of s xs a] sh by simp
  have ain: "a \<in> set (xs @ a # [])" by simp
  obtain n where n: "heap s a = Some n" "0 \<le> count n" "count n \<le> asize s"
    "int (length (values n)) = asize s"
    using shape_node[OF sh ain] by blast
  have ca: "cnt s a = count n" using n by (simp add: cnt_def)
  have c1: "1 \<le> cnt s a" using wf ps by (simp add: wf_def)
  define s1 where "s1 = (s\<lparr>heap := (heap s)(a \<mapsto> n\<lparr>count := count n - 1\<rparr>)\<rparr>)\<lparr>lsize := lsize s - 1\<rparr>"
  have s1eq: "s\<lparr>heap := (heap s)(a \<mapsto> n\<lparr>count := count n - 1\<rparr>), lsize := lsize s - 1\<rparr> = s1"
    by (simp add: s1_def)
  have t1: "tail s1 = Some a" using t by (simp add: s1_def)
  have d: "deref s (tail s) = Some (a, n)" using t n(1) by (simp add: deref_def)
  have e0: "pop_back s = (if count n - 1 = 0 then deleteNode (Some a) s1 else Ret () s1)"
    unfolding pop_back_def by (simp only: d option.case prod.case Let_def s1eq t1)
  have e: "pop_back s = (if count n = 1 then deleteNode (Some a) s1 else Ret () s1)"
    unfolding e0 by simp
  have sh1: "shape s1 (xs @ a # [])"
    unfolding s1_def shape_lsize
    by (rule shape_update[OF sh n(1)]) (use n c1 ca in auto)
  have ct1: "cont s1 a = Some (count n - 1, values n)" by (simp add: s1_def cont_def)
  have oth1: "\<forall>x. x \<noteq> a \<longrightarrow> cont s1 x = cont s x" by (simp add: s1_def cont_def)
  have sg0: "seg s a = take (nat (count n)) (values n)"
    using seg_take[of s a "count n" "values n"] n by (simp add: cont_def)
  have "seg s1 a = take (nat (count n - 1)) (values n)"
    using n c1 ca by (intro seg_take[OF ct1]) auto
  also have "\<dots> = butlast (seg s a)"
  proof -
    have "nat (count n - 1) = nat (count n) - 1" by simp
    moreover have "nat (count n) \<le> length (values n)" using n by linarith
    ultimately show ?thesis unfolding sg0 by (simp add: butlast_take)
  qed
  finally have sg1: "seg s1 a = butlast (seg s a)" .
  have ne': "seg s a \<noteq> []" using length_seg[OF sh ain] c1 by auto
  have bl: "butlast (concat (map (seg s) ps)) = concat (map (seg s) xs) @ butlast (seg s a)"
    using ne' ps by (simp add: butlast_append)
  have sz1: "lsize s1 = lsize s - 1" "asize s1 = asize s" by (simp_all add: s1_def)
  have c1': "cnt s1 a = cnt s a + (- 1)" using n by (simp add: s1_def cnt_def)
  have sz1': "lsize s1 = lsize s + (- 1)" using sz1 by simp
  show ?thesis
  proof (cases "count n = 1")
    case True
    obtain s' where d: "deleteNode (Some a) s1 = Ret () s'" "shape s' (xs @ [])"
      "\<forall>x. x \<noteq> a \<longrightarrow> cont s' x = cont s1 x" "lsize s' = lsize s1" "asize s' = asize s1"
      using deleteNode_shape[OF sh1] by blast
    have oth: "\<forall>x. x \<noteq> a \<longrightarrow> cont s' x = cont s x" using d(3) oth1 by simp
    have w: "wf s' (xs @ [])"
      "concat (map (seg s') (xs @ [])) = concat (map (seg s) xs) @ concat (map (seg s) [])"
      using wf_delete_node[OF wf' d(2) oth] ca True d(4) sz1 by auto
    have "length (seg s a) = 1" using length_seg[OF sh ain] ca True by simp
    then have "butlast (seg s a) = []" by (cases "seg s a") auto
    then show ?thesis
      using e True d(1) w d(4,5) sz1 bl by (intro exI[of _ s'] exI[of _ xs]) simp
  next
    case False
    then have p: "1 \<le> cnt s1 a" using c1' ca c1 by simp
    have w: "wf s1 (xs @ a # [])"
      "concat (map (seg s1) (xs @ a # [])) =
         concat (map (seg s) xs) @ seg s1 a @ concat (map (seg s) [])"
      using wf_same_nodes[OF wf' sh1 oth1 c1' p sz1'] by auto
    show ?thesis
      using e False w sg1 sz1 bl by (intro exI[of _ s1] exI[of _ "xs @ a # []"]) simp
  qed
qed

lemma find_element_loop_past:
  "path (heap s) w ys None \<Longrightarrow> (\<forall>a\<in>set ys. 0 \<le> cnt s a) \<Longrightarrow>
   k + sum_list (map (cnt s) ys) \<le> index \<Longrightarrow>
   find_element_loop s index k w = Some UB"
proof (induction ys arbitrary: w k)
  case Nil
  then show ?case by (simp add: find_element_loop_null deref_def)
next
  case (Cons b ys)
  then obtain n where n: "w = Some b" "heap s b = Some n" "path (heap s) (next n) ys None"
    by (auto split: option.splits)
  have d: "deref s w = Some (b, n)" using n by (simp add: deref_def)
  have cb: "cnt s b = count n" using n by (simp add: cnt_def)
  have nn: "0 \<le> sum_list (map (cnt s) ys)" using Cons.prems(2) by (auto intro!: sum_list_nonneg)
  have le: "k + count n \<le> index" using Cons.prems(3) cb nn by simp
  have "k + count n + sum_list (map (cnt s) ys) \<le> index" using Cons.prems(3) cb by simp
  from Cons.IH[OF n(3) _ this] Cons.prems(2)
  have "find_element_loop s index (k + count n) (next n) = Some UB" by simp
  then show ?case using find_element_loop_next[OF d le] by simp
qed

lemma shape_cnt_nonneg: "shape s ps \<Longrightarrow> a \<in> set ps \<Longrightarrow> 0 \<le> cnt s a"
proof -
  assume a: "shape s ps" "a \<in> set ps"
  obtain n where "heap s a = Some n" "0 \<le> count n" using shape_node[OF a] by blast
  then show ?thesis by (simp add: cnt_def)
qed

lemma find_element_past:
  assumes "wf s ps" "lsize s \<le> index"
  shows "find_element index s = Some UB"
proof -
  have sh: "shape s ps" by (rule wfD_shape[OF assms(1)])
  have "path (heap s) (head s) ps None" using sh by (simp add: shape_def)
  moreover have "\<forall>a\<in>set ps. 0 \<le> cnt s a" using shape_cnt_nonneg[OF sh] by blast
  moreover have "0 + sum_list (map (cnt s) ps) \<le> index" using assms by (simp add: wf_def)
  ultimately show ?thesis unfolding find_element_def by (rule find_element_loop_past)
qed

lemma erase_negative_index:
  assumes wf: "wf s ps" and neg: "index < 0"
  shows "erase index s = Some UB"
proof (cases ps)
  case Nil
  have "lsize s = 0" using wf Nil by (simp add: wf_def)
  then have "find_element index s = Some UB"
    using shape_Nil[OF wfD_shape[OF wf[unfolded Nil]]]
    by (simp add: find_element_def find_element_loop_null deref_def)
  moreover have "0 \<le> lsize s" using \<open>lsize s = 0\<close> by simp
  ultimately show ?thesis using neg by (simp add: erase_def bind_loop_def)
next
  case (Cons a ys)
  have sh: "shape s (a # ys)" using wfD_shape[OF wf] Cons by simp
  have ain: "a \<in> set (a # ys)" by simp
  obtain n where n: "heap s a = Some n" "0 \<le> count n" using shape_node[OF sh ain] by blast
  have d: "deref s (head s) = Some (a, n)" using shape_head[OF sh] n by (simp add: deref_def)
  have "\<not> 0 + count n \<le> index" using neg n by simp
  from find_element_loop_found[OF d this]
  have fe: "find_element index s =
      Some (Ret \<lparr>info_node = Some a, info_localIndex = index\<rparr> s)"
    using shape_head[OF sh] by (simp add: find_element_def)
  have "shiftDown_loop n index = None"
    using neg n by (subst shiftDown_loop.simps) (simp add: wr_def in_array_def)
  then have sd: "shiftDown (Some a) index s = UB" using n by (simp add: shiftDown_def)
  have "0 \<le> lsize s" using wf_lsize[OF wf] by simp
  then show ?thesis using neg fe sd by (simp add: erase_def bind_loop_def bind_res_def)
qed

lemma erase_unfold:
  assumes "index \<noteq> 0" "index \<noteq> lsize s"
    and "find_element index s = Some (Ret \<lparr>info_node = p, info_localIndex = L\<rparr> s1)"
  shows "erase index s =
     Some (bind_res (shiftDown p L s1) (\<lambda>_ s2.
        case deref s2 p of
          None \<Rightarrow> UB
        | Some (a', n2) \<Rightarrow>
            (let s3 = s2\<lparr>heap := (heap s2)(a' \<mapsto> n2\<lparr>count := count n2 - 1\<rparr>),
                         lsize := lsize s2 - 1\<rparr>
             in if count n2 - 1 = 0 then deleteNode p s3 else Ret () s3)))"
  using assms
  by (simp add: erase_def bind_loop_def Let_def cong: option.case_cong prod.case_cong if_cong)

lemma erase_middle:
  assumes wf: "wf s ps" and idx: "0 < index" "index < lsize s"
  shows "\<exists>s' ps'. erase index s = Some (Ret () s') \<and> wf s' ps' \<and>
     concat (map (seg s') ps') =
       take (nat index) (concat (map (seg s) ps)) @ drop (Suc (nat index)) (concat (map (seg s) ps)) \<and>
     lsize s' = lsize s - 1 \<and> asize s' = asize s"
proof -
  have sh: "shape s ps" using wf by (simp add: wf_def)
  have sz: "lsize s = sum_list (map (cnt s) ps)" using wf by (simp add: wf_def)
  obtain xs a ys where fe: "ps = xs @ a # ys"
     "find_element index s =
       Some (Ret \<lparr>info_node = Some a, info_localIndex = index - sum_list (map (cnt s) xs)\<rparr> s)"
     "sum_list (map (cnt s) xs) \<le> index" "index < sum_list (map (cnt s) xs) + cnt s a"
    using find_element_ok[OF sh, of index] idx sz by auto
  define L where "L = index - sum_list (map (cnt s) xs)"
  have ain: "a \<in> set ps" using fe by simp
  obtain n where n: "heap s a = Some n" using shape_node[OF sh ain] by blast
  have ca: "cnt s a = count n" using n by (simp add: cnt_def)
  have L: "0 \<le> L" "L < count n" using fe ca by (auto simp: L_def)
  have lX: "int (length (concat (map (seg s) xs))) = sum_list (map (cnt s) xs)"
    using length_concat_segs[OF sh, of xs] fe by auto
  have lS: "int (length (seg s a)) = cnt s a" by (rule length_seg[OF sh ain])
  have idx': "nat index = length (concat (map (seg s) xs)) + nat L"
    by (rule idx_split[OF lX fe(3) L_def])
  have Llt: "nat L < length (seg s a)" using L lS ca by linarith
  obtain s' ps' where r:
     "bind_res (shiftDown (Some a) L s) (\<lambda>_ s2.
        case deref s2 (Some a) of
          None \<Rightarrow> UB
        | Some (a', n2) \<Rightarrow>
            (let s3 = s2\<lparr>heap := (heap s2)(a' \<mapsto> n2\<lparr>count := count n2 - 1\<rparr>),
                         lsize := lsize s2 - 1\<rparr>
             in if count n2 - 1 = 0 then deleteNode (Some a) s3 else Ret () s3)) = Ret () s'"
     "wf s' ps'"
     "concat (map (seg s') ps') =
       concat (map (seg s) xs) @ (take (nat L) (seg s a) @ drop (Suc (nat L)) (seg s a)) @
       concat (map (seg s) ys)"
     "lsize s' = lsize s - 1" "asize s' = asize s"
    using node_remove[OF wf[unfolded fe(1)] n L] by blast
  have e: "erase index s = Some (Ret () s')"
    using erase_unfold[OF _ _ fe(2)] idx r(1) by (simp add: L_def)
  have "take (nat index) (concat (map (seg s) ps)) @ drop (Suc (nat index)) (concat (map (seg s) ps)) =
     concat (map (seg s) xs) @ (take (nat L) (seg s a) @ drop (Suc (nat L)) (seg s a)) @
       concat (map (seg s) ys)"
    unfolding idx' fe(1) using Llt by simp
  then show ?thesis using e r(2,3,4,5) by (intro exI[of _ s'] exI[of _ ps']) simp
qed

lemma erase_any:
  assumes wf: "wf s ps"
  shows "erase index s = Some UB \<or>
     (\<exists>s' ps'. erase index s = Some (Ret () s') \<and> wf s' ps' \<and> asize s' = asize s)"
proof -
  have nn: "0 \<le> lsize s" using wf_lsize[OF wf] by simp
  consider "index = 0" | "index \<noteq> 0" "index = lsize s" | "0 < index" "index < lsize s"
    | "index < 0" | "lsize s < index"
    by linarith
  then show ?thesis
  proof cases
    case 1
    then have "erase index s = Some (pop_front s)" by (simp add: erase_def)
    then show ?thesis using pop_front_ok[OF wf] by auto
  next
    case 2
    then have e: "erase index s = Some (pop_back s)" by (simp add: erase_def)
    have "ps \<noteq> []" using 2 wf by (auto simp: wf_def)
    then show ?thesis using pop_back_ok[OF wf] e by auto
  next
    case 3
    then show ?thesis using erase_middle[OF wf] by blast
  next
    case 4
    then show ?thesis using erase_negative_index[OF wf] by simp
  next
    case 5
    then have "find_element index s = Some UB" using find_element_past[OF wf] by simp
    then show ?thesis using 5 nn by (simp add: erase_def bind_loop_def)
  qed
qed

subsection \<open>Clearing\<close>

lemma push_back_in_node_mem:
  "heap s a = Some n \<Longrightarrow> count n < asize s \<Longrightarrow>
   push_back_in_node (Some a) (Object v) mem s = push_back_in_node (Some a) (Object v) True s"
  by (simp add: push_back_in_node_def deref_def)

lemma clear_loop_step:
  "deref s walker = Some (a, n) \<Longrightarrow>
   clear_loop walker s = clear_loop (next n) (s\<lparr>heap := (heap s)(a := None)\<rparr>)"
  by (subst clear_loop.simps) simp

lemma clear_loop_stop: "clear_loop None s = Some (Ret () s)"
  by (subst clear_loop.simps) (simp add: deref_def)

lemma clear_loop_ok:
  "path (heap s) w ys None \<Longrightarrow> distinct ys \<Longrightarrow>
   \<exists>H. clear_loop w s = Some (Ret () (s\<lparr>heap := H\<rparr>)) \<and> (\<forall>x. H x = None \<or> H x = heap s x)"
proof (induction ys arbitrary: w s)
  case Nil
  then have "clear_loop w s = Some (Ret () (s\<lparr>heap := heap s\<rparr>))" by (simp add: clear_loop_stop)
  then show ?case by blast
next
  case (Cons a ys)
  then obtain n where n: "w = Some a" "heap s a = Some n" "path (heap s) (next n) ys None"
    by (auto split: option.splits)
  have d: "deref s w = Some (a, n)" using n by (simp add: deref_def)
  let ?s1 = "s\<lparr>heap := (heap s)(a := None)\<rparr>"
  have "path (heap ?s1) (next n) ys None = path (heap s) (next n) ys None"
    by (rule path_cong) (use Cons.prems in auto)
  then have p: "path (heap ?s1) (next n) ys None" using n by simp
  have "distinct ys" using Cons.prems by simp
  from Cons.IH[OF p this] obtain H where H:
    "clear_loop (next n) ?s1 = Some (Ret () (?s1\<lparr>heap := H\<rparr>))"
    "\<forall>x. H x = None \<or> H x = heap ?s1 x" by blast
  have "clear_loop w s = Some (Ret () (s\<lparr>heap := H\<rparr>))"
    using clear_loop_step[OF d] H(1) by simp
  moreover have "\<forall>x. H x = None \<or> H x = heap s x"
  proof
    fix x show "H x = None \<or> H x = heap s x" using H(2)[rule_format, of x] by (cases "x = a") auto
  qed
  ultimately show ?case by blast
qed

lemma clear_ok:
  assumes wf: "wf s ps"
  shows "\<exists>s'. clear s = Some (Ret () s') \<and> wf s' [] \<and> asize s' = asize s"
proof -
  have sh: "shape s ps" by (rule wfD_shape[OF wf])
  have p: "path (heap s) (head s) ps None" "distinct ps" using sh by (simp_all add: shape_def)
  obtain H where H: "clear_loop (head s) s = Some (Ret () (s\<lparr>heap := H\<rparr>))"
    "\<forall>x. H x = None \<or> H x = heap s x"
    using clear_loop_ok[OF p] by blast
  define s' where "s' = s\<lparr>heap := H, lsize := 0, nodecount := 0, head := None, tail := None\<rparr>"
  have c: "clear s = Some (Ret () s')" using H(1) by (simp add: clear_def bind_loop_def s'_def)
  have fr: "\<And>x. fresh s \<le> x \<Longrightarrow> H x = None"
  proof -
    fix x assume "fresh s \<le> x"
    then have "heap s x = None" using sh by (simp add: shape_def)
    then show "H x = None" using H(2)[rule_format, of x] by auto
  qed
  have "1 \<le> asize s" using sh by (simp add: shape_def)
  then have "wf s' []" using fr by (simp add: wf_def shape_def backlinks_def s'_def)
  then show ?thesis using c by (auto simp: s'_def)
qed

lemma wf_Lariat: "1 \<le> C \<Longrightarrow> wf (Lariat C) []"
  by (simp add: wf_def shape_def backlinks_def Lariat_def)

subsection \<open>Compaction\<close>

lemma path_ptr: "path h p ys None \<Longrightarrow> p = ptr_of ys"
  by (cases ys) auto

lemma compact_skip_stop:
  "deref s leftFoot = Some (l, ln) \<Longrightarrow> \<not> (count ln = asize s \<and> rightFoot \<noteq> None) \<Longrightarrow>
   compact_skip s leftFoot rightFoot = Some (Ret (leftFoot, rightFoot) s)"
  by (subst compact_skip.simps) auto

lemma compact_skip_step:
  "deref s leftFoot = Some (l, ln) \<Longrightarrow> count ln = asize s \<Longrightarrow>
   deref s rightFoot = Some (r, rn) \<Longrightarrow>
   compact_skip s leftFoot rightFoot = compact_skip s (next ln) (next rn)"
  by (subst compact_skip.simps) (auto simp: deref_def split: option.splits)

lemma compact_skip_ok:
  "path (heap s) (Some l) (l # R) None \<Longrightarrow> (\<forall>x\<in>set F. cnt s x = asize s) \<Longrightarrow>
   \<exists>F' l' R'. F @ l # R = F' @ l' # R' \<and>
      compact_skip s (Some l) (ptr_of R) = Some (Ret (Some l', ptr_of R') s) \<and>
      (\<forall>x\<in>set F'. cnt s x = asize s) \<and> (cnt s l' \<noteq> asize s \<or> R' = [])"
proof (induction R arbitrary: F l)
  case Nil
  then obtain ln where ln: "heap s l = Some ln" by (auto split: option.splits)
  have d: "deref s (Some l) = Some (l, ln)" using ln by (simp add: deref_def)
  have "compact_skip s (Some l) (ptr_of []) = Some (Ret (Some l, ptr_of []) s)"
    by (rule compact_skip_stop[OF d]) simp
  then show ?case using Nil.prems(2) by (intro exI[of _ F] exI[of _ l] exI[of _ "[]"]) simp
next
  case (Cons r R)
  then obtain ln rn where n: "heap s l = Some ln" "next ln = Some r" "heap s r = Some rn"
     "path (heap s) (next rn) R None"
    by (auto split: option.splits)
  have d: "deref s (Some l) = Some (l, ln)" using n by (simp add: deref_def)
  have dr: "deref s (Some r) = Some (r, rn)" using n by (simp add: deref_def)
  have cl: "cnt s l = count ln" using n by (simp add: cnt_def)
  show ?case
  proof (cases "count ln = asize s")
    case True
    have p: "path (heap s) (Some r) (r # R) None" using n by simp
    have f: "\<forall>x\<in>set (F @ [l]). cnt s x = asize s" using Cons.prems(2) True cl by simp
    obtain F' l' R' where r: "(F @ [l]) @ r # R = F' @ l' # R'"
      "compact_skip s (Some r) (ptr_of R) = Some (Ret (Some l', ptr_of R') s)"
      "\<forall>x\<in>set F'. cnt s x = asize s" "cnt s l' \<noteq> asize s \<or> R' = []"
      using Cons.IH[OF p f] by blast
    have "compact_skip s (Some l) (ptr_of (r # R)) = compact_skip s (Some r) (ptr_of R)"
      using compact_skip_step[OF d True, of "Some r" r rn] dr n(2) path_ptr[OF n(4)] by simp
    then show ?thesis using r by (intro exI[of _ F'] exI[of _ l'] exI[of _ R']) simp
  next
    case False
    have "compact_skip s (Some l) (ptr_of (r # R)) = Some (Ret (Some l, ptr_of (r # R)) s)"
      by (rule compact_skip_stop[OF d]) (use False in simp)
    then show ?thesis using Cons.prems(2) False cl
      by (intro exI[of _ F] exI[of _ l] exI[of _ "r # R"]) simp
  qed
qed

lemma compact_move_stop: "\<not> i < rightFootCount \<Longrightarrow>
   compact_move s leftFoot rightFoot rightFootCount i = Ret leftFoot s"
  by (subst compact_move.simps) simp

lemma compact_move_step:
  "i < rightFootCount \<Longrightarrow> deref s leftFoot = Some (l, ln) \<Longrightarrow>
   deref s rightFoot = Some (r, rn) \<Longrightarrow>
   wr (values ln) (count ln) (rd (values rn) i) = Some vs \<Longrightarrow>
   compact_move s leftFoot rightFoot rightFootCount i =
   compact_move (s\<lparr>heap := (heap s)(l \<mapsto> ln\<lparr>values := vs, count := count ln + 1\<rparr>)\<rparr>)
     (if count ln + 1 = asize s then next ln else leftFoot) rightFoot rightFootCount (i + 1)"
  by (subst compact_move.simps) (simp add: Let_def)

text \<open>The inner loop when both feet stand on the same node: the node is packed in place.\<close>

lemma compact_move_same:
  "heap s r = Some n \<Longrightarrow> count n = int c \<Longrightarrow> c < t \<Longrightarrow> t + m = rfc \<Longrightarrow>
   rfc \<le> length (values n) \<Longrightarrow> asize s = int (length (values n)) \<Longrightarrow>
   \<exists>vs'. compact_move s (Some r) (Some r) (int rfc) (int t) =
       Ret (Some r) (s\<lparr>heap := (heap s)(r \<mapsto> n\<lparr>values := vs', count := int (c + m)\<rparr>)\<rparr>) \<and>
     length vs' = length (values n) \<and>
     take (c + m) vs' = take c (values n) @ take m (drop t (values n))"
proof (induction m arbitrary: s n c t)
  case 0
  have "compact_move s (Some r) (Some r) (int rfc) (int t) = Ret (Some r) s"
    using 0 by (intro compact_move_stop) simp
  moreover have "n\<lparr>values := values n, count := int (c + 0)\<rparr> = n"
    using 0(2)[symmetric] by simp
  then have "s\<lparr>heap := (heap s)(r \<mapsto> n\<lparr>values := values n, count := int (c + 0)\<rparr>)\<rparr> = s"
    using 0(1) by (simp add: fun_upd_idem)
  ultimately have "compact_move s (Some r) (Some r) (int rfc) (int t) =
      Ret (Some r) (s\<lparr>heap := (heap s)(r \<mapsto> n\<lparr>values := values n, count := int (c + 0)\<rparr>)\<rparr>)"
    by (simp only:)
  moreover have "take (c + 0) (values n) = take c (values n) @ take 0 (drop t (values n))"
    by simp
  ultimately show ?case by (intro exI[of _ "values n"] conjI refl)
next
  case (Suc m)
  let ?vs = "values n"
  have lt: "int t < int rfc" using Suc.prems by simp
  have d: "deref s (Some r) = Some (r, n)" using Suc.prems by (simp add: deref_def)
  have tl: "t < length ?vs" "c < length ?vs" using Suc.prems by auto
  have w: "wr ?vs (count n) (rd ?vs (int t)) = Some (?vs[c := ?vs ! t])"
    using Suc.prems tl by (simp add: wr_def rd_def in_array_def)
  define n1 where "n1 = n\<lparr>values := ?vs[c := ?vs ! t], count := count n + 1\<rparr>"
  define s1 where "s1 = s\<lparr>heap := (heap s)(r \<mapsto> n1)\<rparr>"
  have nf: "count n + 1 \<noteq> asize s" using Suc.prems by simp
  have st: "compact_move s (Some r) (Some r) (int rfc) (int t) =
      compact_move s1 (Some r) (Some r) (int rfc) (int (Suc t))"
    using compact_move_step[OF lt d d w] nf by (simp add: s1_def n1_def add.commute)
  have h1: "heap s1 r = Some n1" by (simp add: s1_def)
  have c1: "count n1 = int (Suc c)" using Suc.prems by (simp add: n1_def)
  have l1: "length (values n1) = length ?vs" by (simp add: n1_def)
  obtain vs' where r: "compact_move s1 (Some r) (Some r) (int rfc) (int (Suc t)) =
       Ret (Some r) (s1\<lparr>heap := (heap s1)(r \<mapsto> n1\<lparr>values := vs', count := int (Suc c + m)\<rparr>)\<rparr>)"
     "length vs' = length (values n1)"
     "take (Suc c + m) vs' = take (Suc c) (values n1) @ take m (drop (Suc t) (values n1))"
  proof -
    have "Suc c < Suc t" "Suc t + m = rfc" "rfc \<le> length (values n1)"
      "asize s1 = int (length (values n1))"
      using Suc.prems l1 by (simp_all add: s1_def)
    from Suc.IH[OF h1 c1 this] show thesis using that by blast
  qed
  have e: "s1\<lparr>heap := (heap s1)(r \<mapsto> n1\<lparr>values := vs', count := int (Suc c + m)\<rparr>)\<rparr> =
      s\<lparr>heap := (heap s)(r \<mapsto> n\<lparr>values := vs', count := int (c + Suc m)\<rparr>)\<rparr>"
    by (simp add: s1_def n1_def)
  have t1: "take (Suc c) (values n1) = take c ?vs @ [?vs ! t]"
    using tl by (simp add: n1_def take_Suc_conv_app_nth)
  have d1: "drop (Suc t) (values n1) = drop (Suc t) ?vs"
    using Suc.prems by (simp add: n1_def)
  have "take (Suc m) (drop t ?vs) = ?vs ! t # take m (drop (Suc t) ?vs)"
    using tl by (simp add: Cons_nth_drop_Suc[symmetric])
  then have "take (c + Suc m) vs' = take c ?vs @ take (Suc m) (drop t ?vs)"
    using r(3) t1 d1 by simp
  moreover have "compact_move s (Some r) (Some r) (int rfc) (int t) =
      Ret (Some r) (s\<lparr>heap := (heap s)(r \<mapsto> n\<lparr>values := vs', count := int (c + Suc m)\<rparr>)\<rparr>)"
    using st r(1) e by (simp only:)
  moreover have "length vs' = length ?vs" using r(2) l1 by simp
  ultimately show ?case by (intro exI[of _ vs'] conjI)
qed


lemma shape_next: "shape s (F @ l # Y) \<Longrightarrow> heap s l = Some ln \<Longrightarrow> next ln = ptr_of Y"
proof -
  assume sh: "shape s (F @ l # Y)" and n: "heap s l = Some ln"
  have "path (heap s) (Some l) (l # Y) None"
    using shapeD_path[OF sh] by (simp add: path_append_Cons)
  then have "path (heap s) (next ln) Y None" using n by simp
  then show ?thesis by (rule path_ptr)
qed

lemma seg_zero: "cnt s z = 0 \<Longrightarrow> seg s z = []"
  by (auto simp: seg_cont cnt_cont split: option.splits)

lemma concat_seg_zero: "\<forall>z\<in>set Z. cnt s z = 0 \<Longrightarrow> concat (map (seg s) Z) = []"
  by (induction Z) (simp_all add: seg_zero)

lemma compact_move_put:
  assumes sh: "shape s ps" and l: "l \<in> set ps" and r: "r \<in> set ps" and lr: "l \<noteq> r"
    and ln: "heap s l = Some ln" and rn: "heap s r = Some rn"
    and room: "count ln < asize s" and t: "int t < rfc" "rfc \<le> asize s"
  shows "\<exists>s1. compact_move s (Some l) (Some r) rfc (int t) =
        compact_move s1 (if count ln + 1 = asize s then next ln else Some l) (Some r) rfc (int (Suc t)) \<and>
      shape s1 ps \<and> seg s1 l = seg s l @ [values rn ! t] \<and> cnt s1 l = count ln + 1 \<and>
      (\<forall>x. x \<noteq> l \<longrightarrow> cont s1 x = cont s x) \<and> heap s1 r = Some rn \<and>
      lsize s1 = lsize s \<and> asize s1 = asize s"
proof -
  obtain n where n: "heap s l = Some n" "0 \<le> count n" "count n \<le> asize s"
    "int (length (values n)) = asize s"
    by (rule shape_node[OF sh l])
  have nl: "n = ln" using n(1) ln by simp
  obtain n2 where n2: "heap s r = Some n2" "0 \<le> count n2" "count n2 \<le> asize s"
    "int (length (values n2)) = asize s"
    by (rule shape_node[OF sh r])
  have nr: "n2 = rn" using n2(1) rn by simp
  let ?v = "values rn ! t"
  let ?vs = "(values ln)[nat (count ln) := ?v]"
  define ln1 where "ln1 = ln\<lparr>values := ?vs, count := count ln + 1\<rparr>"
  define s1 where "s1 = s\<lparr>heap := (heap s)(l \<mapsto> ln1)\<rparr>"
  have dl: "deref s (Some l) = Some (l, ln)" using ln by (simp add: deref_def)
  have dr: "deref s (Some r) = Some (r, rn)" using rn by (simp add: deref_def)
  have rd: "rd (values rn) (int t) = ?v"
    using t n2 nr by (simp add: rd_def in_array_def)
  have w: "wr (values ln) (count ln) (rd (values rn) (int t)) = Some ?vs"
    using n nl room by (simp add: rd wr_def in_array_def)
  have st: "compact_move s (Some l) (Some r) rfc (int t) =
        compact_move s1 (if count ln + 1 = asize s then next ln else Some l) (Some r) rfc (int (Suc t))"
    using compact_move_step[OF t(1) dl dr w] by (simp add: s1_def ln1_def add.commute)
  have sh1: "shape s1 ps"
    unfolding s1_def using n nl room by (intro shape_update[OF sh ln]) (simp_all add: ln1_def)
  have c0: "cont s l = Some (count ln, values ln)" using ln by (simp add: cont_def)
  have c1: "cont s1 l = Some (count ln + 1, ?vs)" by (simp add: s1_def cont_upd ln1_def)
  have g0: "seg s l = take (nat (count ln)) (values ln)"
    using n nl by (intro seg_take[OF c0]) simp_all
  have g1: "seg s1 l = take (nat (count ln + 1)) ?vs"
    using n nl room by (intro seg_take[OF c1]) simp_all
  have nn: "nat (count ln + 1) = Suc (nat (count ln))" using n nl by simp
  have len: "nat (count ln) < length (values ln)" using n nl room by simp
  have "take (Suc (nat (count ln))) ?vs = take (nat (count ln)) (values ln) @ [?v]"
    using len by (simp add: take_Suc_conv_app_nth)
  then have sg: "seg s1 l = seg s l @ [?v]" using g0 g1 nn by simp
  have cn: "cnt s1 l = count ln + 1" using c1 by (simp add: cnt_cont)
  have fr: "\<forall>x. x \<noteq> l \<longrightarrow> cont s1 x = cont s x" by (simp add: s1_def cont_upd)
  have hr: "heap s1 r = Some rn" using rn lr by (simp add: s1_def)
  have "lsize s1 = lsize s" "asize s1 = asize s" by (simp_all add: s1_def)
  with st sh1 sg cn fr hr show ?thesis by (intro exI[of _ s1] conjI)
qed

text \<open>The inner loop of compact: the pending elements of the emptied node \<open>r\<close> are
  appended behind the elements of the left foot, which advances over the nodes it fills.\<close>

lemma compact_move_fill:
  assumes "shape s (F @ l # Z @ r # R)" "\<forall>z\<in>set Z. cnt s z = 0" "cnt s l < asize s"
    "heap s r = Some rn" "count rn = 0" "t + m = rfc" "int rfc \<le> asize s"
  shows "\<exists>s' F' l' Z'. compact_move s (Some l) (Some r) (int rfc) (int t) = Ret (Some l') s' \<and>
     shape s' (F @ l # Z @ r # R) \<and> F @ l # Z @ [r] = F' @ l' # Z' \<and>
     (\<forall>x\<in>set F'. x \<in> set F \<or> cnt s' x = asize s) \<and> (\<forall>z\<in>set Z'. cnt s' z = 0) \<and>
     cnt s' l' < asize s \<and>
     concat (map (seg s') (l # Z @ [r])) = seg s l @ take m (drop t (values rn)) \<and>
     (\<forall>x. x \<notin> set (l # Z @ [r]) \<longrightarrow> cont s' x = cont s x) \<and>
     lsize s' = lsize s \<and> asize s' = asize s"
  using assms
proof (induction m arbitrary: s F l Z t)
  case 0
  have st: "compact_move s (Some l) (Some r) (int rfc) (int t) = Ret (Some l) s"
    using 0 by (intro compact_move_stop) simp
  have cr: "cnt s r = 0" using 0 by (simp add: cnt_def)
  have z: "\<forall>z\<in>set (Z @ [r]). cnt s z = 0" using 0 cr by simp
  have "concat (map (seg s) (Z @ [r])) = []" by (rule concat_seg_zero[OF z])
  then have cc: "concat (map (seg s) (l # Z @ [r])) = seg s l @ take 0 (drop t (values rn))"
    by simp
  have e: "F @ l # Z @ [r] = F @ l # (Z @ [r])" by simp
  have f: "\<forall>x\<in>set F. x \<in> set F \<or> cnt s x = asize s" by simp
  have fr: "\<forall>x. x \<notin> set (l # Z @ [r]) \<longrightarrow> cont s x = cont s x" by simp
  show ?case
    using st "0.prems"(1) e f z "0.prems"(3) cc fr
    by (intro exI[of _ s] exI[of _ F] exI[of _ l] exI[of _ "Z @ [r]"] conjI refl)
next
  case (Suc m)
  let ?ps = "F @ l # Z @ r # R"
  note sh = Suc.prems(1)
  have d: "distinct ?ps" by (rule shape_distinct[OF sh])
  have l: "l \<in> set ?ps" and r: "r \<in> set ?ps" by simp_all
  have lr: "l \<noteq> r" using d by auto
  obtain ln where ln: "heap s l = Some ln" "0 \<le> count ln" "count ln \<le> asize s"
    "int (length (values ln)) = asize s"
    by (rule shape_node[OF sh l])
  obtain rn' where rn': "heap s r = Some rn'" "0 \<le> count rn'" "count rn' \<le> asize s"
    "int (length (values rn')) = asize s"
    by (rule shape_node[OF sh r])
  have rl: "int (length (values rn)) = asize s" using rn' Suc.prems(4) by simp
  have cl: "cnt s l = count ln" using ln by (simp add: cnt_def)
  have room: "count ln < asize s" using Suc.prems(3) cl by simp
  have t: "int t < int rfc" using Suc.prems(6) by simp
  obtain s1 where s1: "compact_move s (Some l) (Some r) (int rfc) (int t) =
        compact_move s1 (if count ln + 1 = asize s then next ln else Some l) (Some r) (int rfc) (int (Suc t))"
      "shape s1 ?ps" "seg s1 l = seg s l @ [values rn ! t]" "cnt s1 l = count ln + 1"
      "\<forall>x. x \<noteq> l \<longrightarrow> cont s1 x = cont s x" "heap s1 r = Some rn"
      "lsize s1 = lsize s" "asize s1 = asize s"
    using compact_move_put[OF sh l r lr ln(1) Suc.prems(4) room t Suc.prems(7)] by blast
  have tm: "Suc t + m = rfc" using Suc.prems(6) by simp
  have rfc1: "int rfc \<le> asize s1" using Suc.prems(7) s1(8) by simp
  have tl: "t < length (values rn)" using rl Suc.prems(6,7) by simp
  have pend: "take (Suc m) (drop t (values rn)) = values rn ! t # take m (drop (Suc t) (values rn))"
    using tl by (simp add: Cons_nth_drop_Suc[symmetric])
  have zl: "\<forall>z\<in>set Z. z \<noteq> l" using d by auto
  have z1: "\<forall>z\<in>set Z. cnt s1 z = 0"
  proof
    fix z assume z: "z \<in> set Z"
    have "cont s1 z = cont s z" using s1(5) zl z by simp
    then show "cnt s1 z = 0" using Suc.prems(2) z by (simp add: cnt_cont)
  qed
  show ?case
  proof (cases "count ln + 1 = asize s")
    case False
    have c1: "cnt s1 l < asize s1" using s1(4,8) False room by simp
    obtain s' F' l' Z' where r1:
      "compact_move s1 (Some l) (Some r) (int rfc) (int (Suc t)) = Ret (Some l') s'"
      "shape s' ?ps" "F @ l # Z @ [r] = F' @ l' # Z'"
      "\<forall>x\<in>set F'. x \<in> set F \<or> cnt s' x = asize s1" "\<forall>z\<in>set Z'. cnt s' z = 0"
      "cnt s' l' < asize s1"
      "concat (map (seg s') (l # Z @ [r])) = seg s1 l @ take m (drop (Suc t) (values rn))"
      "\<forall>x. x \<notin> set (l # Z @ [r]) \<longrightarrow> cont s' x = cont s1 x"
      "lsize s' = lsize s1" "asize s' = asize s1"
      using Suc.IH[OF s1(2) z1 c1 s1(6) Suc.prems(5) tm rfc1] by blast
    have a: "compact_move s (Some l) (Some r) (int rfc) (int t) = Ret (Some l') s'"
      using s1(1) r1(1) False by simp
    have b: "\<forall>x\<in>set F'. x \<in> set F \<or> cnt s' x = asize s" using r1(4) s1(8) by simp
    have c: "cnt s' l' < asize s" using r1(6) s1(8) by simp
    have e: "concat (map (seg s') (l # Z @ [r])) = seg s l @ take (Suc m) (drop t (values rn))"
      using r1(7) s1(3) pend by simp
    have f: "\<forall>x. x \<notin> set (l # Z @ [r]) \<longrightarrow> cont s' x = cont s x"
      using r1(8) s1(5) by simp
    have g: "lsize s' = lsize s" "asize s' = asize s" using r1(9,10) s1(7,8) by simp_all
    show ?thesis using a r1(2,3) b r1(5) c e f g
      by (intro exI[of _ s'] exI[of _ F'] exI[of _ l'] exI[of _ Z'] conjI)
  next
    case True
    have nx: "next ln = ptr_of (Z @ r # R)" by (rule shape_next[OF sh ln(1)])
    have full: "cnt s1 l = asize s" using s1(4) True by simp
    show ?thesis
    proof (cases Z)
      case (Cons z Z2)
      have sh1: "shape s1 ((F @ [l]) @ z # Z2 @ r # R)" using s1(2) Cons by simp
      have z2: "\<forall>x\<in>set Z2. cnt s1 x = 0" using z1 Cons by simp
      have cz: "cnt s1 z < asize s1"
        using z1 Cons shape_asize_pos[OF s1(2)] by simp
      obtain s' F' l' Z' where r1:
        "compact_move s1 (Some z) (Some r) (int rfc) (int (Suc t)) = Ret (Some l') s'"
        "shape s' ((F @ [l]) @ z # Z2 @ r # R)" "(F @ [l]) @ z # Z2 @ [r] = F' @ l' # Z'"
        "\<forall>x\<in>set F'. x \<in> set (F @ [l]) \<or> cnt s' x = asize s1" "\<forall>z\<in>set Z'. cnt s' z = 0"
        "cnt s' l' < asize s1"
        "concat (map (seg s') (z # Z2 @ [r])) = seg s1 z @ take m (drop (Suc t) (values rn))"
        "\<forall>x. x \<notin> set (z # Z2 @ [r]) \<longrightarrow> cont s' x = cont s1 x"
        "lsize s' = lsize s1" "asize s' = asize s1"
        using Suc.IH[OF sh1 z2 cz s1(6) Suc.prems(5) tm rfc1] by blast
      have a: "compact_move s (Some l) (Some r) (int rfc) (int t) = Ret (Some l') s'"
        using s1(1) r1(1) True nx Cons by simp
      have a2: "shape s' ?ps" using r1(2) Cons by simp
      have a3: "F @ l # Z @ [r] = F' @ l' # Z'" using r1(3) Cons by simp
      have lnot: "l \<notin> set (z # Z2 @ [r])" using d Cons by auto
      have cl': "cont s' l = cont s1 l" using r1(8) lnot by blast
      have fl: "cnt s' l = asize s" using cl' full by (simp add: cnt_cont)
      have b: "\<forall>x\<in>set F'. x \<in> set F \<or> cnt s' x = asize s"
        using r1(4) s1(8) fl by auto
      have c: "cnt s' l' < asize s" using r1(6) s1(8) by simp
      have sz: "seg s1 z = []" using z1 Cons by (simp add: seg_zero)
      have sl: "seg s' l = seg s1 l" using cl' by (simp add: seg_cont)
      have e: "concat (map (seg s') (l # Z @ [r])) = seg s l @ take (Suc m) (drop t (values rn))"
        using r1(7) s1(3) pend sz sl Cons by simp
      have f: "\<forall>x. x \<notin> set (l # Z @ [r]) \<longrightarrow> cont s' x = cont s x"
        using r1(8) s1(5) Cons by simp
      have g: "lsize s' = lsize s" "asize s' = asize s" using r1(9,10) s1(7,8) by simp_all
      show ?thesis using a a2 a3 b r1(5) c e f g
        by (intro exI[of _ s'] exI[of _ F'] exI[of _ l'] exI[of _ Z'] conjI)
    next
      case Nil
      have c0: "count rn = int 0" using Suc.prems(5) by simp
      have rl1: "rfc \<le> length (values rn)" using rl Suc.prems(7) by simp
      have as1: "asize s1 = int (length (values rn))" using rl s1(8) by simp
      obtain vs' where r1: "compact_move s1 (Some r) (Some r) (int rfc) (int (Suc t)) =
          Ret (Some r) (s1\<lparr>heap := (heap s1)(r \<mapsto> rn\<lparr>values := vs', count := int (0 + m)\<rparr>)\<rparr>)"
        "length vs' = length (values rn)"
        "take (0 + m) vs' = take 0 (values rn) @ take m (drop (Suc t) (values rn))"
        using compact_move_same[OF s1(6) c0 _ tm rl1 as1] by blast
      define s' where "s' = s1\<lparr>heap := (heap s1)(r \<mapsto> rn\<lparr>values := vs', count := int (0 + m)\<rparr>)\<rparr>"
      have mlt: "int m < asize s" using Suc.prems(6,7) by simp
      have a: "compact_move s (Some l) (Some r) (int rfc) (int t) = Ret (Some r) s'"
        using s1(1) r1(1) True nx Nil by (simp add: s'_def)
      have rn1: "heap s1 r = Some rn'" using s1(6) rn' Suc.prems(4) by simp
      have a2: "shape s' ?ps"
        unfolding s'_def using mlt rl r1(2) s1(8) by (intro shape_update[OF s1(2) s1(6)]) simp_all
      have a3: "F @ l # Z @ [r] = (F @ [l]) @ r # []" using Nil by simp
      have cr: "cont s' r = Some (int m, vs')" by (simp add: s'_def cont_upd)
      have cl': "cont s' l = cont s1 l" using lr by (simp add: s'_def cont_upd)
      have fl: "cnt s' l = asize s" using cl' full by (simp add: cnt_cont)
      have b: "\<forall>x\<in>set (F @ [l]). x \<in> set F \<or> cnt s' x = asize s" using fl by simp
      have b2: "\<forall>z\<in>set []. cnt s' z = 0" by simp
      have c: "cnt s' r < asize s" using cr mlt by (simp add: cnt_cont)
      have sr: "seg s' r = take m vs'"
        using seg_take[OF cr] mlt rl r1(2) by simp
      have sl: "seg s' l = seg s1 l" using cl' by (simp add: seg_cont)
      have e: "concat (map (seg s') (l # Z @ [r])) = seg s l @ take (Suc m) (drop t (values rn))"
        using sr sl r1(3) s1(3) pend Nil by simp
      have f: "\<forall>x. x \<notin> set (l # Z @ [r]) \<longrightarrow> cont s' x = cont s x"
        using s1(5) by (simp add: s'_def cont_upd)
      have g: "lsize s' = lsize s" "asize s' = asize s" using s1(7,8) by (simp_all add: s'_def)
      show ?thesis using a a2 a3 b b2 c e f g
        by (intro exI[of _ s'] exI[of _ "F @ [l]"] exI[of _ r] exI[of _ "[]"] conjI)
    qed
  qed
qed

lemma compact_loop_null: "compact_loop s leftFoot None = Some (Ret () s)"
  by (subst compact_loop.simps) simp

lemma compact_loop_step:
  assumes "heap s r = Some rn"
    and "deref (s\<lparr>heap := (heap s)(r \<mapsto> rn\<lparr>count := 0\<rparr>)\<rparr>) leftFoot = Some (l, ln)"
    and "count ln \<noteq> asize s"
    and "compact_move (s\<lparr>heap := (heap s)(r \<mapsto> rn\<lparr>count := 0\<rparr>)\<rparr>) leftFoot (Some r) (count rn) 0 =
       Ret leftFoot2 s2"
    and "heap s2 r = Some rn2"
  shows "compact_loop s leftFoot (Some r) = compact_loop s2 leftFoot2 (next rn2)"
  using assms by (subst compact_loop.simps) (simp add: Let_def)

text \<open>The outer loop of compact: every node behind the left foot is emptied into the nodes
  from the left foot on.\<close>

lemma compact_loop_ok:
  assumes "shape s (F @ l # Z @ R)" "\<forall>x\<in>set F. cnt s x = asize s" "\<forall>z\<in>set Z. cnt s z = 0"
    "R \<noteq> [] \<longrightarrow> cnt s l < asize s" "\<forall>x\<in>set R. 1 \<le> cnt s x"
  shows "\<exists>s' F' l' Z'. compact_loop s (Some l) (ptr_of R) = Some (Ret () s') \<and>
     shape s' (F @ l # Z @ R) \<and> F @ l # Z @ R = F' @ l' # Z' \<and>
     (\<forall>x\<in>set F'. cnt s' x = asize s) \<and> (\<forall>z\<in>set Z'. cnt s' z = 0) \<and>
     concat (map (seg s') (F @ l # Z @ R)) = concat (map (seg s) (F @ l # Z @ R)) \<and>
     lsize s' = lsize s \<and> asize s' = asize s"
  using assms
proof (induction R arbitrary: s F l Z)
  case Nil
  have a: "compact_loop s (Some l) (ptr_of []) = Some (Ret () s)"
    by (simp add: compact_loop_null)
  have b: "F @ l # Z @ [] = F @ l # Z" by simp
  show ?case using a Nil.prems(1) b Nil.prems(2,3)
    by (intro exI[of _ s] exI[of _ F] exI[of _ l] exI[of _ Z] conjI refl)
next
  case (Cons r R)
  let ?ps = "F @ l # Z @ r # R"
  note sh = Cons.prems(1)
  have d: "distinct ?ps" by (rule shape_distinct[OF sh])
  have l: "l \<in> set ?ps" and r: "r \<in> set ?ps" by simp_all
  have lr: "l \<noteq> r" using d by auto
  obtain ln where ln: "heap s l = Some ln" "0 \<le> count ln" "count ln \<le> asize s"
    "int (length (values ln)) = asize s"
    by (rule shape_node[OF sh l])
  obtain rn where rn: "heap s r = Some rn" "0 \<le> count rn" "count rn \<le> asize s"
    "int (length (values rn)) = asize s"
    by (rule shape_node[OF sh r])
  have cl: "cnt s l = count ln" using ln by (simp add: cnt_def)
  have cr: "cont s r = Some (count rn, values rn)" using rn by (simp add: cont_def)
  have room: "count ln < asize s" using Cons.prems(4) cl by simp
  define rn0 where "rn0 = rn\<lparr>count := 0\<rparr>"
  define s1 where "s1 = s\<lparr>heap := (heap s)(r \<mapsto> rn0)\<rparr>"
  define rfc where "rfc = nat (count rn)"
  have rfc: "int rfc = count rn" using rn by (simp add: rfc_def)
  have sh1: "shape s1 ?ps"
    unfolding s1_def using rn shape_asize_pos[OF sh]
    by (intro shape_update[OF sh rn(1)]) (simp_all add: rn0_def)
  have fr1: "\<forall>x. x \<noteq> r \<longrightarrow> cont s1 x = cont s x" by (simp add: s1_def cont_upd)
  have as1: "asize s1 = asize s" "lsize s1 = lsize s" by (simp_all add: s1_def)
  have z1: "\<forall>z\<in>set Z. cnt s1 z = 0"
  proof
    fix z assume z: "z \<in> set Z"
    have "z \<noteq> r" using d z by auto
    then have "cont s1 z = cont s z" using fr1 by simp
    then show "cnt s1 z = 0" using Cons.prems(3) z by (simp add: cnt_cont)
  qed
  have cl1: "cont s1 l = cont s l" using fr1 lr by simp
  have c1: "cnt s1 l < asize s1" using cl1 cl room as1 by (simp add: cnt_cont)
  have h1: "heap s1 r = Some rn0" by (simp add: s1_def)
  have k0: "count rn0 = 0" by (simp add: rn0_def)
  have le: "int rfc \<le> asize s1" using rfc rn as1 by simp
  obtain s2 F2 l2 Z2 where m:
     "compact_move s1 (Some l) (Some r) (int rfc) (int 0) = Ret (Some l2) s2"
     "shape s2 ?ps" "F @ l # Z @ [r] = F2 @ l2 # Z2"
     "\<forall>x\<in>set F2. x \<in> set F \<or> cnt s2 x = asize s1" "\<forall>z\<in>set Z2. cnt s2 z = 0"
     "cnt s2 l2 < asize s1"
     "concat (map (seg s2) (l # Z @ [r])) = seg s1 l @ take rfc (drop 0 (values rn0))"
     "\<forall>x. x \<notin> set (l # Z @ [r]) \<longrightarrow> cont s2 x = cont s1 x"
     "lsize s2 = lsize s1" "asize s2 = asize s1"
    using compact_move_fill[OF sh1 z1 c1 h1 k0 _ le, of 0 rfc] by auto
  obtain rn2 where rn2: "heap s2 r = Some rn2" "0 \<le> count rn2" "count rn2 \<le> asize s2"
    "int (length (values rn2)) = asize s2"
    by (rule shape_node[OF m(2) r])
  have sh2': "shape s2 ((F @ l # Z) @ r # R)" using m(2) by simp
  have nx: "next rn2 = ptr_of R" by (rule shape_next[OF sh2' rn2(1)])
  have dl: "deref s1 (Some l) = Some (l, ln)" using ln lr by (simp add: deref_def s1_def)
  have mv: "compact_move (s\<lparr>heap := (heap s)(r \<mapsto> rn\<lparr>count := 0\<rparr>)\<rparr>) (Some l) (Some r) (count rn) 0 =
       Ret (Some l2) s2"
    using m(1) rfc by (simp add: s1_def rn0_def)
  have step: "compact_loop s (Some l) (ptr_of (r # R)) = compact_loop s2 (Some l2) (ptr_of R)"
    using compact_loop_step[OF rn(1) _ _ mv rn2(1), of l ln] dl room nx
    by (simp add: s1_def rn0_def)
  have eq: "?ps = F2 @ l2 # Z2 @ R"
  proof -
    have "?ps = (F @ l # Z @ [r]) @ R" by simp
    also have "\<dots> = (F2 @ l2 # Z2) @ R" using m(3) by simp
    finally show ?thesis by simp
  qed
  have sh2: "shape s2 (F2 @ l2 # Z2 @ R)" using m(2) by (simp only: eq)
  have Fsame: "\<forall>x\<in>set F. cont s2 x = cont s x"
  proof
    fix x assume x: "x \<in> set F"
    have "x \<notin> set (l # Z @ [r])" using d x by auto
    then have "cont s2 x = cont s1 x" using m(8) by blast
    moreover have "x \<noteq> r" using d x by auto
    ultimately show "cont s2 x = cont s x" using fr1 by simp
  qed
  have Rsame: "\<forall>x\<in>set R. cont s2 x = cont s x"
  proof
    fix x assume x: "x \<in> set R"
    have "x \<notin> set (l # Z @ [r])" using d x by auto
    then have "cont s2 x = cont s1 x" using m(8) by blast
    moreover have "x \<noteq> r" using d x by auto
    ultimately show "cont s2 x = cont s x" using fr1 by simp
  qed
  have f2: "\<forall>x\<in>set F2. cnt s2 x = asize s2"
  proof
    fix x assume x: "x \<in> set F2"
    show "cnt s2 x = asize s2"
    proof (cases "x \<in> set F")
      case True
      then have "cont s2 x = cont s x" using Fsame by simp
      then have "cnt s2 x = cnt s x" by (simp add: cnt_cont)
      then show ?thesis using Cons.prems(2) True m(10) as1 by simp
    next
      case False
      then show ?thesis using m(4) x m(10) by auto
    qed
  qed
  have l2: "R \<noteq> [] \<longrightarrow> cnt s2 l2 < asize s2" using m(6,10) by simp
  have r2: "\<forall>x\<in>set R. 1 \<le> cnt s2 x"
  proof
    fix x assume x: "x \<in> set R"
    then have "cont s2 x = cont s x" using Rsame by simp
    then have "cnt s2 x = cnt s x" by (simp add: cnt_cont)
    then show "1 \<le> cnt s2 x" using Cons.prems(5) x by simp
  qed
  obtain s' F' l' Z' where ih:
     "compact_loop s2 (Some l2) (ptr_of R) = Some (Ret () s')"
     "shape s' (F2 @ l2 # Z2 @ R)" "F2 @ l2 # Z2 @ R = F' @ l' # Z'"
     "\<forall>x\<in>set F'. cnt s' x = asize s2" "\<forall>z\<in>set Z'. cnt s' z = 0"
     "concat (map (seg s') (F2 @ l2 # Z2 @ R)) = concat (map (seg s2) (F2 @ l2 # Z2 @ R))"
     "lsize s' = lsize s2" "asize s' = asize s2"
    using Cons.IH[OF sh2 f2 m(5) l2 r2] by blast
  have a: "compact_loop s (Some l) (ptr_of (r # R)) = Some (Ret () s')" using step ih(1) by simp
  have a2: "shape s' ?ps" using ih(2) by (simp only: eq)
  have a3: "?ps = F' @ l' # Z'" using ih(3) by (simp only: eq)
  have a4: "\<forall>x\<in>set F'. cnt s' x = asize s" using ih(4) m(10) as1 by simp
  have sl: "seg s1 l = seg s l" using cl1 by (simp add: seg_cont)
  have sr: "seg s r = take rfc (values rn)"
    using seg_take[OF cr] rn by (simp add: rfc_def)
  have mid: "concat (map (seg s2) (l # Z @ [r])) = seg s l @ seg s r"
    using m(7) sl sr by (simp add: rn0_def)
  have zz: "concat (map (seg s) Z) = []" by (rule concat_seg_zero[OF Cons.prems(3)])
  have "concat (map (seg s2) ?ps) =
      concat (map (seg s2) F) @ concat (map (seg s2) (l # Z @ [r])) @ concat (map (seg s2) R)"
    by simp
  also have "\<dots> = concat (map (seg s) F) @ (seg s l @ seg s r) @ concat (map (seg s) R)"
    using concat_seg_cong[OF Fsame] concat_seg_cong[OF Rsame] mid by (simp only:)
  also have "\<dots> = concat (map (seg s) ?ps)" using zz by simp
  finally have c2: "concat (map (seg s2) ?ps) = concat (map (seg s) ?ps)" .
  have a5: "concat (map (seg s') ?ps) = concat (map (seg s) ?ps)"
    using ih(6) c2 by (simp only: eq)
  have a6: "lsize s' = lsize s" "asize s' = asize s" using ih(7,8) m(9,10) as1 by simp_all
  show ?case using a a2 a3 a4 ih(5) a5 a6
    by (intro exI[of _ s'] exI[of _ F'] exI[of _ l'] exI[of _ Z'] conjI)
qed

lemma compact_trim_stop:
  "deref s (tail s) = Some (t, tn) \<Longrightarrow> count tn \<noteq> 0 \<Longrightarrow> compact_trim s = Some (Ret () s)"
  by (subst compact_trim.simps) simp

lemma compact_trim_step:
  "deref s (tail s) = Some (t, tn) \<Longrightarrow> count tn = 0 \<Longrightarrow> deleteNode (tail s) s = Ret u s1 \<Longrightarrow>
   compact_trim s = compact_trim s1"
  by (subst compact_trim.simps) simp

text \<open>The last loop of compact deletes the emptied nodes at the end of the chain.\<close>

lemma compact_trim_ok:
  assumes "shape s (P @ Z)" "\<forall>z\<in>set Z. cnt s z = 0" "P \<noteq> []" "cnt s (last P) \<noteq> 0"
  shows "\<exists>s'. compact_trim s = Some (Ret () s') \<and> shape s' P \<and>
     (\<forall>x. x \<notin> set Z \<longrightarrow> cont s' x = cont s x) \<and> lsize s' = lsize s \<and> asize s' = asize s"
  using assms
proof (induction Z arbitrary: s rule: rev_induct)
  case Nil
  obtain P' p where P: "P = P' @ [p]" using Nil.prems(3) by (cases P rule: rev_cases) auto
  have sh: "shape s (P' @ [p])" using Nil.prems(1) P by simp
  have t: "tail s = Some p" by (rule shape_tail[OF sh])
  obtain n where n: "heap s p = Some n" "0 \<le> count n" "count n \<le> asize s"
    "int (length (values n)) = asize s"
    by (rule shape_node[OF sh, of p]) simp
  have d: "deref s (tail s) = Some (p, n)" using t n by (simp add: deref_def)
  have c: "count n \<noteq> 0" using Nil.prems(4) P n by (simp add: cnt_def)
  have a: "compact_trim s = Some (Ret () s)" by (rule compact_trim_stop[OF d c])
  have b: "shape s P" using Nil.prems(1) by simp
  show ?case using a b by (intro exI[of _ s] conjI allI impI refl)
next
  case (snoc z Z)
  have sh: "shape s ((P @ Z) @ [z])" using snoc.prems(1) by simp
  have t: "tail s = Some z" by (rule shape_tail[OF sh])
  obtain n where n: "heap s z = Some n" "0 \<le> count n" "count n \<le> asize s"
    "int (length (values n)) = asize s"
    by (rule shape_node[OF sh, of z]) simp
  have d: "deref s (tail s) = Some (z, n)" using t n by (simp add: deref_def)
  have c: "count n = 0" using snoc.prems(2) n by (simp add: cnt_def)
  have sh': "shape s ((P @ Z) @ z # [])" using sh by simp
  obtain s1 where s1: "deleteNode (Some z) s = Ret () s1" "shape s1 ((P @ Z) @ [])"
      "\<forall>x. x \<noteq> z \<longrightarrow> cont s1 x = cont s x" "lsize s1 = lsize s" "asize s1 = asize s"
    using deleteNode_shape[OF sh'] by blast
  have st: "compact_trim s = compact_trim s1"
    using compact_trim_step[OF d c, of "()" s1] s1(1) t by simp
  have dist: "distinct (P @ Z @ [z])" using shape_distinct[OF snoc.prems(1)] by simp
  have sh1: "shape s1 (P @ Z)" using s1(2) by simp
  have z1: "\<forall>x\<in>set Z. cnt s1 x = 0"
  proof
    fix x assume x: "x \<in> set Z"
    have "x \<noteq> z" using dist x by auto
    then have "cont s1 x = cont s x" using s1(3) by simp
    then show "cnt s1 x = 0" using snoc.prems(2) x by (simp add: cnt_cont)
  qed
  have lp: "last P \<in> set P" using snoc.prems(3) by simp
  have "last P \<noteq> z" using dist lp by auto
  then have "cont s1 (last P) = cont s (last P)" using s1(3) by simp
  then have l1: "cnt s1 (last P) \<noteq> 0" using snoc.prems(4) by (simp add: cnt_cont)
  obtain s' where r: "compact_trim s1 = Some (Ret () s')" "shape s' P"
      "\<forall>x. x \<notin> set Z \<longrightarrow> cont s' x = cont s1 x" "lsize s' = lsize s1" "asize s' = asize s1"
    using snoc.IH[OF sh1 z1 snoc.prems(3) l1] by blast
  have a: "compact_trim s = Some (Ret () s')" using st r(1) by simp
  have f: "\<forall>x. x \<notin> set (Z @ [z]) \<longrightarrow> cont s' x = cont s x" using r(3) s1(3) by simp
  have g: "lsize s' = lsize s" "asize s' = asize s" using r(4,5) s1(4,5) by simp_all
  show ?case using a r(2) f g by (intro exI[of _ s'] conjI)
qed

lemma compact_unfold:
  assumes "heap s h = Some hn" "head s = Some h"
    "compact_skip s (Some h) (next hn) = Some (Ret (lf, rf) s)"
    "compact_loop s lf rf = Some (Ret () s2)"
  shows "compact s = compact_trim s2"
  using assms by (simp add: compact_def deref_def bind_loop_def)

text \<open>compact on a well-formed container: it returns, the container stays well-formed,
  the elements are the same in the same order, and every node but the last is full.\<close>

lemma compact_ok:
  assumes w: "wf s ps"
  shows "\<exists>s' ps'. compact s = Some (Ret () s') \<and> wf s' ps' \<and>
     concat (map (seg s') ps') = concat (map (seg s) ps) \<and>
     (\<forall>x\<in>set (butlast ps'). cnt s' x = asize s) \<and>
     lsize s' = lsize s \<and> asize s' = asize s"
proof (cases ps)
  case Nil
  have sh: "shape s []" using wfD_shape[OF w] Nil by simp
  have "head s = None" using shape_Nil[OF sh] by simp
  then have a: "compact s = Some (Ret () s)" by (simp add: compact_def deref_def)
  have b: "wf s []" using w Nil by simp
  have c: "concat (map (seg s) []) = concat (map (seg s) ps)" using Nil by simp
  have e: "\<forall>x\<in>set (butlast []). cnt s x = asize s" by simp
  show ?thesis using a b c e by (intro exI[of _ s] exI[of _ "[]"] conjI refl)
next
  case (Cons h rest)
  note sh = wfD_shape[OF w]
  have pos: "\<forall>a\<in>set ps. 1 \<le> cnt s a" using w by (simp add: wf_def)
  have C1: "1 \<le> asize s" by (rule shape_asize_pos[OF sh])
  have hd: "head s = Some h" using shape_head[of s h rest] sh Cons by simp
  obtain hn where hn: "heap s h = Some hn" "0 \<le> count hn" "count hn \<le> asize s"
    "int (length (values hn)) = asize s"
    by (rule shape_node[OF sh, of h]) (simp add: Cons)
  have sh0: "shape s ([] @ h # rest)" using sh Cons by simp
  have nx: "next hn = ptr_of rest" by (rule shape_next[OF sh0 hn(1)])
  have p: "path (heap s) (Some h) (h # rest) None" using shapeD_path[OF sh] hd Cons by simp
  obtain F1 l1 R1 where k: "[] @ h # rest = F1 @ l1 # R1"
      "compact_skip s (Some h) (ptr_of rest) = Some (Ret (Some l1, ptr_of R1) s)"
      "\<forall>x\<in>set F1. cnt s x = asize s" "cnt s l1 \<noteq> asize s \<or> R1 = []"
    using compact_skip_ok[OF p, of "[]"] by auto
  have ps1: "ps = F1 @ l1 # [] @ R1" using k(1) Cons by simp
  have sh1: "shape s (F1 @ l1 # [] @ R1)" using sh by (simp only: ps1)
  have l1le: "cnt s l1 \<le> asize s"
  proof -
    obtain n where "heap s l1 = Some n" "0 \<le> count n" "count n \<le> asize s"
      "int (length (values n)) = asize s"
      by (rule shape_node[OF sh, of l1]) (simp add: ps1)
    then show ?thesis by (simp add: cnt_def)
  qed
  have q1: "R1 \<noteq> [] \<longrightarrow> cnt s l1 < asize s" using k(4) l1le by auto
  have q2: "\<forall>x\<in>set R1. 1 \<le> cnt s x" using pos ps1 by simp
  have q3: "\<forall>z\<in>set []. cnt s z = 0" by simp
  obtain s2 F2 l2 Z2 where m:
     "compact_loop s (Some l1) (ptr_of R1) = Some (Ret () s2)"
     "shape s2 (F1 @ l1 # [] @ R1)" "F1 @ l1 # [] @ R1 = F2 @ l2 # Z2"
     "\<forall>x\<in>set F2. cnt s2 x = asize s" "\<forall>z\<in>set Z2. cnt s2 z = 0"
     "concat (map (seg s2) (F1 @ l1 # [] @ R1)) = concat (map (seg s) (F1 @ l1 # [] @ R1))"
     "lsize s2 = lsize s" "asize s2 = asize s"
    using compact_loop_ok[OF sh1 k(3) q3 q1 q2] by blast
  have ps2: "ps = F2 @ l2 # Z2" using m(3) ps1 by simp
  have sh2: "shape s2 ps" using m(2) by (simp only: ps1[symmetric])
  have cc2: "concat (map (seg s2) ps) = concat (map (seg s) ps)"
    using m(6) by (simp only: ps1[symmetric])
  have un: "compact s = compact_trim s2"
    using compact_unfold[OF hn(1) hd _ m(1)] k(2) nx by simp
  have lz: "int (length (concat (map (seg s) ps))) = lsize s" using wf_lsize[OF w] by simp
  have ls1: "1 \<le> lsize s"
  proof -
    have "1 \<le> cnt s h" using pos Cons by simp
    moreover have "0 \<le> sum_list (map (cnt s) rest)"
      using pos Cons by (intro sum_list_nonneg) auto
    ultimately show ?thesis using w Cons by (simp add: wf_def)
  qed
  have l2nn: "0 \<le> cnt s2 l2" by (rule shape_cnt_nonneg[OF sh2]) (simp add: ps2)
  define P where "P = (if cnt s2 l2 = 0 then F2 else F2 @ [l2])"
  define Z where "Z = (if cnt s2 l2 = 0 then l2 # Z2 else Z2)"
  have PZ: "ps = P @ Z" using ps2 by (simp add: P_def Z_def)
  have zz: "\<forall>z\<in>set Z. cnt s2 z = 0" using m(5) by (simp add: Z_def)
  have czz: "concat (map (seg s2) Z) = []" by (rule concat_seg_zero[OF zz])
  have cP: "concat (map (seg s2) P) = concat (map (seg s) ps)"
    using cc2 czz by (simp add: PZ)
  have Pne: "P \<noteq> []"
  proof
    assume e: "P = []"
    have e2: "concat (map (seg s2) P) = []" unfolding e by simp
    have "concat (map (seg s) ps) = []" by (rule trans[OF cP[symmetric] e2])
    then have "length (concat (map (seg s) ps)) = 0" by (simp only: list.size)
    then show False using lz ls1 by (simp only:)
  qed
  have Pfull: "\<forall>x\<in>set (butlast P). cnt s2 x = asize s"
    using m(4) by (auto simp: P_def dest: in_set_butlastD)
  have Ppos: "\<forall>x\<in>set P. 1 \<le> cnt s2 x"
    using m(4) C1 l2nn by (auto simp: P_def)
  have lastP: "cnt s2 (last P) \<noteq> 0"
  proof -
    have "last P \<in> set P" using Pne by simp
    then show ?thesis using Ppos by fastforce
  qed
  have sh2': "shape s2 (P @ Z)" using sh2 by (simp only: PZ)
  obtain s' where r: "compact_trim s2 = Some (Ret () s')" "shape s' P"
      "\<forall>x. x \<notin> set Z \<longrightarrow> cont s' x = cont s2 x" "lsize s' = lsize s2" "asize s' = asize s2"
    using compact_trim_ok[OF sh2' zz Pne lastP] by blast
  have dist: "distinct (P @ Z)" by (rule shape_distinct[OF sh2'])
  have same: "\<forall>x\<in>set P. cont s' x = cont s2 x"
  proof
    fix x assume "x \<in> set P"
    then have "x \<notin> set Z" using dist by auto
    then show "cont s' x = cont s2 x" using r(3) by simp
  qed
  have a: "compact s = Some (Ret () s')" using un r(1) by simp
  have e: "concat (map (seg s') P) = concat (map (seg s) ps)"
    using concat_seg_cong[OF same] cP by simp
  have sz: "lsize s' = sum_list (map (cnt s') P)"
  proof -
    have "int (length (concat (map (seg s') P))) = sum_list (map (cnt s') P)"
      by (rule length_concat_segs[OF r(2)]) simp
    then show ?thesis using e lz r(4) m(7) by simp
  qed
  have cs: "\<forall>x\<in>set P. cnt s' x = cnt s2 x"
  proof
    fix x assume "x \<in> set P"
    then have "cont s' x = cont s2 x" using same by simp
    then show "cnt s' x = cnt s2 x" by (simp add: cnt_cont)
  qed
  have p1: "\<forall>a\<in>set P. 1 \<le> cnt s' a" using cs Ppos by simp
  have b: "wf s' P" using r(2) sz p1 by (simp add: wf_def)
  have f: "\<forall>x\<in>set (butlast P). cnt s' x = asize s"
  proof
    fix x assume x: "x \<in> set (butlast P)"
    then have "x \<in> set P" by (rule in_set_butlastD)
    then have "cnt s' x = cnt s2 x" using cs by simp
    then show "cnt s' x = asize s" using Pfull x by simp
  qed
  have g: "lsize s' = lsize s" "asize s' = asize s" using r(4,5) m(7,8) by simp_all
  show ?thesis using a b e f g by (intro exI[of _ s'] exI[of _ P] conjI)
qed

subsection \<open>What the entry points throw\<close>

lemma new_LNode_throws: "new_LNode mem s = Throw e s' \<Longrightarrow> e = E_NO_MEMORY \<and> s' = s \<and> \<not> mem"
  by (auto simp: new_LNode_def split: if_splits)

lemma split_throws: "split p mem s = Throw e s' \<Longrightarrow> e = E_NO_MEMORY"
  by (auto simp: split_def new_LNode_def Let_def split: option.splits res.splits if_splits prod.splits)

lemma shiftUp_no_throw: "shiftUp p L s \<noteq> Throw e s'"
  by (auto simp: shiftUp_def split: option.splits)

lemma shiftUp_no_throwD: "shiftUp p L s = Throw e s' \<Longrightarrow> False"
  using shiftUp_no_throw by blast

lemma push_first_value_throws: "push_first_value v mem s = Throw e s' \<Longrightarrow> e = E_NO_MEMORY"
  by (auto simp: push_first_value_def new_LNode_def bind_res_def Let_def
      split: option.splits res.splits if_splits)

lemma push_back_in_node_throws: "push_back_in_node p v mem s = Throw e s' \<Longrightarrow> e = E_NO_MEMORY"
  by (auto simp: push_back_in_node_def bind_res_def dest: split_throws
      split: option.splits res.splits if_splits prod.splits)

lemma insert_in_full_node_throws:
  "insert_in_full_node p L v mem s = Throw e s' \<Longrightarrow> e = E_NO_MEMORY"
  by (auto simp: insert_in_full_node_def bind_res_def Let_def shiftUp_no_throw
      dest: split_throws push_back_in_node_throws
      split: option.splits res.splits if_splits prod.splits)

lemma push_back_throws: "push_back v mem s = Throw e s' \<Longrightarrow> e = E_NO_MEMORY"
  by (auto simp: push_back_def bind_res_def
      dest: split_throws push_back_in_node_throws push_first_value_throws
      split: option.splits res.splits if_splits prod.splits)

lemma push_front_throws: "push_front v mem s = Throw e s' \<Longrightarrow> e = E_NO_MEMORY"
  by (auto simp: push_front_def bind_res_def Let_def shiftUp_no_throw
      dest: split_throws push_back_in_node_throws push_first_value_throws
      split: option.splits res.splits if_splits prod.splits)

lemma find_element_loop_result:
  "find_element_loop s index indexSum walker = Some r \<Longrightarrow> r = UB \<or> (\<exists>info. r = Ret info s)"
proof -
  assume a: "find_element_loop s index indexSum walker = Some r"
  show ?thesis
  proof (rule find_element_loop.raw_induct[where P = "\<lambda>s index indexSum walker r.
            r = UB \<or> (\<exists>info. r = Ret info s)", OF _ a], goal_cases)
    case (1 f s index indexSum walker r)
    then show ?case by (auto split: option.splits prod.splits if_splits)
  qed
qed

lemma find_element_result:
  "find_element index s = Some r \<Longrightarrow> r = UB \<or> (\<exists>info. r = Ret info s)"
  unfolding find_element_def by (rule find_element_loop_result)

lemma insert_at_bad_index:
  "insert_at index v mem s = Some (Throw E_BAD_INDEX s') \<longleftrightarrow>
     (index < 0 \<or> index > lsize s) \<and> s' = s"
proof (cases "index < 0 \<or> index > lsize s")
  case True
  then show ?thesis by (auto simp: insert_at_def)
next
  case False
  have "insert_at index v mem s \<noteq> Some (Throw E_BAD_INDEX s')"
  proof
    assume t: "insert_at index v mem s = Some (Throw E_BAD_INDEX s')"
    show False
    proof (cases "index = lsize s")
      case True
      then show False using t False push_back_throws[of v mem s E_BAD_INDEX s']
        by (simp add: insert_at_def)
    next
      case ne: False
      show False
      proof (cases "index = 0")
        case True
        then show False using t False ne push_front_throws[of v mem s E_BAD_INDEX s']
          by (simp add: insert_at_def)
      next
        case nz: False
        obtain r where r: "find_element index s = Some r"
          using t False ne nz
          by (cases "find_element index s") (auto simp: insert_at_def bind_loop_def)
        then have "r = UB \<or> (\<exists>info. r = Ret info s)" by (rule find_element_result)
        then show False
          using t False ne nz r insert_in_full_node_throws[of _ _ v mem s E_BAD_INDEX s']
          by (auto simp: insert_at_def bind_loop_def shiftUp_no_throw
              split: option.splits prod.splits if_splits)
      qed
    qed
  qed
  then show ?thesis using False by auto
qed

subsection \<open>Every outcome of an insertion\<close>

lemma new_LNode_lsize: "new_LNode mem s = Ret b s1 \<Longrightarrow> lsize s1 = lsize s"
  by (auto simp: new_LNode_def split: if_splits)

lemma split_lsize: "split p mem s = Ret b s1 \<Longrightarrow> lsize s1 = lsize s"
  by (auto simp: split_def new_LNode_def Let_def
      split: option.splits res.splits if_splits prod.splits)

lemma shiftUp_lsize: "shiftUp p L s = Ret u s1 \<Longrightarrow> lsize s1 = lsize s"
  by (auto simp: shiftUp_def split: option.splits)

lemma push_first_value_small: "push_first_value value mem s = Ret u s' \<Longrightarrow> lsize s < INT_MAX"
  by (auto simp: push_first_value_def new_LNode_def bind_res_def Let_def
      split: option.splits res.splits if_splits)

lemma push_back_in_node_small:
  "push_back_in_node p value mem s = Ret u s' \<Longrightarrow> lsize s < INT_MAX"
  by (auto simp: push_back_in_node_def bind_res_def dest: split_lsize
      split: option.splits res.splits if_splits prod.splits)

lemma insert_in_full_node_small:
  "insert_in_full_node p L value mem s = Ret u s' \<Longrightarrow> lsize s < INT_MAX"
  by (auto simp: insert_in_full_node_def bind_res_def Let_def
      dest!: split_lsize push_back_in_node_small shiftUp_lsize
      split: option.splits res.splits if_splits prod.splits)

lemma push_back_small: "push_back value mem s = Ret u s' \<Longrightarrow> lsize s < INT_MAX"
  by (auto simp: push_back_def bind_res_def
      dest!: split_lsize push_back_in_node_small push_first_value_small
      split: option.splits res.splits if_splits prod.splits)

lemma push_front_small: "push_front value mem s = Ret u s' \<Longrightarrow> lsize s < INT_MAX"
  by (auto simp: push_front_def bind_res_def Let_def
      dest!: split_lsize push_back_in_node_small push_first_value_small shiftUp_lsize
      split: option.splits res.splits if_splits prod.splits)

lemma split_mem_no_throw: "split p True s \<noteq> Throw e s'"
  by (auto simp: split_def new_LNode_def Let_def
      split: option.splits res.splits if_splits prod.splits)

lemma push_first_value_mem_no_throw: "push_first_value value True s \<noteq> Throw e s'"
  by (auto simp: push_first_value_def new_LNode_def bind_res_def Let_def
      split: option.splits res.splits if_splits)

lemma push_back_in_node_mem_no_throw: "push_back_in_node p value True s \<noteq> Throw e s'"
  by (auto simp: push_back_in_node_def bind_res_def split_mem_no_throw
      split: option.splits res.splits if_splits prod.splits)

lemma insert_in_full_node_mem_no_throw: "insert_in_full_node p L value True s \<noteq> Throw e s'"
  by (auto simp: insert_in_full_node_def bind_res_def Let_def shiftUp_no_throw
      split_mem_no_throw push_back_in_node_mem_no_throw
      split: option.splits res.splits if_splits prod.splits)

lemma push_back_mem_no_throw: "push_back value True s \<noteq> Throw e s'"
  by (auto simp: push_back_def bind_res_def split_mem_no_throw push_back_in_node_mem_no_throw
      push_first_value_mem_no_throw
      split: option.splits res.splits if_splits prod.splits)

lemma push_front_mem_no_throw: "push_front value True s \<noteq> Throw e s'"
  by (auto simp: push_front_def bind_res_def Let_def shiftUp_no_throw split_mem_no_throw
      push_back_in_node_mem_no_throw push_first_value_mem_no_throw
      split: option.splits res.splits if_splits prod.splits)

text \<open>
  A call with a reference into the container behaves like the call with a copy of what the
  reference holds at the statement that reads it, unless that read has no result.
\<close>

lemma push_first_value_cref:
  "push_first_value value mem s = UB \<or>
   (\<exists>x. push_first_value value mem s = push_first_value (Object x) mem s)"
proof (cases "new_LNode mem s")
  case (Ret b s1)
  show ?thesis
  proof (cases "heap s1 b")
    case None
    then show ?thesis using Ret by (simp add: push_first_value_def bind_res_def)
  next
    case (Some nn)
    let ?s2 = "s1\<lparr>heap := (heap s1)(b \<mapsto> nn\<lparr>prev := None, next := None\<rparr>), head := Some b, tail := Some b\<rparr>"
    show ?thesis
    proof (cases "read_cref ?s2 value")
      case None
      then show ?thesis using Ret Some by (simp add: push_first_value_def bind_res_def Let_def)
    next
      case (Some x)
      then have "push_first_value value mem s = push_first_value (Object x) mem s"
        using Ret \<open>heap s1 b = Some nn\<close> by (simp add: push_first_value_def bind_res_def Let_def)
      then show ?thesis by blast
    qed
  qed
next
  case (Throw e s1)
  then have "push_first_value value mem s = push_first_value (Object None) mem s"
    by (simp add: push_first_value_def bind_res_def)
  then show ?thesis by blast
next
  case UB
  then show ?thesis by (simp add: push_first_value_def bind_res_def)
qed

lemma push_back_in_node_cref:
  "push_back_in_node p value mem s = UB \<or>
   (\<exists>x. push_back_in_node p value mem s = push_back_in_node p (Object x) mem s)"
proof (cases "deref s p")
  case None
  then show ?thesis by (simp add: push_back_in_node_def)
next
  case (Some an)
  obtain a n where an: "an = (a, n)" by (cases an)
  let ?m = "if count n \<ge> asize s then split p mem s else Ret p s"
  show ?thesis
  proof (cases ?m)
    case (Ret p1 s1)
    show ?thesis
    proof (cases "deref s1 p1")
      case None
      then show ?thesis using Some an Ret by (simp add: push_back_in_node_def bind_res_def)
    next
      case d: (Some an1)
      obtain a1 n1 where an1: "an1 = (a1, n1)" by (cases an1)
      show ?thesis
      proof (cases "read_cref s1 value")
        case None
        then show ?thesis
          using Some an Ret d an1 by (simp add: push_back_in_node_def bind_res_def)
      next
        case x: (Some x)
        have "push_back_in_node p value mem s = push_back_in_node p (Object x) mem s"
          using Some an Ret d an1 x by (simp add: push_back_in_node_def bind_res_def)
        then show ?thesis by blast
      qed
    qed
  next
    case (Throw e s1)
    then have "push_back_in_node p value mem s = push_back_in_node p (Object None) mem s"
      using Some an by (simp add: push_back_in_node_def bind_res_def)
    then show ?thesis by blast
  next
    case UB
    then show ?thesis using Some an by (simp add: push_back_in_node_def bind_res_def)
  qed
qed

lemma insert_in_full_node_cref:
  "insert_in_full_node p L value mem s = UB \<or>
   (\<exists>x. insert_in_full_node p L value mem s = insert_in_full_node p L (Object x) mem s)"
proof (cases "shiftUp p L s")
  case (Ret u s1)
  show ?thesis
  proof (cases "deref s1 p")
    case None
    then show ?thesis using Ret by (simp add: insert_in_full_node_def bind_res_def)
  next
    case (Some an)
    obtain a n where an: "an = (a, n)" by (cases an)
    show ?thesis
    proof (cases "read_cref s1 value")
      case None
      then show ?thesis
        using Ret Some an by (simp add: insert_in_full_node_def bind_res_def Let_def)
    next
      case x: (Some x)
      have "insert_in_full_node p L value mem s = insert_in_full_node p L (Object x) mem s"
        using Ret Some an x by (simp add: insert_in_full_node_def bind_res_def Let_def)
      then show ?thesis by blast
    qed
  qed
next
  case (Throw e s1)
  then show ?thesis using shiftUp_no_throw[of p L s e s1] by simp
next
  case UB
  then show ?thesis by (simp add: insert_in_full_node_def bind_res_def)
qed

lemma push_back_cref:
  "push_back value mem s = UB \<or> (\<exists>x. push_back value mem s = push_back (Object x) mem s)"
proof (cases "head s = None \<and> tail s = None")
  case True
  then show ?thesis using push_first_value_cref[of "value" mem s] by (simp add: push_back_def)
next
  case False
  have un0: "\<And>v. push_back v mem s =
      (case deref s (tail s) of
         None \<Rightarrow> UB
       | Some (t, tn) \<Rightarrow>
           bind_res (if count tn = asize s
                     then bind_res (split (tail s) mem s) (\<lambda>_ s1. Ret () s1)
                     else Ret () s)
             (\<lambda>_ s1. push_back_in_node (tail s1) v mem s1))"
    unfolding push_back_def by (simp only: False if_False)
  show ?thesis
  proof (cases "deref s (tail s)")
    case None
    then show ?thesis by (simp add: un0)
  next
    case (Some ttn)
    obtain t tn where ttn: "ttn = (t, tn)" by (cases ttn)
    let ?m = "if count tn = asize s
              then bind_res (split (tail s) mem s) (\<lambda>_ s1. Ret () s1) else Ret () s"
    have un: "\<And>v. push_back v mem s = bind_res ?m (\<lambda>_ s1. push_back_in_node (tail s1) v mem s1)"
      unfolding un0 Some ttn by simp
    show ?thesis
    proof (cases ?m)
      case (Ret u s1)
      have e: "\<And>v. push_back v mem s = push_back_in_node (tail s1) v mem s1"
        unfolding un Ret by (simp add: bind_res_def)
      show ?thesis using push_back_in_node_cref[of "tail s1" "value" mem s1] by (simp add: e)
    next
      case (Throw e s1)
      have "\<And>v. push_back v mem s = Throw e s1" unfolding un Throw by (simp add: bind_res_def)
      then have "push_back value mem s = push_back (Object None) mem s" by simp
      then show ?thesis by blast
    next
      case UB
      have "push_back value mem s = UB" unfolding un UB by (simp add: bind_res_def)
      then show ?thesis by simp
    qed
  qed
qed

lemma push_front_full_unfold_cref:
  assumes h: "head s = Some a" and n: "heap s a = Some n" and full: "count n = asize s"
  shows "push_front value mem s = insert_in_full_node (Some a) 0 value mem s"
proof (cases "shiftUp (Some a) 0 s")
  case (Ret u s1)
  then show ?thesis
    using h n full shiftUp_head[OF Ret]
    by (simp add: push_front_def insert_in_full_node_def deref_def bind_res_def
        split: option.split)
next
  case (Throw e s1)
  then show ?thesis
    using h n full by (simp add: push_front_def insert_in_full_node_def deref_def bind_res_def)
next
  case UB
  then show ?thesis
    using h n full by (simp add: push_front_def insert_in_full_node_def deref_def bind_res_def)
qed

lemma push_front_cref:
  "push_front value mem s = UB \<or> (\<exists>x. push_front value mem s = push_front (Object x) mem s)"
proof (cases "head s")
  case None
  then show ?thesis using push_first_value_cref[of "value" mem s] by (simp add: push_front_def)
next
  case (Some a)
  show ?thesis
  proof (cases "heap s a")
    case None
    then show ?thesis using Some by (simp add: push_front_def deref_def)
  next
    case n: (Some n)
    show ?thesis
    proof (cases "count n = asize s")
      case True
      show ?thesis
        using insert_in_full_node_cref[of "Some a" 0 "value" mem s]
        by (simp add: push_front_full_unfold_cref[OF Some n True])
    next
      case ne: False
      show ?thesis
      proof (cases "read_cref s value")
        case None
        then show ?thesis using Some n ne by (simp add: push_front_def deref_def)
      next
        case x: (Some x)
        have "push_front value mem s = push_front (Object x) mem s"
          using Some n ne x by (simp add: push_front_def deref_def)
        then show ?thesis by blast
      qed
    qed
  qed
qed

lemma insert_at_cref:
  "insert_at index value mem s = Some UB \<or>
   (\<exists>x. insert_at index value mem s = insert_at index (Object x) mem s)"
proof -
  consider "index < 0 \<or> lsize s < index" | "0 \<le> index" "index = lsize s"
    | "index = 0" "index \<noteq> lsize s" "0 \<le> lsize s"
    | "0 < index" "index < lsize s"
    by linarith
  then show ?thesis
  proof cases
    case 1
    then have "\<And>v. insert_at index v mem s = Some (Throw E_BAD_INDEX s)"
      by (auto simp: insert_at_def)
    then have "insert_at index value mem s = insert_at index (Object None) mem s" by simp
    then show ?thesis by blast
  next
    case 2
    then have e: "\<And>v. insert_at index v mem s = Some (push_back v mem s)"
      by (simp add: insert_at_def)
    show ?thesis using push_back_cref[of "value" mem s] by (simp add: e)
  next
    case 3
    then have e: "\<And>v. insert_at index v mem s = Some (push_front v mem s)"
      by (simp add: insert_at_def)
    show ?thesis using push_front_cref[of "value" mem s] by (simp add: e)
  next
    case 4
    show ?thesis
    proof (cases "find_element index s")
      case None
      then have "\<And>v. insert_at index v mem s = None"
        using 4 by (simp add: insert_at_def bind_loop_def)
      then have "insert_at index value mem s = insert_at index (Object None) mem s" by simp
      then show ?thesis by blast
    next
      case (Some r)
      then have "r = UB \<or> (\<exists>info. r = Ret info s)" by (rule find_element_result)
      then show ?thesis
      proof
        assume "r = UB"
        then show ?thesis using 4 Some by (simp add: insert_at_def bind_loop_def)
      next
        assume "\<exists>info. r = Ret info s"
        then obtain info where r: "r = Ret info s" by blast
        show ?thesis
        proof (cases "deref s (info_node info)")
          case None
          then show ?thesis using 4 Some r by (simp add: insert_at_def bind_loop_def)
        next
          case d: (Some an)
          obtain a n where an: "an = (a, n)" by (cases an)
          show ?thesis
          proof (cases "count n < asize s")
            case True
            show ?thesis
            proof (cases "read_cref s value")
              case None
              then show ?thesis
                using 4 Some r d an True by (simp add: insert_at_def bind_loop_def)
            next
              case x: (Some x)
              have "insert_at index value mem s = insert_at index (Object x) mem s"
                using 4 Some r d an True x by (simp add: insert_at_def bind_loop_def)
              then show ?thesis by blast
            qed
          next
            case False
            have e: "\<And>v. insert_at index v mem s =
                Some (insert_in_full_node (info_node info) (info_localIndex info) v mem s)"
              using 4 Some r d an False by (simp add: insert_at_def bind_loop_def)
            show ?thesis
              using insert_in_full_node_cref[of "info_node info" "info_localIndex info" "value" mem s]
              by (simp add: e)
          qed
        qed
      qed
    qed
  qed
qed

lemma insert_at_small: "insert_at index value mem s = Some (Ret u s') \<Longrightarrow> lsize s < INT_MAX"
proof -
  assume a: "insert_at index value mem s = Some (Ret u s')"
  consider "index < 0 \<or> lsize s < index" | "0 \<le> index" "index = lsize s"
    | "index = 0" "index \<noteq> lsize s" "0 \<le> lsize s"
    | "0 < index" "index < lsize s"
    by linarith
  then show ?thesis
  proof cases
    case 1
    then show ?thesis using a by (auto simp: insert_at_def)
  next
    case 2
    then show ?thesis using a push_back_small[of "value" mem s u s'] by (simp add: insert_at_def)
  next
    case 3
    then show ?thesis using a push_front_small[of "value" mem s u s'] by (simp add: insert_at_def)
  next
    case 4
    obtain r where r: "find_element index s = Some r"
      using a 4 by (cases "find_element index s") (auto simp: insert_at_def bind_loop_def)
    then have "r = UB \<or> (\<exists>info. r = Ret info s)" by (rule find_element_result)
    then show ?thesis
      using a 4 r insert_in_full_node_small[of _ _ "value" mem s u s']
      by (auto simp: insert_at_def bind_loop_def
          split: option.splits prod.splits if_splits)
  qed
qed

lemma insert_at_mem_no_throw:
  assumes "0 \<le> index" "index \<le> lsize s"
  shows "insert_at index value True s \<noteq> Some (Throw e s')"
proof
  assume a: "insert_at index value True s = Some (Throw e s')"
  consider "index = lsize s" | "index = 0" "index \<noteq> lsize s" | "0 < index" "index < lsize s"
    using assms by linarith
  then show False
  proof cases
    case 1
    then show ?thesis
      using a assms push_back_mem_no_throw[of "value" s e s'] by (simp add: insert_at_def)
  next
    case 2
    then show ?thesis
      using a assms push_front_mem_no_throw[of "value" s e s'] by (simp add: insert_at_def)
  next
    case 3
    obtain r where r: "find_element index s = Some r"
      using a 3 by (cases "find_element index s") (auto simp: insert_at_def bind_loop_def)
    then have "r = UB \<or> (\<exists>info. r = Ret info s)" by (rule find_element_result)
    then show ?thesis
      using a 3 r insert_in_full_node_mem_no_throw[of _ _ "value" s e s']
      by (auto simp: insert_at_def bind_loop_def shiftUp_no_throw
          split: option.splits prod.splits if_splits)
  qed
qed

text \<open>Without memory a call either never allocates, or throws from a well-formed state.\<close>

lemma push_back_mem:
  assumes wf: "wf s ps"
  shows "push_back (Object v) mem s = push_back (Object v) True s \<or>
     push_back (Object v) mem s = Throw E_NO_MEMORY s"
proof (cases mem)
  case True
  then show ?thesis by simp
next
  case False
  then have m: "mem = False" by simp
  show ?thesis
  proof (cases ps rule: rev_cases)
    case Nil
    then show ?thesis
      using push_back_empty[of s v False] wf m by (simp add: push_first_value_no_memory)
  next
    case (snoc xs a)
    have sh: "shape s (xs @ [a])" using wfD_shape[OF wf] snoc by simp
    obtain n where n: "heap s a = Some n" "count n \<le> asize s"
      using shape_node[OF sh, of a] by auto
    show ?thesis
    proof (cases "count n = asize s")
      case True
      then have "cnt s a = asize s" using n by (simp add: cnt_def)
      then show ?thesis using push_back_no_memory_full[OF sh] m by simp
    next
      case ne: False
      then have "count n < asize s" using n by simp
      then have "push_back (Object v) mem s = push_back (Object v) True s"
        unfolding push_back_room_unfold[OF sh n(1) ne] by (rule push_back_in_node_mem[OF n(1)])
      then show ?thesis by simp
    qed
  qed
qed

lemma push_front_mem:
  assumes wf: "wf s ps"
  shows "push_front (Object v) mem s = push_front (Object v) True s \<or>
     (\<exists>s'. push_front (Object v) mem s = Throw E_NO_MEMORY s' \<and> wf s' ps \<and> asize s' = asize s)"
proof (cases mem)
  case True
  then show ?thesis by simp
next
  case False
  then have m: "mem = False" by simp
  show ?thesis
  proof (cases ps)
    case Nil
    then have "push_front (Object v) mem s = Throw E_NO_MEMORY s"
      using push_front_empty[of s v False] wf m by (simp add: push_first_value_no_memory)
    then show ?thesis using wf by blast
  next
    case (Cons a ys)
    have sh: "shape s (a # ys)" using wfD_shape[OF wf] Cons by simp
    have ain: "a \<in> set (a # ys)" by simp
    obtain n where n: "heap s a = Some n" "count n \<le> asize s"
      using shape_node[OF sh ain] by auto
    have h: "head s = Some a" by (rule shape_head[OF sh])
    show ?thesis
    proof (cases "count n = asize s")
      case True
      then have full: "cnt s a = asize s" using n by (simp add: cnt_def)
      obtain n' where n': "heap s a = Some n'" "count n' = asize s" "0 < count n'"
         "push_front (Object v) False s =
           Throw E_NO_MEMORY (s\<lparr>heap := (heap s)(a \<mapsto> n'\<lparr>values :=
            take (nat 0) (values n') @ v # butlast (drop (nat 0) (values n'))\<rparr>)\<rparr>)"
        using push_front_full_no_memory[OF sh full, of v] by blast
      define s' where "s' = s\<lparr>heap := (heap s)(a \<mapsto> n'\<lparr>values :=
            take (nat 0) (values n') @ v # butlast (drop (nat 0) (values n'))\<rparr>)\<rparr>"
      have p: "shape s' (a # ys)" "\<forall>x. cnt s' x = cnt s x" "lsize s' = lsize s"
         "asize s' = asize s"
        using overwritten_node[OF sh ain n'(1,2) _ n'(3) s'_def] by auto
      have "wf s' ps" using wf_cnt_same[OF wf _ p(2) p(3)] p(1) Cons by simp
      moreover have "push_front (Object v) mem s = Throw E_NO_MEMORY s'"
        using n'(4) m by (simp add: s'_def)
      ultimately show ?thesis using p(4) by blast
    next
      case ne: False
      have "push_front (Object v) mem s = push_front (Object v) True s"
        using h n(1) ne by (simp add: push_front_def deref_def)
      then show ?thesis by simp
    qed
  qed
qed

lemma insert_at_middle_mem:
  assumes wf: "wf s ps" and idx: "0 < index" "index < lsize s"
  shows "insert_at index (Object v) mem s = insert_at index (Object v) True s \<or>
     (\<exists>s'. insert_at index (Object v) mem s = Some (Throw E_NO_MEMORY s') \<and> wf s' ps \<and>
        asize s' = asize s)"
proof -
  have sh: "shape s ps" by (rule wfD_shape[OF wf])
  have sz: "lsize s = sum_list (map (cnt s) ps)" using wf by (simp add: wf_def)
  obtain xs a ys where fe: "ps = xs @ a # ys"
     "find_element index s =
       Some (Ret \<lparr>info_node = Some a, info_localIndex = index - sum_list (map (cnt s) xs)\<rparr> s)"
    using find_element_ok[OF sh, of index] idx sz by auto
  have ain: "a \<in> set ps" using fe(1) by simp
  obtain n where n: "heap s a = Some n" "count n \<le> asize s"
    using shape_node[OF sh ain] by auto
  show ?thesis
  proof (cases "mem \<or> count n < asize s")
    case True
    have "insert_at index (Object v) mem s = insert_at index (Object v) True s"
    proof (cases mem)
      case True
      then show ?thesis by simp
    next
      case False
      then have "count n < asize s" using \<open>mem \<or> count n < asize s\<close> by simp
      then show ?thesis
        using idx fe(2) n(1) by (simp add: insert_at_def bind_loop_def deref_def)
    qed
    then show ?thesis by simp
  next
    case False
    then have full: "cnt s a = asize s" using n by (simp add: cnt_def)
    obtain n' where n': "heap s a = Some n'" "count n' = asize s"
       "0 \<le> index - sum_list (map (cnt s) xs)" "index - sum_list (map (cnt s) xs) < count n'"
       "insert_at index (Object v) False s =
         Some (Throw E_NO_MEMORY (s\<lparr>heap := (heap s)(a \<mapsto> n'\<lparr>values :=
          take (nat (index - sum_list (map (cnt s) xs))) (values n') @ v #
          butlast (drop (nat (index - sum_list (map (cnt s) xs))) (values n'))\<rparr>)\<rparr>))"
      using insert_at_full_no_memory[OF wf idx fe(2) full, of v] by blast
    define s' where "s' = s\<lparr>heap := (heap s)(a \<mapsto> n'\<lparr>values :=
          take (nat (index - sum_list (map (cnt s) xs))) (values n') @ v #
          butlast (drop (nat (index - sum_list (map (cnt s) xs))) (values n'))\<rparr>)\<rparr>"
    have p: "shape s' ps" "\<forall>x. cnt s' x = cnt s x" "lsize s' = lsize s" "asize s' = asize s"
      using overwritten_node[OF sh ain n'(1,2,3,4) s'_def] by auto
    have w: "wf s' ps" by (rule wf_cnt_same[OF wf p(1) p(2) p(3)])
    have "mem = False" using False by simp
    then have "insert_at index (Object v) mem s = Some (Throw E_NO_MEMORY s')"
      using n'(5) by (simp add: s'_def)
    then show ?thesis using w p(4) by blast
  qed
qed

text \<open>Whatever an insertion returns or throws is a well-formed container.\<close>

lemma push_back_wf:
  assumes wf: "wf s ps"
    and r: "push_back value mem s = Ret u s' \<or> push_back value mem s = Throw e s'"
  shows "\<exists>ps'. wf s' ps' \<and> asize s' = asize s"
proof -
  obtain x where x: "push_back value mem s = push_back (Object x) mem s"
    using push_back_cref[of "value" mem s] r by auto
  from push_back_mem[OF wf, of x mem] show ?thesis
  proof
    assume t: "push_back (Object x) mem s = push_back (Object x) True s"
    have "push_back (Object x) True s = Ret u s'"
      using r x t push_back_mem_no_throw[of "Object x" s e s'] by auto
    moreover from this have "lsize s < INT_MAX" by (rule push_back_small)
    then obtain s1 ps1 where "push_back (Object x) True s = Ret () s1" "wf s1 ps1"
        "asize s1 = asize s"
      using push_back_ok[OF wf, of x] by blast
    ultimately show ?thesis by auto
  next
    assume "push_back (Object x) mem s = Throw E_NO_MEMORY s"
    then have "s' = s" using r x by auto
    then show ?thesis using wf by blast
  qed
qed

lemma push_front_wf:
  assumes wf: "wf s ps"
    and r: "push_front value mem s = Ret u s' \<or> push_front value mem s = Throw e s'"
  shows "\<exists>ps'. wf s' ps' \<and> asize s' = asize s"
proof -
  obtain x where x: "push_front value mem s = push_front (Object x) mem s"
    using push_front_cref[of "value" mem s] r by auto
  from push_front_mem[OF wf, of x mem] show ?thesis
  proof
    assume t: "push_front (Object x) mem s = push_front (Object x) True s"
    have "push_front (Object x) True s = Ret u s'"
      using r x t push_front_mem_no_throw[of "Object x" s e s'] by auto
    moreover from this have "lsize s < INT_MAX" by (rule push_front_small)
    then obtain s1 ps1 where "push_front (Object x) True s = Ret () s1" "wf s1 ps1"
        "asize s1 = asize s"
      using push_front_ok[OF wf, of x] by blast
    ultimately show ?thesis by auto
  next
    assume "\<exists>s1. push_front (Object x) mem s = Throw E_NO_MEMORY s1 \<and> wf s1 ps \<and>
        asize s1 = asize s"
    then obtain s1 where s1: "push_front (Object x) mem s = Throw E_NO_MEMORY s1" "wf s1 ps"
        "asize s1 = asize s"
      by blast
    then have "s' = s1" using r x by auto
    then show ?thesis using s1 by blast
  qed
qed

lemma insert_at_wf:
  assumes wf: "wf s ps"
    and r: "insert_at index value mem s = Some (Ret u s') \<or>
            insert_at index value mem s = Some (Throw e s')"
  shows "\<exists>ps'. wf s' ps' \<and> asize s' = asize s"
proof -
  have nn: "0 \<le> lsize s" using wf_lsize[OF wf] by simp
  consider "index < 0 \<or> lsize s < index" | "index = lsize s"
    | "index = 0" "index \<noteq> lsize s" | "0 < index" "index < lsize s"
    by linarith
  then show ?thesis
  proof cases
    case 1
    then have "insert_at index value mem s = Some (Throw E_BAD_INDEX s)"
      by (auto simp: insert_at_def)
    then have "s' = s" using r by auto
    then show ?thesis using wf by blast
  next
    case 2
    then have "insert_at index value mem s = Some (push_back value mem s)"
      using nn by (simp add: insert_at_def)
    then have "push_back value mem s = Ret u s' \<or> push_back value mem s = Throw e s'"
      using r by auto
    then show ?thesis by (rule push_back_wf[OF wf])
  next
    case 3
    then have "insert_at index value mem s = Some (push_front value mem s)"
      using nn by (simp add: insert_at_def)
    then have "push_front value mem s = Ret u s' \<or> push_front value mem s = Throw e s'"
      using r by auto
    then show ?thesis by (rule push_front_wf[OF wf])
  next
    case 4
    obtain x where x: "insert_at index value mem s = insert_at index (Object x) mem s"
      using insert_at_cref[of index "value" mem s] r by auto
    from insert_at_middle_mem[OF wf 4, of x mem] show ?thesis
    proof
      assume t: "insert_at index (Object x) mem s = insert_at index (Object x) True s"
      have le: "0 \<le> index" "index \<le> lsize s" using 4 by simp_all
      have "insert_at index (Object x) True s = Some (Ret u s')"
        using r x t insert_at_mem_no_throw[OF le, of "Object x" e s'] by auto
      moreover from this have "lsize s < INT_MAX" by (rule insert_at_small)
      then obtain s1 ps1 where "insert_at index (Object x) True s = Some (Ret () s1)" "wf s1 ps1"
          "asize s1 = asize s"
        using insert_at_middle[OF wf 4, of x] by blast
      ultimately show ?thesis by auto
    next
      assume "\<exists>s1. insert_at index (Object x) mem s = Some (Throw E_NO_MEMORY s1) \<and> wf s1 ps \<and>
          asize s1 = asize s"
      then obtain s1 where s1: "insert_at index (Object x) mem s = Some (Throw E_NO_MEMORY s1)"
          "wf s1 ps" "asize s1 = asize s"
        by blast
      then have "s' = s1" using r x by auto
      then show ?thesis using s1 by blast
    qed
  qed
qed

lemma apply_op_wf:
  assumes wf: "wf s ps"
    and r: "apply_op mem c s = Some (Ret u s') \<or> apply_op mem c s = Some (Throw e s')"
  shows "\<exists>ps'. wf s' ps' \<and> asize s' = asize s"
proof (cases c)
  case (Insert index v)
  then show ?thesis using insert_at_wf[OF wf, of index v mem u s' e] r by simp
next
  case (Push_back v)
  then show ?thesis using push_back_wf[OF wf, of v mem u s' e] r by simp
next
  case (Push_front v)
  then show ?thesis using push_front_wf[OF wf, of v mem u s' e] r by simp
next
  case (Erase index)
  then show ?thesis using erase_any[OF wf, of index] r by auto
next
  case Pop_back
  show ?thesis
  proof (cases "ps = []")
    case True
    then show ?thesis using pop_back_empty[of s] wf r Pop_back by simp
  next
    case False
    then show ?thesis using pop_back_ok[OF wf False] r Pop_back by auto
  qed
next
  case Pop_front
  then show ?thesis using pop_front_ok[OF wf] r by auto
next
  case Compact
  then show ?thesis using compact_ok[OF wf] r by auto
next
  case Clear
  then show ?thesis using clear_ok[OF wf] r by auto
qed

lemma run_wf: "wf s ps \<Longrightarrow> run cs s = Some s' \<Longrightarrow> \<exists>ps'. wf s' ps' \<and> asize s' = asize s"
proof (induction cs arbitrary: s ps)
  case Nil
  then show ?case by auto
next
  case (Cons mc cs)
  obtain mem c where mc: "mc = (mem, c)" by (cases mc)
  from Cons.prems(2) obtain u e s1 where
    a: "apply_op mem c s = Some (Ret u s1) \<or> apply_op mem c s = Some (Throw e s1)"
    and b: "run cs s1 = Some s'"
    unfolding mc by (auto split: option.splits res.splits)
  obtain ps1 where w1: "wf s1 ps1" "asize s1 = asize s"
    using apply_op_wf[OF Cons.prems(1) a] by blast
  obtain ps' where "wf s' ps'" "asize s' = asize s1" using Cons.IH[OF w1(1) b] by blast
  then show ?case using w1(2) by auto
qed

subsection \<open>Evaluating calls on concrete containers\<close>

lemmas step_defs =
  push_back_def push_first_value_def push_back_in_node_def new_LNode_def bind_res_def
  deref_def wr_def rd_def in_array_def Lariat_def

lemma full4_built:
  "run [(True, Push_back (Object (Some 1))), (True, Push_back (Object (Some 2))), (True, Push_back (Object (Some 3))), (True, Push_back (Object (Some 4)))]
     (Lariat 4) = Some full4"
  by (simp add: step_defs full4_def eval_nat_numeral)

lemma deref_full4: "deref full4 (Some 0) = Some (0, \<lparr>next = None, prev = None, count = 4,
                 values = [Some 1, Some 2, Some 3, Some 4]\<rparr>)"
  by (simp add: deref_def full4_def)

lemma erase_past_end: "erase 5 full4 = Some UB"
proof -
  have "find_element 5 full4 = find_element_loop full4 5 4 None"
    unfolding find_element_def
    using find_element_loop_next[of full4 "Some 0" 0 _ 0 5] deref_full4
    by (simp add: full4_def)
  also have "\<dots> = Some UB" by (rule find_element_loop_null) (simp add: deref_def)
  finally show ?thesis by (simp add: erase_def bind_loop_def full4_def)
qed

lemma erase_negative: "erase (- 1) full4 = Some UB"
proof -
  have f: "find_element (- 1) full4 = Some (Ret \<lparr>info_node = Some 0, info_localIndex = - 1\<rparr> full4)"
    unfolding find_element_def
    using find_element_loop_found[of full4 "Some 0" 0 _ 0 "- 1"] deref_full4
    by (simp add: full4_def)
  have sd: "shiftDown (Some 0) (- 1) full4 = UB"
    by (simp add: shiftDown_def full4_def shiftDown_loop.simps[of _ "- 1"] wr_def in_array_def)
  show ?thesis by (simp add: erase_def bind_loop_def f sd bind_res_def) (simp add: full4_def)
qed

lemma wf_full4: "wf full4 [0]"
  by (auto simp: wf_def shape_def full4_def backlinks_def node_ok_def fits_def cnt_def)

lemma seg_full4: "seg full4 0 = [Some 1, Some 2, Some 3, Some 4]"
  by (simp add: seg_def full4_def live_def rd_def in_array_def upt_rec)

lemma find_element_full4:
  "find_element 1 full4 = Some (Ret \<lparr>info_node = Some 0, info_localIndex = 1\<rparr> full4)"
  unfolding find_element_def
  using find_element_loop_found[of full4 "Some 0" 0 _ 0 1] deref_full4
  by (simp add: full4_def)

lemma elements_full4: "elements full4 = Some [Some 1, Some 2, Some 3, Some 4]"
  using elements_shape[OF wfD_shape[OF wf_full4]] seg_full4 by simp

lemma wf_full4_overwritten: "wf full4_overwritten [0]"
  by (auto simp: wf_def shape_def full4_overwritten_def backlinks_def node_ok_def fits_def cnt_def)

lemma elements_full4_overwritten:
  "elements full4_overwritten = Some [Some 1, Some 9, Some 2, Some 3]"
proof -
  have "seg full4_overwritten 0 = [Some 1, Some 9, Some 2, Some 3]"
    by (simp add: seg_def full4_overwritten_def live_def rd_def in_array_def upt_rec)
  then show ?thesis using elements_shape[OF wfD_shape[OF wf_full4_overwritten]] by simp
qed

lemma insert_full4_no_memory:
  "insert_at 1 (Object (Some 9)) False full4 = Some (Throw E_NO_MEMORY full4_overwritten)"
proof -
  have c: "cnt full4 0 = asize full4" by (simp add: cnt_def full4_def)
  obtain n where n: "heap full4 0 = Some n"
     "insert_at 1 (Object (Some 9)) False full4 =
       Some (Throw E_NO_MEMORY (full4\<lparr>heap := (heap full4)(0 \<mapsto> n\<lparr>values :=
            take (nat 1) (values n) @ Some 9 # butlast (drop (nat 1) (values n))\<rparr>)\<rparr>))"
    using insert_at_full_no_memory[OF wf_full4 _ _ find_element_full4 c, of "Some 9"]
    by (auto simp: full4_def)
  have "n = \<lparr>next = None, prev = None, count = 4, values = [Some 1, Some 2, Some 3, Some 4]\<rparr>"
    using n(1) by (simp add: full4_def)
  then show ?thesis using n(2) by (simp add: full4_def full4_overwritten_def)
qed

lemma insert_full4_aliased:
  "insert_at 1 (Element 0 2) True full4 = Some (Ret () full4_insert_aliased)"
proof -
  let ?n = "\<lparr>next = None, prev = None, count = 4,
                 values = [Some (1::int), Some 2, Some 3, Some 4]\<rparr>"
  have h: "heap full4 0 = Some ?n" by (simp add: full4_def)
  have su: "shiftUp (Some 0) 1 full4 =
     Ret () (full4\<lparr>heap := (heap full4)(0 \<mapsto> ?n\<lparr>values := [Some 1] @ last [Some 2, Some 3, Some 4] # butlast [Some 2, Some 3, Some 4] @ []\<rparr>)\<rparr>)"
    by (rule shiftUp_Ret[OF h]) simp_all
  define s2 where "s2 = full4\<lparr>heap := (heap full4)(0 \<mapsto> ?n\<lparr>values := [Some 1, Some 2, Some 2, Some 3]\<rparr>)\<rparr>"
  let ?n2 = "\<lparr>next = None, prev = None, count = 4,
                 values = [Some (1::int), Some 2, Some 2, Some 3]\<rparr>"
  have h2: "heap s2 0 = Some ?n2" by (simp add: s2_def)
  have sp: "split (Some 0) True s2 = Ret (Some (fresh s2)) (s2\<lparr>heap :=
            (let k = (count ?n2 - 1) div 2;
                 h2 = (heap s2)(fresh s2 \<mapsto>
                        \<lparr>next = next ?n2, prev = Some 0, count = k,
                         values = take (nat k) (drop (nat (count ?n2 - k)) (values ?n2)) @
                                  replicate (nat (asize s2) - nat k) None\<rparr>,
                      0 \<mapsto> ?n2\<lparr>count := count ?n2 - k, next := Some (fresh s2)\<rparr>)
             in case next ?n2 of None \<Rightarrow> h2
                | Some c \<Rightarrow> h2(c \<mapsto> (the (heap s2 c))\<lparr>prev := Some (fresh s2)\<rparr>)),
          fresh := Suc (fresh s2),
          nodecount := nodecount s2 + 1,
          tail := (if tail s2 = Some 0 then Some (fresh s2) else tail s2)\<rparr>)"
    by (rule split_Ret[OF h2]) (simp_all add: s2_def full4_def)
  have i: "insert_at 1 (Element 0 2) True full4 =
      Some (insert_in_full_node (Some 0) 1 (Element 0 2) True full4)"
    by (simp add: insert_at_def find_element_full4 bind_loop_def deref_def h) (simp add: full4_def)
  have "insert_in_full_node (Some 0) 1 (Element 0 2) True full4 =
      bind_res (split (Some 0) True s2)
        (\<lambda>splitNode s3. push_back_in_node splitNode (Object (Some 4)) True s3)"
    by (simp add: insert_in_full_node_def su bind_res_def deref_def read_cref_def rd_def wr_def
        in_array_def s2_def)
  also have "\<dots> = Ret () full4_insert_aliased"
    unfolding sp
    by (simp add: bind_res_def push_back_in_node_def deref_def wr_def in_array_def s2_def
        full4_def full4_insert_aliased_def eval_nat_numeral fun_upd_twist)
  finally show ?thesis using i by simp
qed

lemma wf_full4_insert_aliased: "wf full4_insert_aliased [0, 1]"
  by (auto simp: wf_def shape_def full4_insert_aliased_def backlinks_def node_ok_def fits_def
      cnt_def)

lemma elements_full4_insert_aliased:
  "elements full4_insert_aliased = Some [Some 1, Some 2, Some 2, Some 3, Some 4]"
proof -
  have "seg full4_insert_aliased 0 = [Some 1, Some 2, Some 2]"
    "seg full4_insert_aliased 1 = [Some 3, Some 4]"
    by (simp_all add: seg_def full4_insert_aliased_def live_def rd_def in_array_def upt_rec)
  then show ?thesis using elements_shape[OF wfD_shape[OF wf_full4_insert_aliased]] by simp
qed

lemma read_full4_slot2: "read_cref full4 (Element 0 2) = Some (Some 3)"
  by (simp add: read_cref_def full4_def in_array_def rd_def)


lemma find_element_three4:
  "find_element 1 three4 = Some (Ret \<lparr>info_node = Some 0, info_localIndex = 1\<rparr> three4)"
  unfolding find_element_def
  using find_element_loop_found[of three4 "Some 0" 0 _ 0 1]
  by (simp add: three4_def deref_def)

lemma insert_three4_aliased:
  "insert_at 1 (Element 0 2) True three4 = Some (Ret () three4_insert_aliased)"
proof -
  let ?n = "\<lparr>next = None, prev = None, count = 4,
                 values = [Some (1::int), Some 2, Some 3, Some 3]\<rparr>"
  define s1 where "s1 = three4\<lparr>heap := (heap three4)(0 \<mapsto> ?n), lsize := lsize three4 + 1\<rparr>"
  have h: "heap s1 0 = Some ?n" by (simp add: s1_def)
  have su: "shiftUp (Some 0) 1 s1 =
     Ret () (s1\<lparr>heap := (heap s1)(0 \<mapsto> ?n\<lparr>values := [Some 1] @ last [Some 2, Some 3, Some 3] # butlast [Some 2, Some 3, Some 3] @ []\<rparr>)\<rparr>)"
    by (rule shiftUp_Ret[OF h]) simp_all
  have "insert_at 1 (Element 0 2) True three4 = Some (shiftUp (Some 0) 1 s1)"
    by (simp add: insert_at_def find_element_three4 bind_loop_def)
       (simp add: three4_def deref_def read_cref_def rd_def wr_def in_array_def s1_def)
  then show ?thesis
    unfolding su by (simp add: s1_def three4_def three4_insert_aliased_def)
qed

lemma wf_three4: "wf three4 [0]"
  by (auto simp: wf_def shape_def three4_def backlinks_def node_ok_def fits_def cnt_def)

lemma elements_three4: "elements three4 = Some [Some 1, Some 2, Some 3]"
proof -
  have "seg three4 0 = [Some 1, Some 2, Some 3]"
    by (simp add: seg_def three4_def live_def rd_def in_array_def upt_rec)
  then show ?thesis using elements_shape[OF wfD_shape[OF wf_three4]] by simp
qed

lemma wf_three4_insert_aliased: "wf three4_insert_aliased [0]"
  by (auto simp: wf_def shape_def three4_insert_aliased_def backlinks_def node_ok_def fits_def
      cnt_def)

lemma elements_three4_insert_aliased:
  "elements three4_insert_aliased = Some [Some 1, Some 3, Some 2, Some 3]"
proof -
  have "seg three4_insert_aliased 0 = [Some 1, Some 3, Some 2, Some 3]"
    by (simp add: seg_def three4_insert_aliased_def live_def rd_def in_array_def upt_rec)
  then show ?thesis using elements_shape[OF wfD_shape[OF wf_three4_insert_aliased]] by simp
qed

lemma read_three4_slot2: "read_cref three4 (Element 0 2) = Some (Some 3)"
  by (simp add: read_cref_def three4_def in_array_def rd_def)

lemma push_back_full4_no_memory:
  "push_back (Object (Some 9)) False full4 = Throw E_NO_MEMORY full4"
proof -
  have sh: "shape full4 ([] @ [0])" using wfD_shape[OF wf_full4] by simp
  have c: "cnt full4 0 = asize full4" by (simp add: cnt_def full4_def)
  show ?thesis by (rule push_back_no_memory_full[OF sh c])
qed

lemma seven4_built:
  "run [(True, Push_back (Object (Some 1))), (True, Push_back (Object (Some 2))),
        (True, Push_back (Object (Some 3))), (True, Push_back (Object (Some 4))),
        (True, Push_back (Object (Some 5))), (True, Push_back (Object (Some 6))),
        (True, Push_back (Object (Some 7)))]
     (Lariat 4) = Some seven4"
  by (simp add: step_defs split_def split_loop.simps seven4_def eval_nat_numeral Let_def
      signed_divide_int_def signed_modulo_int_def fun_upd_twist)

lemma wf_seven4: "wf seven4 [0, 1]"
  by (auto simp: wf_def shape_def seven4_def backlinks_def node_ok_def fits_def cnt_def)

lemma elements_seven4:
  "elements seven4 = Some [Some 1, Some 2, Some 3, Some 4, Some 5, Some 6, Some 7]"
proof -
  have "seg seven4 0 = [Some 1, Some 2, Some 3]"
    "seg seven4 1 = [Some 4, Some 5, Some 6, Some 7]"
    by (simp_all add: seg_def seven4_def live_def rd_def in_array_def upt_rec)
  then show ?thesis using elements_shape[OF wfD_shape[OF wf_seven4]] by simp
qed

lemma nodes_shape: "shape s ps \<Longrightarrow> nodes s = Some (map (\<lambda>a. the (heap s a)) ps)"
  unfolding nodes_def by (rule nodes_from_path[OF shapeD_path])

lemma count_the_heap: "shape s ps \<Longrightarrow> a \<in> set ps \<Longrightarrow> count (the (heap s a)) = cnt s a"
proof -
  assume sh: "shape s ps" and a: "a \<in> set ps"
  obtain n where "heap s a = Some n" "0 \<le> count n" "count n \<le> asize s"
    "int (length (values n)) = asize s"
    by (rule shape_node[OF sh a])
  then show ?thesis by (simp add: cnt_def)
qed

lemma sum_list_const: "\<forall>x\<in>set xs. f x = (C::int) \<Longrightarrow> sum_list (map f xs) = int (length xs) * C"
  by (induction xs) (simp_all add: algebra_simps)

lemma packed_length:
  assumes "1 \<le> (C::int)" "\<forall>x\<in>set (butlast xs). f x = C" "\<forall>x\<in>set xs. 1 \<le> f x \<and> f x \<le> C"
  shows "int (length xs) = (sum_list (map f xs) + C - 1) div C"
proof (cases xs rule: rev_cases)
  case Nil
  then show ?thesis using assms(1) by simp
next
  case (snoc ys y)
  have sm: "sum_list (map f ys) = int (length ys) * C"
    using assms(2) snoc by (intro sum_list_const) simp
  have e: "sum_list (map f xs) + C - 1 = (f y - 1) + (int (length ys) + 1) * C"
    unfolding snoc by (simp add: sm algebra_simps)
  have d: "((f y - 1) + (int (length ys) + 1) * C) div C = int (length ys) + 1"
    using assms(1,3) snoc by simp
  have "int (length xs) = int (length ys) + 1" unfolding snoc by simp
  then show ?thesis by (simp only: e d)
qed

lemma run_append:
  "run (xs @ ys) s = (case run xs s of None \<Rightarrow> None | Some s1 \<Rightarrow> run ys s1)"
  by (induction xs arbitrary: s) (auto split: option.splits res.splits)

lemma counts_shape:
  assumes "shape s ps"
  shows "map count (map (\<lambda>a. the (heap s a)) ps) = map (cnt s) ps"
  using count_the_heap[OF assms] by simp

lemma run_Lariat_wf:
  assumes "1 \<le> C" and "run cs (Lariat C) = Some s"
  shows "\<exists>ps. wf s ps \<and> asize s = C"
proof -
  obtain ps where "wf s ps" "asize s = asize (Lariat C :: 'a Lariat)"
    using run_wf[OF wf_Lariat[OF assms(1)] assms(2)] by blast
  then show ?thesis by (auto simp: Lariat_def)
qed

lemma full4_overwritten_built:
  "run [(True, Push_back (Object (Some 1))), (True, Push_back (Object (Some 2))),
        (True, Push_back (Object (Some 3))), (True, Push_back (Object (Some 4))),
        (False, Insert 1 (Object (Some 9)))]
     (Lariat 4) = Some full4_overwritten"
proof -
  have "run ([(True, Push_back (Object (Some 1))), (True, Push_back (Object (Some 2))),
        (True, Push_back (Object (Some 3))), (True, Push_back (Object (Some 4)))] @
        [(False, Insert 1 (Object (Some 9)))])
     (Lariat 4) = Some full4_overwritten"
    unfolding run_append full4_built by (simp add: insert_full4_no_memory)
  then show ?thesis by simp
qed

lemma full4_insert_aliased_built:
  "run [(True, Push_back (Object (Some 1))), (True, Push_back (Object (Some 2))),
        (True, Push_back (Object (Some 3))), (True, Push_back (Object (Some 4))),
        (True, Insert 1 (Element 0 2))]
     (Lariat 4) = Some full4_insert_aliased"
proof -
  have "run ([(True, Push_back (Object (Some 1))), (True, Push_back (Object (Some 2))),
        (True, Push_back (Object (Some 3))), (True, Push_back (Object (Some 4)))] @
        [(True, Insert 1 (Element 0 2))])
     (Lariat 4) = Some full4_insert_aliased"
    unfolding run_append full4_built by (simp add: insert_full4_aliased)
  then show ?thesis by simp
qed

section \<open>The claims\<close>

text \<open>
  C1. The claim: \<^verbatim>\<open>insert(index, v)\<close> with \<open>0 < index < size\<close> puts \<open>v\<close> at position
  \<open>index\<close> and keeps every other element in its order. The parameter is a
  \<^verbatim>\<open>const T&\<close>. For an argument that is an object outside the nodes and a size below
  \<open>INT_MAX\<close> the claim holds (lemma \<open>insert_at_middle\<close>). When the owning node
  has room, the code stores the argument before it rotates the node. When the owning node
  is full, \<^verbatim>\<open>insert_in_full_node\<close> rotates the node
  first and reads the argument afterwards, so an argument that refers to a slot of that node
  yields whatever the rotation has put there. With the elements 1, 2, 3, 4 in one full node
  of capacity 4, \<^verbatim>\<open>l.insert(1, l[2])\<close> is called with an argument that holds 3, and the
  traversal afterwards is 1, 2, 2, 3, 4 and not 1, 3, 2, 3, 4. With the elements 1, 2, 3 in
  a node of capacity 4 the same call gives 1, 3, 2, 3, as claimed.
\<close>

theorem insert_full_node_reads_rotated_argument:
  "elements full4 = Some [Some 1, Some 2, Some 3, Some 4] \<and>
   read_cref full4 (Element 0 2) = Some (Some 3) \<and>
   insert_at 1 (Element 0 2) True full4 = Some (Ret () full4_insert_aliased) \<and>
   elements full4_insert_aliased = Some [Some 1, Some 2, Some 2, Some 3, Some 4] \<and>
   elements three4 = Some [Some 1, Some 2, Some 3] \<and>
   read_cref three4 (Element 0 2) = Some (Some 3) \<and>
   insert_at 1 (Element 0 2) True three4 = Some (Ret () three4_insert_aliased) \<and>
   elements three4_insert_aliased = Some [Some 1, Some 3, Some 2, Some 3]"
  using elements_full4 read_full4_slot2 insert_full4_aliased elements_full4_insert_aliased
    elements_three4 read_three4_slot2 insert_three4_aliased elements_three4_insert_aliased
  by simp

text \<open>
  C2. After every sequence of calls of \<^verbatim>\<open>insert\<close>, \<^verbatim>\<open>push_back\<close>,
  \<^verbatim>\<open>push_front\<close>, \<^verbatim>\<open>erase\<close>, \<^verbatim>\<open>pop_back\<close>, \<^verbatim>\<open>pop_front\<close>,
  \<^verbatim>\<open>compact\<close> and \<^verbatim>\<open>clear\<close> on a container constructed empty with a capacity
  of at least 1, \<^verbatim>\<open>size()\<close> is the sum of the counts of the nodes on the chain from the
  head, and it is the number of elements the traversal sees. The sequence may contain calls
  that throw: the caller goes on with the container as the exception left it. The value
  arguments may refer to elements of the container. A sequence with a call whose behaviour
  is undefined has no final state.
\<close>

theorem size_is_sum_of_counts:
  assumes "1 \<le> C" and "run cs (Lariat C) = Some s"
  shows "\<exists>ns es. nodes s = Some ns \<and> size_lariat s = sum_list (map count ns) \<and>
     elements s = Some es \<and> size_lariat s = int (length es)"
proof -
  obtain ps where w: "wf s ps" using run_Lariat_wf[OF assms] by blast
  note sh = wfD_shape[OF w]
  have n: "nodes s = Some (map (\<lambda>a. the (heap s a)) ps)" by (rule nodes_shape[OF sh])
  have "lsize s = sum_list (map (cnt s) ps)" using w by (simp add: wf_def)
  then have c: "size_lariat s = sum_list (map count (map (\<lambda>a. the (heap s a)) ps))"
    by (simp only: counts_shape[OF sh] size_lariat_def)
  have e: "elements s = Some (concat (map (seg s) ps))" by (rule elements_shape[OF sh])
  have l: "size_lariat s = int (length (concat (map (seg s) ps)))"
    using wf_lsize[OF w] by (simp only: size_lariat_def)
  show ?thesis using n c e l
    by (intro exI[of _ "map (\<lambda>a. the (heap s a)) ps"] exI[of _ "concat (map (seg s) ps)"] conjI)
qed

theorem size_is_sum_of_counts_witness:
  "(1::int) \<le> 4 \<and>
   run [(True, Push_back (Object (Some 1))), (True, Push_back (Object (Some 2))),
        (True, Push_back (Object (Some 3))), (True, Push_back (Object (Some 4))),
        (False, Insert 1 (Object (Some 9)))]
     (Lariat 4) = Some full4_overwritten \<and>
   (\<exists>ns. nodes full4_overwritten = Some ns \<and>
      size_lariat full4_overwritten = sum_list (map count ns) \<and>
      elements full4_overwritten = Some [Some 1, Some 9, Some 2, Some 3] \<and>
      size_lariat full4_overwritten = 4)"
proof -
  obtain ns es where r: "nodes full4_overwritten = Some ns"
      "size_lariat full4_overwritten = sum_list (map count ns)"
    using size_is_sum_of_counts[OF _ full4_overwritten_built] by auto
  have "size_lariat full4_overwritten = 4" by (simp add: size_lariat_def full4_overwritten_def)
  then show ?thesis using r full4_overwritten_built elements_full4_overwritten by simp
qed

text \<open>
  C3. After every such sequence of calls, every node on the chain has a count of at most the
  capacity, and no node but possibly the last has the count 0; in fact the last node is not
  empty either.
\<close>

theorem segments_bounded_and_nonempty:
  assumes "1 \<le> C" and "run cs (Lariat C) = Some s"
  shows "\<exists>ns. nodes s = Some ns \<and> (\<forall>n\<in>set ns. count n \<le> C) \<and>
     (\<forall>n\<in>set (butlast ns). count n \<noteq> 0) \<and> (\<forall>n\<in>set ns. 1 \<le> count n)"
proof -
  obtain ps where w: "wf s ps" and C: "asize s = C" using run_Lariat_wf[OF assms] by blast
  note sh = wfD_shape[OF w]
  define ns where "ns = map (\<lambda>a. the (heap s a)) ps"
  have n: "nodes s = Some ns" unfolding ns_def by (rule nodes_shape[OF sh])
  have b: "\<forall>n\<in>set ns. 1 \<le> count n \<and> count n \<le> C"
  proof
    fix m assume "m \<in> set ns"
    then obtain a where a: "a \<in> set ps" "m = the (heap s a)" unfolding ns_def by auto
    obtain k where k: "heap s a = Some k" "0 \<le> count k" "count k \<le> asize s"
      "int (length (values k)) = asize s"
      by (rule shape_node[OF sh a(1)])
    have "1 \<le> cnt s a" using w a(1) by (simp add: wf_def)
    then show "1 \<le> count m \<and> count m \<le> C" using a(2) k C by (simp add: cnt_def)
  qed
  have le: "\<forall>n\<in>set ns. count n \<le> C" using b by simp
  have pos: "\<forall>n\<in>set ns. 1 \<le> count n" using b by simp
  have nz: "\<forall>n\<in>set (butlast ns). count n \<noteq> 0"
  proof
    fix m assume "m \<in> set (butlast ns)"
    then have "m \<in> set ns" by (rule in_set_butlastD)
    then have "1 \<le> count m" using pos by simp
    then show "count m \<noteq> 0" by simp
  qed
  show ?thesis using n le nz pos by (intro exI[of _ ns] conjI)
qed

theorem segments_bounded_and_nonempty_witness:
  "(1::int) \<le> 4 \<and>
   run [(True, Push_back (Object (Some 1))), (True, Push_back (Object (Some 2))),
        (True, Push_back (Object (Some 3))), (True, Push_back (Object (Some 4))),
        (True, Insert 1 (Element 0 2))]
     (Lariat 4) = Some full4_insert_aliased \<and>
   (\<exists>ns. nodes full4_insert_aliased = Some ns \<and> map count ns = [3, 2] \<and>
      (\<forall>n\<in>set ns. count n \<le> 4) \<and> (\<forall>n\<in>set (butlast ns). count n \<noteq> 0))"
proof -
  obtain ns where r: "nodes full4_insert_aliased = Some ns" "\<forall>n\<in>set ns. count n \<le> 4"
      "\<forall>n\<in>set (butlast ns). count n \<noteq> 0"
    using segments_bounded_and_nonempty[OF _ full4_insert_aliased_built] by auto
  have "nodes full4_insert_aliased = Some (map (\<lambda>a. the (heap full4_insert_aliased a)) [0, 1])"
    by (rule nodes_shape[OF wfD_shape[OF wf_full4_insert_aliased]])
  then have "map count ns = [3, 2]" using r(1) by (auto simp: full4_insert_aliased_def)
  then show ?thesis using r full4_insert_aliased_built by (intro conjI exI[of _ ns]) simp_all
qed

text \<open>
  C4. The claim: when the allocation of a new node fails, the container is in the state it
  had before the call. \<^verbatim>\<open>push_back\<close> on a full tail keeps to that: it calls
  \<^verbatim>\<open>split\<close>, which allocates before it touches anything. \<^verbatim>\<open>insert_in_full_node\<close>
  does not: it rotates the node and overwrites a slot before it calls \<^verbatim>\<open>split\<close>. With
  the elements 1, 2, 3, 4 in one full node of capacity 4, \<^verbatim>\<open>insert(1, 9)\<close> without
  memory raises \<^verbatim>\<open>E_NO_MEMORY\<close> and leaves the elements 1, 9, 2, 3: the element 4 is
  lost and 9 is stored, while the size is still 4.
\<close>

theorem insert_no_memory_loses_element:
  "elements full4 = Some [Some 1, Some 2, Some 3, Some 4] \<and>
   insert_at 1 (Object (Some 9)) False full4 = Some (Throw E_NO_MEMORY full4_overwritten) \<and>
   elements full4_overwritten = Some [Some 1, Some 9, Some 2, Some 3] \<and>
   size_lariat full4_overwritten = 4 \<and>
   push_back (Object (Some 9)) False full4 = Throw E_NO_MEMORY full4"
  using insert_full4_no_memory elements_full4 elements_full4_overwritten
    push_back_full4_no_memory
  by (simp add: size_lariat_def full4_overwritten_def)

text \<open>
  C5. The claim: in the general case of \<^verbatim>\<open>erase(index)\<close> the shift inside the node reads
  only the slots \<open>localIndex + 1 ..< count\<close> and writes only the slots
  \<open>localIndex ..< count - 1\<close>. The code does not keep to that: the loop of
  \<^verbatim>\<open>shiftDown\<close> runs while \<open>i < count\<close> and reads slot \<open>i + 1\<close>. With capacity 4 and
  the elements 1, 2, 3, 4 in one full node, \<^verbatim>\<open>erase(1)\<close> finds local index 1 in that node,
  and the shift reads slot 4, which is the count and lies past the array, and writes slot 3,
  which is \<open>count - 1\<close>.
\<close>

theorem shiftDown_reads_slot_at_count:
  "find_element 1 full4 = Some (Ret \<lparr>info_node = Some 0, info_localIndex = 1\<rparr> full4) \<and>
   shiftDown_accesses (Some 0) 1 full4 =
     Some [Read 2, Write 1, Read 3, Write 2, Read 4, Write 3] \<and>
   map_option count (heap full4 0) = Some 4 \<and>
   map_option (\<lambda>n. length (values n)) (heap full4 0) = Some 4"
proof -
  have f: "find_element 1 full4 = Some (Ret \<lparr>info_node = Some 0, info_localIndex = 1\<rparr> full4)"
    unfolding find_element_def
    using find_element_loop_found[of full4 "Some 0" 0 _ 0 1] deref_full4
    by (simp add: full4_def)
  have "shiftDown_loop \<lparr>next = None, prev = None, count = 4,
                 values = [Some (1::int), Some 2, Some 3, Some 4]\<rparr> 1 =
        Some (\<lparr>next = None, prev = None, count = 4,
                 values = [Some 1] @ [Some 3, Some 4] @ rd [] 0 # []\<rparr>,
              concat (map (\<lambda>k. [Read (k + 1), Write k]) [1 .. 4 - 1]))"
    using shiftDown_loop_shift[of "\<lparr>next = None, prev = None, count = 4,
                 values = [Some (1::int), Some 2, Some 3, Some 4]\<rparr>"
              "[Some 1]" "Some 2" "[Some 3, Some 4]" "[]" 1]
    by simp
  then have a: "shiftDown_accesses (Some 0) 1 full4 =
     Some [Read 2, Write 1, Read 3, Write 2, Read 4, Write 3]"
    by (simp add: shiftDown_accesses_def full4_def upto.simps)
  show ?thesis using f a by (simp add: full4_def)
qed

text \<open>
  C6. The claim: \<^verbatim>\<open>erase\<close> raises an out-of-range condition for an index outside the
  removal range and leaves the container as it was. The code of \<^verbatim>\<open>erase\<close> has no such
  check (\<^verbatim>\<open>insert\<close> has one). With the elements 1, 2, 3, 4 in the container,
  \<^verbatim>\<open>erase(5)\<close> walks \<^verbatim>\<open>find_element\<close> off the end of the chain and dereferences the
  null pointer, and \<^verbatim>\<open>erase(-1)\<close> writes slot \<open>-1\<close> of the head node; neither raises
  \<^verbatim>\<open>E_BAD_INDEX\<close>.
\<close>

theorem erase_out_of_range_unchecked:
  "erase 5 full4 = Some UB \<and> erase (- 1) full4 = Some UB"
  using erase_past_end erase_negative by simp

text \<open>
  C7. \<^verbatim>\<open>insert(index, value)\<close> raises \<^verbatim>\<open>E_BAD_INDEX\<close> exactly when
  \<open>index < 0\<close> or \<open>index > size\<close>, and the state the exception leaves is the state before
  the call. This holds for every state and whether or not memory is available.
\<close>

theorem insert_out_of_range:
  "insert_at index v mem s = Some (Throw E_BAD_INDEX s') \<longleftrightarrow>
     (index < 0 \<or> size_lariat s < index) \<and> s' = s"
  using insert_at_bad_index[of index v mem s s'] by (simp add: size_lariat_def)

theorem insert_out_of_range_witness:
  "insert_at 5 (Object (Some 9)) True full4 = Some (Throw E_BAD_INDEX full4) \<and>
   insert_at (- 1) (Object (Some 9)) True full4 = Some (Throw E_BAD_INDEX full4) \<and>
   insert_at 4 (Object (Some 9)) True full4 \<noteq> Some (Throw E_BAD_INDEX full4) \<and>
   insert_at 0 (Object (Some 9)) True full4 \<noteq> Some (Throw E_BAD_INDEX full4)"
  using insert_out_of_range[of 5 "Object (Some 9)" True full4 full4]
    insert_out_of_range[of "- 1" "Object (Some 9)" True full4 full4]
    insert_out_of_range[of 4 "Object (Some 9)" True full4 full4]
    insert_out_of_range[of 0 "Object (Some 9)" True full4 full4]
  by (simp add: size_lariat_def full4_def)

text \<open>
  C8. \<^verbatim>\<open>split\<close> on a full node \<open>a\<close> of a chain moves \<open>numSplit\<close> elements to a new
  node \<open>b\<close>, where \<open>numSplit\<close> is half the count, less one when the count is even. The
  new node holds the last \<open>numSplit\<close> elements of the old one in their order and the old node
  keeps the others. The new node comes right after the old one in the chain, with the links
  in both directions, and it is the tail if the old node was. No other node's elements
  change, and neither does the size.
\<close>

theorem split_full_node:
  assumes "shape s (xs @ a # ys)" and "cnt s a = asize s"
  shows "\<exists>s' b numSplit. split (Some a) True s = Ret (Some b) s' \<and>
      numSplit = (if asize s mod 2 = 0 then asize s div 2 - 1 else asize s div 2) \<and>
      cnt s' b = numSplit \<and> cnt s' a = asize s - numSplit \<and>
      seg s' a = take (nat (asize s - numSplit)) (seg s a) \<and>
      seg s' b = drop (nat (asize s - numSplit)) (seg s a) \<and>
      (\<forall>x. x \<noteq> a \<longrightarrow> x \<noteq> b \<longrightarrow> cont s' x = cont s x) \<and>
      shape s' (xs @ a # b # ys) \<and>
      map_option next (heap s' a) = Some (Some b) \<and>
      map_option prev (heap s' b) = Some (Some a) \<and>
      map_option next (heap s' b) = map_option next (heap s a) \<and>
      (tail s = Some a \<longrightarrow> tail s' = Some b) \<and>
      (tail s \<noteq> Some a \<longrightarrow> tail s' = tail s) \<and>
      lsize s' = lsize s \<and> nodecount s' = nodecount s + 1"
proof -
  have c1: "1 \<le> cnt s a" using assms(2) shape_asize_pos[OF assms(1)] by simp
  have k: "(asize s - 1) div 2 = (if asize s mod 2 = 0 then asize s div 2 - 1 else asize s div 2)"
    by presburger
  obtain s' where r: "split (Some a) True s = Ret (Some (fresh s)) s'"
      "shape s' (xs @ a # fresh s # ys)"
      "cnt s' a = cnt s a - (cnt s a - 1) div 2" "cnt s' (fresh s) = (cnt s a - 1) div 2"
      "seg s' a = take (nat (cnt s a - (cnt s a - 1) div 2)) (seg s a)"
      "seg s' (fresh s) = drop (nat (cnt s a - (cnt s a - 1) div 2)) (seg s a)"
      "\<forall>x. x \<noteq> a \<longrightarrow> x \<noteq> fresh s \<longrightarrow> cont s' x = cont s x"
      "lsize s' = lsize s" "nodecount s' = nodecount s + 1"
      "tail s' = (if tail s = Some a then Some (fresh s) else tail s)"
      "map_option next (heap s' a) = Some (Some (fresh s))"
      "map_option prev (heap s' (fresh s)) = Some (Some a)"
      "map_option next (heap s' (fresh s)) = map_option next (heap s a)"
    using split_seg[OF assms(1) c1] by blast
  show ?thesis
    using r unfolding assms(2) k
    by (intro exI[of _ s'] exI[of _ "fresh s"]
        exI[of _ "if asize s mod 2 = 0 then asize s div 2 - 1 else asize s div 2"]) simp
qed

theorem split_full_node_witness:
  "shape full4 ([] @ 0 # []) \<and> cnt full4 0 = asize full4 \<and>
   (\<exists>s'. split (Some 0) True full4 = Ret (Some 1) s' \<and>
      seg s' 0 = [Some 1, Some 2, Some 3] \<and> seg s' 1 = [Some 4] \<and>
      shape s' [0, 1] \<and> tail s' = Some 1 \<and> lsize s' = 4 \<and> nodecount s' = 2)"
proof -
  have sh: "shape full4 ([] @ 0 # [])" using wfD_shape[OF wf_full4] by simp
  have c: "cnt full4 0 = asize full4" by (simp add: cnt_def full4_def)
  obtain s' b numSplit where r: "split (Some 0) True full4 = Ret (Some b) s'"
      "numSplit = (if asize full4 mod 2 = 0 then asize full4 div 2 - 1 else asize full4 div 2)"
      "seg s' 0 = take (nat (asize full4 - numSplit)) (seg full4 0)"
      "seg s' b = drop (nat (asize full4 - numSplit)) (seg full4 0)"
      "shape s' ([] @ 0 # b # [])"
      "tail full4 = Some 0 \<longrightarrow> tail s' = Some b"
      "lsize s' = lsize full4" "nodecount s' = nodecount full4 + 1"
    using split_full_node[OF sh c] by blast
  have b: "b = 1" using r(1) by (auto simp: split_def new_LNode_def full4_def Let_def
        split: option.splits res.splits if_splits prod.splits)
  have n: "numSplit = 1" using r(2) by (simp add: full4_def)
  have a: "asize full4 = 4" "tail full4 = Some 0" "lsize full4 = 4" "nodecount full4 = 1"
    by (simp_all add: full4_def)
  show ?thesis using sh c r b n a by (simp add: seg_full4)
qed

text \<open>
  C9. On a well-formed container, which is what the constructor and the member functions
  produce (lemma \<open>run_Lariat_wf\<close>), \<^verbatim>\<open>compact\<close> returns, and afterwards the traversal sees the same elements in
  the same order, the size is the same, every node but the last is full, no node is empty or
  over capacity, and the number of nodes is the size divided by the capacity, rounded up.
  With capacity 4 and \<^verbatim>\<open>push_back\<close> of 1 to 7 the elements are still 1 to 7 and two
  nodes remain.
\<close>

theorem compact_packs:
  assumes "wf s ps"
  shows "\<exists>s' ps' ns es. compact s = Some (Ret () s') \<and> wf s' ps' \<and>
     elements s = Some es \<and> elements s' = Some es \<and>
     size_lariat s' = size_lariat s \<and> asize s' = asize s \<and>
     nodes s' = Some ns \<and>
     (\<forall>n\<in>set (butlast ns). count n = asize s) \<and>
     (\<forall>n\<in>set ns. 1 \<le> count n \<and> count n \<le> asize s) \<and>
     int (length ns) = (size_lariat s + asize s - 1) div asize s \<and>
     nodecount s' = int (length ns)"
proof -
  obtain s' ps' where r: "compact s = Some (Ret () s')" "wf s' ps'"
     "concat (map (seg s') ps') = concat (map (seg s) ps)"
     "\<forall>x\<in>set (butlast ps'). cnt s' x = asize s" "lsize s' = lsize s" "asize s' = asize s"
    using compact_ok[OF assms] by blast
  note sh = wfD_shape[OF assms]
  note sh' = wfD_shape[OF r(2)]
  define ns where "ns = map (\<lambda>a. the (heap s' a)) ps'"
  have e: "elements s = Some (concat (map (seg s) ps))" by (rule elements_shape[OF sh])
  have e': "elements s' = Some (concat (map (seg s) ps))"
    using elements_shape[OF sh'] r(3) by simp
  have n: "nodes s' = Some ns" unfolding ns_def by (rule nodes_shape[OF sh'])
  have C1: "1 \<le> asize s" by (rule shape_asize_pos[OF sh])
  have cn: "\<forall>a\<in>set ps'. count (the (heap s' a)) = cnt s' a"
    using count_the_heap[OF sh'] by simp
  have bl: "butlast ns = map (\<lambda>a. the (heap s' a)) (butlast ps')"
    by (simp add: ns_def map_butlast)
  have full: "\<forall>n\<in>set (butlast ns). count n = asize s"
  proof
    fix m assume "m \<in> set (butlast ns)"
    then obtain a where a: "a \<in> set (butlast ps')" "m = the (heap s' a)"
      unfolding bl by auto
    have "a \<in> set ps'" using a(1) by (rule in_set_butlastD)
    then show "count m = asize s" using cn a r(4) by simp
  qed
  have bounds: "\<forall>a\<in>set ps'. 1 \<le> cnt s' a \<and> cnt s' a \<le> asize s"
  proof
    fix a assume a: "a \<in> set ps'"
    obtain m where "heap s' a = Some m" "0 \<le> count m" "count m \<le> asize s'"
      "int (length (values m)) = asize s'"
      by (rule shape_node[OF sh' a])
    then have "cnt s' a \<le> asize s" using r(6) by (simp add: cnt_def)
    moreover have "1 \<le> cnt s' a" using r(2) a by (simp add: wf_def)
    ultimately show "1 \<le> cnt s' a \<and> cnt s' a \<le> asize s" by simp
  qed
  have bn: "\<forall>n\<in>set ns. 1 \<le> count n \<and> count n \<le> asize s"
  proof
    fix m assume "m \<in> set ns"
    then obtain a where a: "a \<in> set ps'" "m = the (heap s' a)" unfolding ns_def by auto
    then show "1 \<le> count m \<and> count m \<le> asize s" using cn bounds by simp
  qed
  have sz: "lsize s' = sum_list (map (cnt s') ps')" using r(2) by (simp add: wf_def)
  have "int (length ps') = (sum_list (map (cnt s') ps') + asize s - 1) div asize s"
    by (rule packed_length[OF C1 r(4) bounds])
  then have len: "int (length ns) = (size_lariat s + asize s - 1) div asize s"
    using sz r(5) by (simp add: ns_def size_lariat_def)
  have nc: "nodecount s' = int (length ns)" using sh' by (simp add: shape_def ns_def)
  have szl: "size_lariat s' = size_lariat s" using r(5) by (simp add: size_lariat_def)
  show ?thesis
    using r(1,2) e e' szl r(6) n full bn len nc
    by (intro exI[of _ s'] exI[of _ ps'] exI[of _ ns] exI[of _ "concat (map (seg s) ps)"] conjI)
qed

theorem compact_packs_witness:
  "run [(True, Push_back (Object (Some 1))), (True, Push_back (Object (Some 2))),
        (True, Push_back (Object (Some 3))), (True, Push_back (Object (Some 4))),
        (True, Push_back (Object (Some 5))), (True, Push_back (Object (Some 6))),
        (True, Push_back (Object (Some 7)))]
     (Lariat 4) = Some seven4 \<and>
   wf seven4 [0, 1] \<and>
   (\<exists>s' ns. compact seven4 = Some (Ret () s') \<and>
      elements s' = Some [Some 1, Some 2, Some 3, Some 4, Some 5, Some 6, Some 7] \<and>
      size_lariat s' = 7 \<and> nodes s' = Some ns \<and> length ns = 2 \<and> nodecount s' = 2)"
proof -
  obtain s' ns es where r: "compact seven4 = Some (Ret () s')"
     "elements seven4 = Some es" "elements s' = Some es"
     "size_lariat s' = size_lariat seven4" "nodes s' = Some ns"
     "int (length ns) = (size_lariat seven4 + asize seven4 - 1) div asize seven4"
     "nodecount s' = int (length ns)"
    using compact_packs[OF wf_seven4] by blast
  have a: "size_lariat seven4 = 7" "asize seven4 = 4" by (simp_all add: size_lariat_def seven4_def)
  have l: "length ns = 2" using r(6) a by simp
  have e: "elements s' = Some [Some 1, Some 2, Some 3, Some 4, Some 5, Some 6, Some 7]"
    using r(2,3) elements_seven4 by simp
  have "\<exists>s' ns. compact seven4 = Some (Ret () s') \<and>
      elements s' = Some [Some 1, Some 2, Some 3, Some 4, Some 5, Some 6, Some 7] \<and>
      size_lariat s' = 7 \<and> nodes s' = Some ns \<and> length ns = 2 \<and> nodecount s' = 2"
    using r(1) e r(4) a r(5) l r(7) by (intro exI[of _ s'] exI[of _ ns]) simp
  then show ?thesis using seven4_built wf_seven4 by simp
qed

text \<open>
  C10. \<^verbatim>\<open>pop_front\<close> on a container whose head is null returns at once and changes
  nothing: head and tail stay null and the size stays 0.
\<close>

theorem pop_front_empty: "head s = None \<Longrightarrow> pop_front s = Ret () s"
  by (simp add: pop_front_def)

theorem pop_front_empty_witness:
  "head (Lariat 4 :: int Lariat) = None \<and>
   pop_front (Lariat 4 :: int Lariat) = Ret () (Lariat 4) \<and>
   tail (Lariat 4 :: int Lariat) = None \<and> size_lariat (Lariat 4 :: int Lariat) = 0"
  using pop_front_empty[of "Lariat 4 :: int Lariat"] by (simp add: Lariat_def size_lariat_def)

end
